(* ===== verification/Prelude.thy ===== *)
theory Prelude
  imports Main "HOL-Library.Word" "HOL-Library.List_Lexorder" "HOL-Library.Multiset"
begin

unbundle bit_operations_syntax

text \<open>
  What the components share: byte strings and little-endian integers, the type
  \<open>[u8; 32]\<close> of digests, Rust strings (UTF-8 byte strings), the result type of
  fallible code with its bind, and generic lemmas on lists.
\<close>

section \<open>Machine integers and byte strings\<close>

type_synonym byte = "8 word"
type_synonym bytes = "byte list"
type_synonym u16 = "16 word"
type_synonym u32 = "32 word"
type_synonym u64 = "64 word"
type_synonym i64 = "64 word" \<comment> \<open>two's complement; compared with \<open>sint\<close>\<close>

abbreviation u32_max :: nat where "u32_max \<equiv> 4294967295"
abbreviation u64_max :: nat where "u64_max \<equiv> 18446744073709551615"

text \<open>\<open>n.to_le_bytes()\<close> and \<open>from_le_bytes\<close> of the integer types.\<close>

fun le_nat :: "nat \<Rightarrow> nat \<Rightarrow> bytes" where
  "le_nat 0 x = []"
| "le_nat (Suc n) x = of_nat (x mod 256) # le_nat n (x div 256)"

fun nat_le :: "bytes \<Rightarrow> nat" where
  "nat_le [] = 0"
| "nat_le (b # bs) = unat b + 256 * nat_le bs"

definition le16 :: "u16 \<Rightarrow> bytes" where "le16 w = le_nat 2 (unat w)"
definition le32 :: "u32 \<Rightarrow> bytes" where "le32 w = le_nat 4 (unat w)"
definition le64 :: "64 word \<Rightarrow> bytes" where "le64 w = le_nat 8 (unat w)"
definition un_le16 :: "bytes \<Rightarrow> u16" where "un_le16 bs = of_nat (nat_le bs)"
definition un_le32 :: "bytes \<Rightarrow> u32" where "un_le32 bs = of_nat (nat_le bs)"
definition un_le64 :: "bytes \<Rightarrow> 64 word" where "un_le64 bs = of_nat (nat_le bs)"

lemma unat_lt: "unat (w :: 'a::len word) < 2 ^ LENGTH('a)"
  by (rule unsigned_less)

lemma unat_byte_lt [simp]: "unat (b :: byte) < 256"
  using unat_lt [of b] by simp

lemma length_le_nat [simp]: "length (le_nat n x) = n"
  by (induction n arbitrary: x) auto

lemma unat_byte_of_nat [simp]: "unat (of_nat (x mod 256) :: byte) = x mod 256"
  by (simp add: unat_of_nat)

lemma nat_le_le_nat: "nat_le (le_nat n x) = x mod 256 ^ n"
proof (induction n arbitrary: x)
  case 0
  show ?case by simp
next
  case (Suc n)
  have "nat_le (le_nat (Suc n) x) = x mod 256 + 256 * (x div 256 mod 256 ^ n)"
    by (simp add: Suc.IH)
  also have "\<dots> = x mod (256 * 256 ^ n)"
    by (simp add: mod_mult2_eq)
  finally show ?case by simp
qed

lemma nat_le_bound: "nat_le bs < 256 ^ length bs"
proof (induction bs)
  case Nil
  show ?case by simp
next
  case (Cons b bs)
  have "unat b < 256" by simp
  moreover have "nat_le bs + 1 \<le> 256 ^ length bs"
    using Cons.IH by simp
  then have "256 * nat_le bs + 256 \<le> 256 * 256 ^ length bs"
    by (metis add_mult_distrib2 mult_le_mono2 nat_mult_1_right)
  moreover have "256 * 256 ^ length bs = (256 :: nat) ^ length (b # bs)" by simp
  ultimately show ?case unfolding nat_le.simps by linarith
qed

lemma le_nat_nat_le: "length bs = n \<Longrightarrow> le_nat n (nat_le bs) = bs"
proof (induction bs arbitrary: n)
  case Nil
  then show ?case by simp
next
  case (Cons b bs)
  have b: "unat b < 256" by simp
  then have m: "(unat b + 256 * nat_le bs) mod 256 = unat b"
    and d: "(unat b + 256 * nat_le bs) div 256 = nat_le bs"
    by simp_all
  from Cons show ?case
    by (auto simp: m d simp del: of_nat_add)
qed

lemma length_le [simp]:
  "length (le16 a) = 2" "length (le32 b) = 4" "length (le64 c) = 8"
  by (simp_all add: le16_def le32_def le64_def)

lemma un_le_le [simp]:
  "un_le16 (le16 a) = a" "un_le32 (le32 b) = b" "un_le64 (le64 c) = c"
  using unat_lt [of a] unat_lt [of b] unat_lt [of c]
  by (simp_all add: un_le16_def le16_def un_le32_def le32_def un_le64_def le64_def nat_le_le_nat)

lemma le_un_le:
  "length bs = 2 \<Longrightarrow> le16 (un_le16 bs) = bs"
  "length bs = 4 \<Longrightarrow> le32 (un_le32 bs) = bs"
  "length bs = 8 \<Longrightarrow> le64 (un_le64 bs) = bs"
  using nat_le_bound [of bs]
  by (simp_all add: un_le16_def le16_def un_le32_def le32_def un_le64_def le64_def
      unat_of_nat le_nat_nat_le)


section \<open>Digests and strings\<close>

text \<open>
  A digest is Rust's \<open>[u8; 32]\<close>: the length is part of the type. \<open>LogHash\<close> and
  \<open>ObjectHash\<close> are both newtypes over it and derive their order from the bytes.
\<close>

typedef hash32 = "{bs :: bytes. length bs = 32}"
  morphisms as_bytes from_bytes
  by (rule exI [of _ "replicate 32 0"]) simp

lemma length_as_bytes [simp]: "length (as_bytes h) = 32"
  using as_bytes [of h] by simp

lemma from_bytes_as_bytes [simp]: "from_bytes (as_bytes h) = h"
  by (rule as_bytes_inverse)

lemma as_bytes_from_bytes [simp]: "length bs = 32 \<Longrightarrow> as_bytes (from_bytes bs) = bs"
  by (rule from_bytes_inverse) simp

lemma as_bytes_eq_iff [simp]: "as_bytes a = as_bytes b \<longleftrightarrow> a = b"
  by (rule as_bytes_inject)

lemma from_bytes_eq_iff [simp]:
  "length a = 32 \<Longrightarrow> length b = 32 \<Longrightarrow> from_bytes a = from_bytes b \<longleftrightarrow> a = b"
  by (metis as_bytes_from_bytes)

instantiation hash32 :: equal
begin

definition "equal_hash32 (a :: hash32) b = (as_bytes a = as_bytes b)"

instance
  by standard (simp add: equal_hash32_def)

end

instantiation hash32 :: linorder
begin

definition "less_eq_hash32 a b = (as_bytes a \<le> as_bytes b)"
definition "less_hash32 a b = (as_bytes a < as_bytes b)"

instance
proof
  fix a b c :: hash32
  show "a < b \<longleftrightarrow> a \<le> b \<and> \<not> b \<le> a"
    unfolding less_eq_hash32_def less_hash32_def by (rule less_le_not_le)
  show "a \<le> a"
    by (simp add: less_eq_hash32_def)
  show "a \<le> b \<Longrightarrow> b \<le> c \<Longrightarrow> a \<le> c"
    by (auto simp: less_eq_hash32_def)
  show "a \<le> b \<Longrightarrow> b \<le> a \<Longrightarrow> a = b"
    by (metis as_bytes_eq_iff less_eq_hash32_def order_antisym)
  show "a \<le> b \<or> b \<le> a"
    by (auto simp: less_eq_hash32_def)
qed

end

text \<open>Digests and a hash function for the concrete instances of the properties.\<close>

definition digest :: "byte \<Rightarrow> hash32" where
  "digest b = from_bytes (replicate 32 b)"

definition toy_hash :: "bytes \<Rightarrow> hash32" where
  "toy_hash bs = from_bytes (take 32 (rev bs @ replicate 32 0))"

lemma digest_eq_iff [simp]: "digest a = digest b \<longleftrightarrow> a = b"
  by (simp add: digest_def)

lemma as_bytes_digest [simp]: "as_bytes (digest b) = replicate 32 b"
  by (simp add: digest_def)

text \<open>
  Well-formed UTF-8, the check behind \<open>String::from_utf8\<close> of the standard library:
  shortest forms only, no surrogates, nothing above U+10FFFF.
\<close>

definition utf8_cont :: "byte \<Rightarrow> bool" where
  "utf8_cont b \<longleftrightarrow> 0x80 \<le> b \<and> b \<le> 0xBF"

fun utf8_valid :: "bytes \<Rightarrow> bool" where
  "utf8_valid [] = True"
| "utf8_valid (a # bs) =
    (if a < 0x80 then utf8_valid bs
     else if 0xC2 \<le> a \<and> a \<le> 0xDF then
       (case bs of b # r \<Rightarrow> utf8_cont b \<and> utf8_valid r | _ \<Rightarrow> False)
     else if 0xE0 \<le> a \<and> a \<le> 0xEF then
       (case bs of b # c # r \<Rightarrow>
          (if a = 0xE0 then 0xA0 \<le> b \<and> b \<le> 0xBF
           else if a = 0xED then 0x80 \<le> b \<and> b \<le> 0x9F
           else utf8_cont b) \<and> utf8_cont c \<and> utf8_valid r
        | _ \<Rightarrow> False)
     else if 0xF0 \<le> a \<and> a \<le> 0xF4 then
       (case bs of b # c # d # r \<Rightarrow>
          (if a = 0xF0 then 0x90 \<le> b \<and> b \<le> 0xBF
           else if a = 0xF4 then 0x80 \<le> b \<and> b \<le> 0x8F
           else utf8_cont b) \<and> utf8_cont c \<and> utf8_cont d \<and> utf8_valid r
        | _ \<Rightarrow> False)
     else False)"

text \<open>Rust's \<open>String\<close>: a byte string that is well-formed UTF-8.\<close>

typedef rstring = "{bs :: bytes. utf8_valid bs}"
  morphisms str_bytes mk_str
  by (rule exI [of _ "[]"]) simp

lemma utf8_valid_str_bytes [simp]: "utf8_valid (str_bytes s)"
  using str_bytes [of s] by simp

lemma mk_str_str_bytes [simp]: "mk_str (str_bytes s) = s"
  by (rule str_bytes_inverse)

lemma str_bytes_mk_str [simp]: "utf8_valid bs \<Longrightarrow> str_bytes (mk_str bs) = bs"
  by (rule mk_str_inverse) simp

lemma str_bytes_eq_iff [simp]: "str_bytes a = str_bytes b \<longleftrightarrow> a = b"
  by (rule str_bytes_inject)

lemma mk_str_eq_iff [simp]: "utf8_valid a \<Longrightarrow> utf8_valid b \<Longrightarrow> mk_str a = mk_str b \<longleftrightarrow> a = b"
  by (metis str_bytes_mk_str)

instantiation rstring :: equal
begin

definition "equal_rstring (a :: rstring) b = (str_bytes a = str_bytes b)"

instance
  by standard (simp add: equal_rstring_def)

end

text \<open>The bytes of an ASCII literal of the source.\<close>

definition ascii :: "string \<Rightarrow> bytes" where
  "ascii s = map (\<lambda>c. of_nat (of_char c)) s"

lemma length_ascii [simp]: "length (ascii s) = length s"
  by (simp add: ascii_def)

section \<open>Results\<close>

text \<open>
  Every fallible function of the source returns a value of this sum: \<open>Inl\<close> is an error
  return (\<open>Err\<close>) or a panic, \<open>Inr\<close> is a value.
\<close>

definition res_bind :: "'e + 'a \<Rightarrow> ('a \<Rightarrow> 'e + 'b) \<Rightarrow> 'e + 'b" where
  "res_bind m f = (case m of Inl e \<Rightarrow> Inl e | Inr x \<Rightarrow> f x)"

lemma res_bind_simps [simp]:
  "res_bind (Inl e) f = Inl e"
  "res_bind (Inr x) f = f x"
  by (simp_all add: res_bind_def)

lemma res_bind_eq_Inr [simp]:
  "res_bind m f = Inr y \<longleftrightarrow> (\<exists>x. m = Inr x \<and> f x = Inr y)"
  by (cases m) auto

lemma res_bind_cong [fundef_cong]:
  assumes "m = m'" and "\<And>x. m' = Inr x \<Longrightarrow> f x = f' x"
  shows "res_bind m f = res_bind m' f'"
  using assms by (cases m') auto

lemma res_bind_assoc: "res_bind (res_bind m f) g = res_bind m (\<lambda>x. res_bind (f x) g)"
  by (cases m) auto

text \<open>\<open>if cond { return Err(e) }\<close>.\<close>

definition require :: "bool \<Rightarrow> 'e \<Rightarrow> 'e + unit" where
  "require c e = (if c then Inr () else Inl e)"

lemma require_eq_Inr [simp]: "require c e = Inr u \<longleftrightarrow> c"
  by (auto simp: require_def)

lemma require_simps [simp]: "require True e = Inr ()" "require False e = Inl e"
  by (simp_all add: require_def)

text \<open>A loop that fails at the first element that fails.\<close>

fun res_map :: "('a \<Rightarrow> 'e + 'b) \<Rightarrow> 'a list \<Rightarrow> 'e + 'b list" where
  "res_map f [] = Inr []"
| "res_map f (x # xs) = res_bind (f x) (\<lambda>y. res_bind (res_map f xs) (\<lambda>ys. Inr (y # ys)))"

lemma res_map_Inr_iff:
  "res_map f xs = Inr ys \<longleftrightarrow> list_all2 (\<lambda>x y. f x = Inr y) xs ys"
  by (induction xs arbitrary: ys) (auto simp: list_all2_Cons1)

section \<open>Lists\<close>

text \<open>\<open>slice[a..b]\<close> for an in-range interval.\<close>

definition slice :: "'a list \<Rightarrow> nat \<Rightarrow> nat \<Rightarrow> 'a list" where
  "slice xs a b = take (b - a) (drop a xs)"

lemma length_slice: "b \<le> length xs \<Longrightarrow> length (slice xs a b) = b - a"
  by (simp add: slice_def)

lemma slice_append: "a \<le> b \<Longrightarrow> b \<le> c \<Longrightarrow> slice xs a b @ slice xs b c = slice xs a c"
proof -
  assume ab: "a \<le> b" and bc: "b \<le> c"
  have "slice xs a c = take ((b - a) + (c - b)) (drop a xs)"
    using ab bc by (simp add: slice_def)
  also have "\<dots> = take (b - a) (drop a xs) @ take (c - b) (drop (b - a) (drop a xs))"
    by (rule take_add)
  finally show ?thesis
    using ab by (simp add: slice_def)
qed

lemma slice_full [simp]: "slice xs 0 (length xs) = xs"
  by (simp add: slice_def)

lemma take_slice: "k \<le> b - a \<Longrightarrow> take k (slice xs a b) = slice xs a (a + k)"
  by (simp add: slice_def min_def)

lemma drop_slice: "drop k (slice xs a b) = slice xs (a + k) b"
  by (simp add: slice_def drop_take add.commute)

text \<open>\<open>slice.windows(2)\<close> of the source, for its test that no two neighbours agree.\<close>

fun windows2 :: "('a \<Rightarrow> 'a \<Rightarrow> bool) \<Rightarrow> 'a list \<Rightarrow> bool" where
  "windows2 P (x # y # zs) \<longleftrightarrow> P x y \<and> windows2 P (y # zs)"
| "windows2 P _ \<longleftrightarrow> True"

lemma windows2_distinct_sorted:
  fixes f :: "'a \<Rightarrow> 'b :: linorder"
  shows "sorted (map f xs) \<Longrightarrow> windows2 (\<lambda>a b. f a \<noteq> f b) xs \<longleftrightarrow> distinct (map f xs)"
proof (induction "\<lambda>a b. f a \<noteq> f b" xs rule: windows2.induct)
  case (1 x y zs)
  have le: "f x \<le> f y" "\<forall>z \<in> set zs. f y \<le> f z"
    using "1.prems" by auto
  have IH: "windows2 (\<lambda>a b. f a \<noteq> f b) (y # zs) \<longleftrightarrow> distinct (map f (y # zs))"
    using "1.hyps" "1.prems" by simp
  show ?case
    using IH le by (auto simp: image_iff)
qed auto

lemma filter_eq_single: "distinct zs \<Longrightarrow> k \<in> set zs \<Longrightarrow> filter (\<lambda>x. x = k) zs = [k]"
  by (induction zs) (auto simp: filter_empty_conv)

lemma sort_key_perm_eq:
  fixes f :: "'a \<Rightarrow> 'b :: linorder"
  assumes "mset xs = mset ys" and "distinct (map f xs)"
  shows "sort_key f xs = sort_key f ys"
proof (rule properties_for_sort_key)
  show "mset (sort_key f ys) = mset xs"
    using assms(1) by simp
  show "sorted (map f (sort_key f ys))" by simp
  fix k assume "k \<in> set (sort_key f ys)"
  then have k: "k \<in> set xs"
    using assms(1) by (metis set_mset_mset set_sort)
  have inj: "inj_on f (set xs)"
    using assms(2) by (simp add: distinct_map)
  have one: "filter (\<lambda>x. f k = f x) zs = [k]" if "mset zs = mset xs" for zs
  proof -
    have d: "distinct zs"
      using that assms(2) by (metis distinct_map mset_eq_imp_distinct_iff)
    have s: "set zs = set xs"
      using that by (metis set_mset_mset)
    have "filter (\<lambda>x. f k = f x) zs = filter (\<lambda>x. x = k) zs"
      using s k inj by (intro filter_cong) (auto dest: inj_onD)
    also have "\<dots> = [k]"
      using d s k by (simp add: filter_eq_single)
    finally show ?thesis .
  qed
  show "filter (\<lambda>x. f k = f x) (sort_key f ys) = filter (\<lambda>x. f k = f x) xs"
    using one [of "sort_key f ys"] one [of xs] assms(1) by simp
qed

text \<open>\<open>sort_unstable\<close> followed by \<open>dedup\<close>: the sorted list of the elements, without repetition.\<close>

lemma distinct_remdups_adj_sorted:
  fixes xs :: "'a :: linorder list"
  shows "sorted xs \<Longrightarrow> distinct (remdups_adj xs)"
proof (induction xs rule: remdups_adj.induct)
  case (3 x y xs)
  show ?case
  proof (cases "x = y")
    case False
    with "3.prems" have "x \<notin> set (y # xs)" by fastforce
    with False 3 show ?thesis by auto
  qed (use 3 in auto)
qed auto

lemma sort_dedup_map:
  fixes f :: "'a \<Rightarrow> 'b :: linorder"
  assumes "inj f"
  shows "map f (remdups_adj (sort_key f xs)) = sorted_list_of_set (f ` set xs)"
proof -
  let ?ys = "map f (sort_key f xs)"
  have "map f (remdups_adj (sort_key f xs)) = remdups_adj ?ys"
    by (rule remdups_adj_map_injective [OF assms, symmetric])
  moreover have s: "sorted ?ys" by simp
  then have "sorted (remdups_adj ?ys)" "distinct (remdups_adj ?ys)"
    using sorted_remdups_adj [OF s] distinct_remdups_adj_sorted [OF s] by blast+
  moreover have "set (remdups_adj ?ys) = f ` set xs" by simp
  ultimately show ?thesis
    by (metis sorted_list_of_set.idem_if_sorted_distinct)
qed

lemma sort_dedup_set_eq:
  fixes f :: "'a \<Rightarrow> 'b :: linorder"
  assumes "inj f"
  shows "remdups_adj (sort_key f xs) = remdups_adj (sort_key f ys) \<longleftrightarrow> set xs = set ys"
proof
  assume "remdups_adj (sort_key f xs) = remdups_adj (sort_key f ys)"
  then show "set xs = set ys" by (metis remdups_adj_set set_sort)
next
  assume "set xs = set ys"
  then have "map f (remdups_adj (sort_key f xs)) = map f (remdups_adj (sort_key f ys))"
    by (simp add: sort_dedup_map [OF assms])
  then show "remdups_adj (sort_key f xs) = remdups_adj (sort_key f ys)"
    using assms by (simp add: inj_map_eq_map)
qed

lemma sort_dedup_fixed:
  fixes f :: "'a \<Rightarrow> 'b :: linorder"
  assumes "inj f"
  shows "remdups_adj (sort_key f xs) = xs \<longleftrightarrow> sorted (map f xs) \<and> distinct xs"
proof
  assume "remdups_adj (sort_key f xs) = xs"
  moreover have "sorted (map f (remdups_adj (sort_key f xs)))" "distinct (map f (remdups_adj (sort_key f xs)))"
    by (simp_all add: sort_dedup_map [OF assms])
  ultimately show "sorted (map f xs) \<and> distinct xs" by (simp add: distinct_map)
next
  assume "sorted (map f xs) \<and> distinct xs"
  then show "remdups_adj (sort_key f xs) = xs"
    by (simp add: sort_key_id_if_sorted remdups_adj_distinct)
qed

end
