(* ===== verification/Cursor.thy ===== *)
theory Cursor
  imports Prelude
begin

text \<open>
  The framing layer of the content wire formats, from \<open>sync-store/src/content/mod.rs\<close>:
  the length-prefixed field encoders, the forward \<open>Cursor\<close> all decoders share, and hex
  digests. An encoder returns the bytes it appends to its buffer; a decoder is a function
  from a cursor to a value and the advanced cursor. The locale \<open>codec\<close> is the contract
  between an encoder and its decoder.
\<close>

section \<open>Errors\<close>

text \<open>
  The source reports errors as formatted strings. The framing errors keep the values
  their message prints; every other message is \<open>Reject\<close> with its fixed text. \<open>Panic\<close> is a
  failed \<open>expect\<close>.
\<close>

datatype error =
    Panic string
  | Truncated nat nat
  | BadMagic bytes bytes
  | InvalidUtf8
  | TrailingBytes nat
  | Reject string

section \<open>Encoders\<close>

text \<open>The bytes a sequence of pushes appends, in order; it stops at the first panic.\<close>

fun pushes :: "(error + bytes) list \<Rightarrow> error + bytes" where
  "pushes [] = Inr []"
| "pushes (x # xs) = res_bind x (\<lambda>a. res_bind (pushes xs) (\<lambda>b. Inr (a @ b)))"

declare pushes.simps(2) [simp del]

lemma pushes_Cons_iff [simp]:
  "pushes (x # xs) = Inr bs \<longleftrightarrow> (\<exists>a b. x = Inr a \<and> pushes xs = Inr b \<and> bs = a @ b)"
  by (auto simp: pushes.simps)

lemma pushes_Cons_Inl [simp]: "pushes (Inl e # xs) = Inl e"
  by (simp add: pushes.simps)

definition push_len_prefixed :: "bytes \<Rightarrow> error + bytes" where
  "push_len_prefixed bs =
     (if length bs \<le> u32_max then Inr (le32 (of_nat (length bs)) @ bs)
      else Inl (Panic ''field length exceeds u32::MAX''))"

definition push_len_prefixed_u64 :: "bytes \<Rightarrow> error + bytes" where
  "push_len_prefixed_u64 bs =
     (if length bs \<le> u64_max then Inr (le64 (of_nat (length bs)) @ bs)
      else Inl (Panic ''field length exceeds u64::MAX''))"

text \<open>\<open>u32::try_from(n).expect(..)\<close> followed by \<open>to_le_bytes\<close>: every element count.\<close>

definition push_count :: "nat \<Rightarrow> error + bytes" where
  "push_count n =
     (if n \<le> u32_max then Inr (le32 (of_nat n)) else Inl (Panic ''count exceeds u32::MAX''))"

section \<open>The cursor\<close>

record cursor =
  buf :: bytes
  pos :: nat

type_synonym 'a dec = "cursor \<Rightarrow> error + 'a \<times> cursor"

definition cursor_new :: "bytes \<Rightarrow> cursor" where
  "cursor_new bs = \<lparr>buf = bs, pos = 0\<rparr>"

definition remaining :: "cursor \<Rightarrow> nat" where
  "remaining c = length (buf c) - pos c"

definition cursor_is_empty :: "cursor \<Rightarrow> bool" where
  "cursor_is_empty c \<longleftrightarrow> length (buf c) \<le> pos c"

definition bounded_capacity :: "cursor \<Rightarrow> nat \<Rightarrow> nat \<Rightarrow> nat" where
  "bounded_capacity c n min_elem_bytes = min n (remaining c div max min_elem_bytes 1)"

definition cursor_take :: "nat \<Rightarrow> bytes dec" where
  "cursor_take n c =
     (if remaining c < n then Inl (Truncated n (remaining c))
      else Inr (slice (buf c) (pos c) (pos c + n), c\<lparr>pos := pos c + n\<rparr>))"

definition dec_bind :: "'a dec \<Rightarrow> ('a \<Rightarrow> 'b dec) \<Rightarrow> 'b dec" where
  "dec_bind p f c = res_bind (p c) (\<lambda>(x, c'). f x c')"

definition dec_return :: "'a \<Rightarrow> 'a dec" where
  "dec_return x c = Inr (x, c)"

text \<open>The \<open>?\<close> of the source on a result that does not read the cursor.\<close>

definition dec_lift :: "error + 'a \<Rightarrow> 'a dec" where
  "dec_lift r c = res_bind r (\<lambda>x. Inr (x, c))"

definition expect_tag :: "bytes \<Rightarrow> unit dec" where
  "expect_tag tag = dec_bind (cursor_take (length tag)) (\<lambda>got. dec_lift (require (got = tag) (BadMagic tag got)))"

definition take_u8 :: "byte dec" where
  "take_u8 = dec_bind (cursor_take 1) (\<lambda>s. dec_return (hd s))"

definition take_hash :: "hash32 dec" where
  "take_hash = dec_bind (cursor_take 32) (\<lambda>s. dec_return (from_bytes s))"

definition take_u32 :: "u32 dec" where
  "take_u32 = dec_bind (cursor_take 4) (\<lambda>s. dec_return (un_le32 s))"

definition take_u16 :: "u16 dec" where
  "take_u16 = dec_bind (cursor_take 2) (\<lambda>s. dec_return (un_le16 s))"

definition take_array :: "nat \<Rightarrow> bytes dec" where
  "take_array n = cursor_take n"

definition take_i64 :: "i64 dec" where
  "take_i64 = dec_bind (cursor_take 8) (\<lambda>s. dec_return (un_le64 s))"

definition take_u64 :: "u64 dec" where
  "take_u64 = dec_bind (cursor_take 8) (\<lambda>s. dec_return (un_le64 s))"

definition take_len_prefixed :: "bytes dec" where
  "take_len_prefixed = dec_bind take_u32 (\<lambda>len. cursor_take (unat len))"

text \<open>\<open>String::from_utf8\<close>.\<close>

definition from_utf8 :: "bytes \<Rightarrow> error + rstring" where
  "from_utf8 bs = (if utf8_valid bs then Inr (mk_str bs) else Inl InvalidUtf8)"

definition take_len_prefixed_string :: "rstring dec" where
  "take_len_prefixed_string = dec_bind take_len_prefixed (\<lambda>bs. dec_lift (from_utf8 bs))"

definition take_rest :: "bytes dec" where
  "take_rest c = Inr (drop (pos c) (buf c), c\<lparr>pos := length (buf c)\<rparr>)"

text \<open>\<open>for _ in 0..count { v.push(element(cur)?) }\<close>.\<close>

fun take_times :: "nat \<Rightarrow> 'a dec \<Rightarrow> 'a list dec" where
  "take_times 0 p = dec_return []"
| "take_times (Suc n) p = dec_bind p (\<lambda>x. dec_bind (take_times n p) (\<lambda>xs. dec_return (x # xs)))"

text \<open>The trailing-byte check that closes every decoder.\<close>

definition expect_end :: "unit dec" where
  "expect_end c = (if cursor_is_empty c then Inr ((), c) else Inl (TrailingBytes (remaining c)))"

definition run_dec :: "'a dec \<Rightarrow> bytes \<Rightarrow> error + 'a" where
  "run_dec p bs = res_bind (p (cursor_new bs)) (\<lambda>(x, _). Inr x)"

section \<open>Hex digests\<close>

definition hex_digit :: "byte \<Rightarrow> byte" where
  "hex_digit n = (if n < 10 then 48 + n else 87 + n)"

text \<open>\<open>ObjectHash::to_hex\<close> and \<open>LogHash::to_hex\<close>: two lower-case digits per byte.\<close>

definition to_hex :: "hash32 \<Rightarrow> bytes" where
  "to_hex h = concat (map (\<lambda>b. [hex_digit (drop_bit 4 b), hex_digit (b AND 0x0F)]) (as_bytes h))"

definition hex_val :: "byte \<Rightarrow> error + byte" where
  "hex_val c =
     (if 48 \<le> c \<and> c \<le> 57 then Inr (c - 48)
      else if 97 \<le> c \<and> c \<le> 102 then Inr (c - 97 + 10)
      else if 65 \<le> c \<and> c \<le> 70 then Inr (c - 65 + 10)
      else Inl (Reject ''invalid hex digit''))"

fun hex_pairs :: "bytes \<Rightarrow> error + bytes" where
  "hex_pairs (a # b # r) =
     res_bind (hex_val a) (\<lambda>hi. res_bind (hex_val b) (\<lambda>lo.
       res_bind (hex_pairs r) (\<lambda>out. Inr ((push_bit 4 hi OR lo) # out))))"
| "hex_pairs _ = Inr []"

definition from_hex :: "bytes \<Rightarrow> error + hash32" where
  "from_hex s =
     (if length s \<noteq> 64 then Inl (Reject ''expected 64 hex chars'')
      else res_bind (hex_pairs s) (\<lambda>out. Inr (from_bytes out)))"


lemma hex_val_digit:
  fixes n :: byte
  assumes "n < 16"
  shows "hex_val (hex_digit n) = Inr n"
proof (cases "n < 10")
  case True
  then have "unat n < 10" by (simp add: word_less_nat_alt)
  then have "unat (48 + n) = 48 + unat n" by (simp add: unat_word_ariths)
  then show ?thesis using True \<open>unat n < 10\<close>
    by (simp add: hex_digit_def hex_val_def word_le_nat_alt)
next
  case False
  then have b: "10 \<le> unat n" "unat n < 16" using assms by (simp_all add: word_less_nat_alt)
  then have "unat (87 + n) = 87 + unat n" by (simp add: unat_word_ariths)
  then show ?thesis using False b
    by (simp add: hex_digit_def hex_val_def word_le_nat_alt)
qed

lemma low_nibble: "(b :: byte) AND 0x0F = take_bit 4 b"
proof -
  have "(0x0F :: byte) = mask 4" by (simp add: mask_eq_exp_minus_1)
  then show ?thesis by (simp only: take_bit_eq_mask)
qed

lemma nibble_bounds: "drop_bit 4 (b :: byte) < 16" "b AND 0x0F < 16"
proof -
  have "unat (drop_bit 4 b) = unat b div 16"
    by (simp add: drop_bit_eq_div unat_div)
  moreover have "unat b < 16 * 16" by simp
  ultimately show "drop_bit 4 b < 16"
    by (simp add: word_less_nat_alt less_mult_imp_div_less)
  have "unat (take_bit 4 b) = unat b mod 16"
    by (simp add: take_bit_eq_mod unat_mod)
  then show "b AND 0x0F < 16"
    by (simp add: low_nibble word_less_nat_alt)
qed

lemma nibble_join: "push_bit 4 (drop_bit 4 (b::byte)) OR (b AND 0x0F) = b"
  unfolding low_nibble
  by (rule bit_eqI) (auto simp: bit_simps)

lemma hex_pairs_digits: "hex_pairs (concat (map (\<lambda>b. [hex_digit (drop_bit 4 b), hex_digit (b AND 0x0F)]) bs)) = Inr bs"
  by (induction bs) (simp_all add: hex_val_digit nibble_bounds nibble_join)

lemma length_to_hex: "length (to_hex h) = 64"
  by (simp add: to_hex_def length_concat comp_def sum_list_triv)

lemma from_hex_to_hex: "from_hex (to_hex h) = Inr h"
  unfolding from_hex_def by (simp add: length_to_hex) (simp add: to_hex_def hex_pairs_digits)

section \<open>What a decoder consumes\<close>

definition rest :: "cursor \<Rightarrow> bytes" where
  "rest c = drop (pos c) (buf c)"

text \<open>\<open>eats c bs c'\<close>: the next bytes of \<open>c\<close> are \<open>bs\<close>, and \<open>c'\<close> is \<open>c\<close> just after them.\<close>

definition eats :: "cursor \<Rightarrow> bytes \<Rightarrow> cursor \<Rightarrow> bool" where
  "eats c bs c' \<longleftrightarrow> (\<exists>r. rest c = bs @ r) \<and> c' = c\<lparr>pos := pos c + length bs\<rparr>"

lemma rest_advance: "rest (c\<lparr>pos := pos c + n\<rparr>) = drop n (rest c)"
  by (simp add: rest_def add.commute)

lemma rest_cursor_new [simp]: "rest (cursor_new bs) = bs"
  by (simp add: rest_def cursor_new_def)

lemma length_rest: "length (rest c) = remaining c"
  by (simp add: rest_def remaining_def)

lemma eats_rest: "eats c bs c' \<Longrightarrow> rest c = bs @ rest c'"
  by (auto simp: eats_def rest_advance)

lemma eats_Nil [simp]: "eats c [] c' \<longleftrightarrow> c' = c"
  by (auto simp: eats_def)

lemma eats_append: "eats c (a @ b) c'' \<longleftrightarrow> (\<exists>c'. eats c a c' \<and> eats c' b c'')"
  by (auto simp: eats_def rest_advance add.assoc)

lemma ex_eats: "(\<exists>c'. eats c e c' \<and> rest c' = r) \<longleftrightarrow> rest c = e @ r"
  by (auto simp: eats_def rest_advance)

lemma eats_self: "rest c = bs @ r \<Longrightarrow> eats c bs (c\<lparr>pos := pos c + length bs\<rparr>)"
  by (auto simp: eats_def)

text \<open>\<open>writes r c c'\<close>: the encoder result \<open>r\<close> is not a panic and \<open>c\<close> reads its bytes next.\<close>

definition writes :: "error + bytes \<Rightarrow> cursor \<Rightarrow> cursor \<Rightarrow> bool" where
  "writes r c c' \<longleftrightarrow> (\<exists>bs. r = Inr bs \<and> eats c bs c')"

lemma writes_simps [simp]:
  "writes (Inr bs) c c' \<longleftrightarrow> eats c bs c'"
  "writes (pushes []) c c' \<longleftrightarrow> c' = c"
  "writes (pushes (x # xs)) c c'' \<longleftrightarrow> (\<exists>c'. writes x c c' \<and> writes (pushes xs) c' c'')"
  by (auto simp: writes_def eats_append)

lemma cursor_take_iff [simp]:
  "cursor_take n c = Inr (bs, c') \<longleftrightarrow> length bs = n \<and> eats c bs c'"
proof -
  have sl: "slice (buf c) (pos c) (pos c + n) = take n (rest c)"
    by (simp add: slice_def rest_def)
  show ?thesis
    unfolding cursor_take_def sl eats_def length_rest [symmetric]
    by (auto simp: append_eq_conv_conj intro: exI [of _ "drop n (rest c)"])
qed

lemma dec_bind_iff [simp]:
  "dec_bind p f c = Inr (v, c'') \<longleftrightarrow> (\<exists>u c'. p c = Inr (u, c') \<and> f u c' = Inr (v, c''))"
  by (auto simp: dec_bind_def)

lemma dec_return_iff [simp]: "dec_return x c = Inr (v, c') \<longleftrightarrow> v = x \<and> c' = c"
  by (auto simp: dec_return_def)

lemma dec_lift_iff [simp]: "dec_lift r c = Inr (v, c') \<longleftrightarrow> r = Inr v \<and> c' = c"
  by (auto simp: dec_lift_def)

lemma expect_tag_iff [simp]: "expect_tag tag c = Inr (u, c') \<longleftrightarrow> eats c tag c'"
  by (auto simp: expect_tag_def)

lemma take_u8_iff [simp]: "take_u8 c = Inr (b, c') \<longleftrightarrow> eats c [b] c'"
proof -
  have "length s = 1 \<longleftrightarrow> (\<exists>x. s = [x])" for s :: bytes
    by (auto simp: length_Suc_conv)
  then show ?thesis
    by (auto simp: take_u8_def)
qed

lemma take_hash_iff [simp]: "take_hash c = Inr (h, c') \<longleftrightarrow> eats c (as_bytes h) c'"
  by (auto simp: take_hash_def intro: exI [of _ "as_bytes h"])

lemma take_words_iff [simp]:
  "take_u16 c = Inr (w16, c') \<longleftrightarrow> eats c (le16 w16) c'"
  "take_u32 c = Inr (w32, c') \<longleftrightarrow> eats c (le32 w32) c'"
  "take_i64 c = Inr (w64, c') \<longleftrightarrow> eats c (le64 w64) c'"
  "take_u64 c = Inr (w64, c') \<longleftrightarrow> eats c (le64 w64) c'"
  by (auto simp: take_u16_def take_u32_def take_i64_def take_u64_def le_un_le
      intro: exI [of _ "le16 w16"] exI [of _ "le32 w32"] exI [of _ "le64 w64"])

lemma take_array_iff [simp]: "take_array n c = Inr (bs, c') \<longleftrightarrow> length bs = n \<and> eats c bs c'"
  by (simp add: take_array_def)

lemma unat_of_nat_le:
  "n \<le> u32_max \<Longrightarrow> unat (of_nat n :: u32) = n"
  "m \<le> u64_max \<Longrightarrow> unat (of_nat m :: u64) = m"
  by (simp_all add: unat_of_nat)

lemma unat_u32_le: "unat (w :: u32) \<le> u32_max"
  using unat_lt [of w] by simp

lemma unat_u64_le: "unat (w :: u64) \<le> u64_max"
  using unat_lt [of w] by simp

lemma push_count_iff [simp]:
  "push_count n = Inr bs \<longleftrightarrow> n \<le> u32_max \<and> bs = le32 (of_nat n)"
  by (auto simp: push_count_def)

lemma take_len_prefixed_iff [simp]:
  "take_len_prefixed c = Inr (bs, c') \<longleftrightarrow> writes (push_len_prefixed bs) c c'"
proof -
  have "length bs = unat w \<longleftrightarrow> length bs \<le> u32_max \<and> w = of_nat (length bs)" for w :: u32
    using unat_u32_le [of w] by (auto simp: unat_of_nat_le)
  then show ?thesis
    by (auto simp: take_len_prefixed_def push_len_prefixed_def eats_append writes_def)
qed

lemma from_utf8_iff [simp]: "from_utf8 bs = Inr s \<longleftrightarrow> bs = str_bytes s"
  by (auto simp: from_utf8_def)

lemma take_len_prefixed_string_iff [simp]:
  "take_len_prefixed_string c = Inr (s, c') \<longleftrightarrow> writes (push_len_prefixed (str_bytes s)) c c'"
  by (simp add: take_len_prefixed_string_def)

lemma take_rest_iff: "take_rest c = Inr (bs, c') \<longleftrightarrow> bs = rest c \<and> c' = c\<lparr>pos := length (buf c)\<rparr>"
  by (auto simp: take_rest_def rest_def)

lemma expect_end_iff [simp]: "expect_end c = Inr (u, c') \<longleftrightarrow> rest c = [] \<and> c' = c"
  by (auto simp: expect_end_def cursor_is_empty_def rest_def)

lemma run_dec_iff: "run_dec p bs = Inr v \<longleftrightarrow> (\<exists>c'. p (cursor_new bs) = Inr (v, c'))"
  by (auto simp: run_dec_def)

text \<open>The shape of every strict decoder: a body, then the end of the buffer.\<close>

lemma eats_all: "eats (cursor_new bs) e c' \<and> rest c' = [] \<longleftrightarrow> e = bs \<and> c' = \<lparr>buf = bs, pos = length bs\<rparr>"
  by (auto simp: eats_def rest_def cursor_new_def)

lemma writes_all: "(\<exists>c'. writes r (cursor_new bs) c' \<and> rest c' = []) \<longleftrightarrow> r = Inr bs"
  using eats_all by (auto simp: writes_def)

lemma bounded_capacity_le:
  "bounded_capacity c n k \<le> n" "bounded_capacity c n k * k \<le> remaining c"
proof -
  show "bounded_capacity c n k \<le> n"
    by (simp add: bounded_capacity_def)
  have "bounded_capacity c n k * k \<le> (remaining c div max k 1) * max k 1"
    unfolding bounded_capacity_def by (intro mult_le_mono) auto
  also have "\<dots> \<le> remaining c"
    by (rule div_times_less_eq_dividend)
  finally show "bounded_capacity c n k * k \<le> remaining c" .
qed

lemma pushes_Inr_ex: "(\<exists>bs. pushes xs = Inr bs) \<longleftrightarrow> (\<forall>x \<in> set xs. \<exists>a. x = Inr a)"
  by (induction xs) auto

lemma push_len_prefixed_ex: "(\<exists>bs. push_len_prefixed s = Inr bs) \<longleftrightarrow> length s \<le> u32_max"
  by (auto simp: push_len_prefixed_def)

text \<open>The field encoders never return an error; they can only panic.\<close>

definition no_reject :: "error + 'a \<Rightarrow> bool" where
  "no_reject r \<longleftrightarrow> (\<forall>e. r \<noteq> Inl (Reject e))"

lemma no_reject_pushes [simp]: "list_all no_reject xs \<Longrightarrow> no_reject (pushes xs)"
  by (induction xs) (auto simp: no_reject_def pushes.simps res_bind_def split: sum.splits)

lemma no_reject_push [simp]:
  "no_reject (Inr x)" "no_reject (push_len_prefixed bs)" "no_reject (push_count n)"
  by (auto simp: no_reject_def push_len_prefixed_def push_count_def)

section \<open>Optional fields, nested objects and canonical objects\<close>

text \<open>A one-byte presence flag, then the value when the flag is 1.\<close>

definition push_flagged :: "('a \<Rightarrow> error + bytes) \<Rightarrow> 'a option \<Rightarrow> error + bytes" where
  "push_flagged enc x = (case x of None \<Rightarrow> Inr [0] | Some v \<Rightarrow> pushes [Inr [1], enc v])"

definition take_flagged :: "string \<Rightarrow> 'a dec \<Rightarrow> 'a option dec" where
  "take_flagged msg dec = dec_bind take_u8 (\<lambda>f.
     if f = 0 then dec_return None
     else if f = 1 then dec_bind dec (\<lambda>v. dec_return (Some v))
     else dec_lift (Inl (Reject msg)))"

text \<open>A length-prefixed field that holds an object with a strict decoder of its own.\<close>

definition push_nested :: "('a \<Rightarrow> error + bytes) \<Rightarrow> 'a \<Rightarrow> error + bytes" where
  "push_nested enc v = res_bind (enc v) push_len_prefixed"

definition take_nested :: "(bytes \<Rightarrow> error + 'a) \<Rightarrow> 'a dec" where
  "take_nested decode = dec_bind take_len_prefixed (\<lambda>bs. dec_lift (decode bs))"

text \<open>\<open>if value.encode() != bytes { return Err(..) }\<close>: the last step of the canonical decoders.\<close>

definition canonical_check :: "('a \<Rightarrow> error + bytes) \<Rightarrow> string \<Rightarrow> bytes \<Rightarrow> 'a \<Rightarrow> error + 'a" where
  "canonical_check enc msg bs v =
     res_bind (enc v) (\<lambda>out. res_bind (require (out = bs) (Reject msg)) (\<lambda>_. Inr v))"

lemma canonical_check_iff [simp]:
  "canonical_check enc msg bs v = Inr w \<longleftrightarrow> w = v \<and> enc v = Inr bs"
  by (auto simp: canonical_check_def)

lemma take_flagged_iff:
  assumes "\<And>v c c'. dec c = Inr (v, c') \<longleftrightarrow> writes (enc v) c c'"
  shows "take_flagged msg dec c = Inr (x, c') \<longleftrightarrow> writes (push_flagged enc x) c c'"
proof (cases x)
  case None
  have "take_flagged msg dec c = Inr (None, c') \<longleftrightarrow> eats c [0] c'"
    unfolding take_flagged_def dec_bind_iff take_u8_iff
    by (auto split: if_splits intro: exI [of _ 0])
  then show ?thesis by (simp add: None push_flagged_def)
next
  case (Some v)
  have "take_flagged msg dec c = Inr (Some v, c') \<longleftrightarrow> (\<exists>c1. eats c [1] c1 \<and> writes (enc v) c1 c')"
    unfolding take_flagged_def dec_bind_iff take_u8_iff
    by (auto simp: assms split: if_splits)
  then show ?thesis by (simp add: Some push_flagged_def)
qed

lemma take_nested_iff:
  assumes "\<And>bs v. decode bs = Inr v \<longleftrightarrow> enc v = Inr bs"
  shows "take_nested decode c = Inr (v, c') \<longleftrightarrow> writes (push_nested enc v) c c'"
  using assms by (auto simp: take_nested_def push_nested_def writes_def)

text \<open>An encoder restricted to the values that satisfy an invariant.\<close>

definition guarded :: "('a \<Rightarrow> bool) \<Rightarrow> ('a \<Rightarrow> error + bytes) \<Rightarrow> 'a \<Rightarrow> error + bytes" where
  "guarded P enc v = (if P v then enc v else Inl (Panic ''invariant''))"

lemma guarded_eq_Inr [simp]: "guarded P enc v = Inr bs \<longleftrightarrow> P v \<and> enc v = Inr bs"
  by (auto simp: guarded_def)

lemma writes_guarded [simp]: "writes (guarded P enc v) c c' \<longleftrightarrow> P v \<and> writes (enc v) c c'"
  by (auto simp: writes_def)

lemma writes_nested_guarded [simp]:
  "writes (push_nested (guarded P enc) v) c c' \<longleftrightarrow> P v \<and> writes (push_nested enc v) c c'"
  by (auto simp: writes_def push_nested_def)

lemma writes_flagged_guarded:
  assumes "\<And>v c c'. writes (f v) c c' \<longleftrightarrow> P v \<and> writes (enc v) c c'"
  shows "writes (push_flagged f x) c c' \<longleftrightarrow> pred_option P x \<and> writes (push_flagged enc x) c c'"
  using assms by (cases x) (auto simp: push_flagged_def)

lemma writes_map_guarded:
  assumes "\<And>v c c'. writes (f v) c c' \<longleftrightarrow> P v \<and> writes (enc v) c c'"
  shows "writes (pushes (map f xs)) c c' \<longleftrightarrow> list_all P xs \<and> writes (pushes (map enc xs)) c c'"
  using assms by (induction xs arbitrary: c) auto

text \<open>
  A decoder that parses a value, normalises it with its constructor and re-encodes it to
  compare accepts exactly the encodings of the values the constructor leaves alone.
\<close>

lemma canonical_decoder_iff:
  assumes raw: "\<And>v. raw = Inr v \<longleftrightarrow> P v \<and> enc v = Inr bs"
    and keep: "\<And>v w. P v \<Longrightarrow> new v = Inr w \<Longrightarrow> P w"
  shows "res_bind raw (\<lambda>v. res_bind (new v) (canonical_check enc msg bs)) = Inr w \<longleftrightarrow>
    P w \<and> new w = Inr w \<and> enc w = Inr bs"
proof -
  have "v = w" if "P v" "enc v = Inr bs" "new v = Inr w" "enc w = Inr bs" for v
    using that keep raw [of v] raw [of w] by auto
  then show ?thesis
    using raw keep by auto
qed

section \<open>The contract of an encoder and its decoder\<close>

text \<open>
  The decoder succeeds exactly on the bytes the encoder writes, and consumes exactly
  them. Each wire format of the content model is an interpretation.
\<close>

locale codec =
  fixes enc :: "'a \<Rightarrow> error + bytes" and dec :: "'a dec"
  assumes dec_iff: "dec c = Inr (v, c') \<longleftrightarrow> writes (enc v) c c'"
begin

lemma round_trip:
  "enc v = Inr bs \<Longrightarrow> dec (cursor_new (bs @ r)) = Inr (v, \<lparr>buf = bs @ r, pos = length bs\<rparr>)"
  unfolding dec_iff by (auto simp: writes_def eats_def cursor_new_def rest_def)

lemma prefix_free:
  assumes "enc v = Inr a" and "enc w = Inr b" and "a @ r = b @ s"
  shows "v = w"
  using round_trip [OF assms(1), of r] round_trip [OF assms(2), of s] assms(3) by simp

lemma enc_inj: "enc v = Inr bs \<Longrightarrow> enc w = Inr bs \<Longrightarrow> v = w"
  using prefix_free by blast

lemma take_times_iff:
  "take_times n dec c = Inr (vs, c') \<longleftrightarrow> length vs = n \<and> writes (pushes (map enc vs)) c c'"
proof (induction n arbitrary: c vs)
  case 0
  then show ?case by auto
next
  case (Suc n)
  show ?case
    by (cases vs) (auto simp: Suc.IH dec_iff)
qed

text \<open>A counted list: the element count, then the elements.\<close>

lemma counted_iff:
  "dec_bind take_u32 (\<lambda>n. take_times (unat n) dec) c = Inr (vs, c') \<longleftrightarrow>
     writes (pushes [push_count (length vs), pushes (map enc vs)]) c c'"
proof -
  have "length vs = unat w \<longleftrightarrow> length vs \<le> u32_max \<and> w = of_nat (length vs)" for w :: u32
    using unat_u32_le [of w] by (auto simp: unat_of_nat_le)
  then show ?thesis
    by (auto simp: take_times_iff push_count_def writes_def eats_append)
qed

text \<open>A strict decoder of a whole object: magic, one value, end of buffer.\<close>

lemma strict_iff:
  "run_dec (dec_bind (expect_tag magic) (\<lambda>_. dec_bind dec (\<lambda>v. dec_bind expect_end (\<lambda>_. dec_return v)))) bs
     = Inr v \<longleftrightarrow> pushes [Inr magic, enc v] = Inr bs"
proof -
  have "(\<exists>c1. eats (cursor_new bs) magic c1 \<and> (\<exists>e c'. enc v = Inr e \<and> eats c1 e c' \<and> rest c' = []))
     \<longleftrightarrow> (\<exists>e. enc v = Inr e \<and> (\<exists>c'. eats (cursor_new bs) (magic @ e) c' \<and> rest c' = []))"
    by (auto simp: eats_append)
  also have "\<dots> \<longleftrightarrow> (\<exists>e. enc v = Inr e \<and> bs = magic @ e)"
    by (auto simp: eats_all)
  finally show ?thesis
    by (auto simp: run_dec_iff dec_iff writes_def)
qed

text \<open>The same without a magic tag.\<close>

lemma whole_iff:
  "run_dec (dec_bind dec (\<lambda>v. dec_bind expect_end (\<lambda>_. dec_return v))) bs = Inr v \<longleftrightarrow> enc v = Inr bs"
proof -
  have "(\<exists>e c'. enc v = Inr e \<and> eats (cursor_new bs) e c' \<and> rest c' = []) \<longleftrightarrow> enc v = Inr bs"
    by (auto simp: eats_all)
  then show ?thesis
    by (auto simp: run_dec_iff dec_iff writes_def)
qed

lemma flagged_iff:
  "take_flagged msg dec c = Inr (x, c') \<longleftrightarrow> writes (push_flagged enc x) c c'"
  using dec_iff by (rule take_flagged_iff)

end

end
