(* ===== verification/EntryTypes.thy ===== *)
theory EntryTypes
  imports Cursor
begin

text \<open>
  Node kinds of the filesystem, from \<open>tinyfs/src/entry_type.rs\<close>: the enum with its
  \<open>u8\<close> discriminants, its classification predicates, and its textual form.
\<close>

datatype entry_type =
    DirectoryPhysical
  | DirectoryDynamic
  | Symlink
  | FilePhysicalVersion
  | FileDynamic
  | TablePhysicalVersion
  | FilePhysicalSeries
  | TablePhysicalSeries
  | TableDynamic

text \<open>\<open>entry_type as u8\<close>.\<close>

fun entry_type_u8 :: "entry_type \<Rightarrow> byte" where
  "entry_type_u8 DirectoryPhysical = 1"
| "entry_type_u8 DirectoryDynamic = 2"
| "entry_type_u8 Symlink = 3"
| "entry_type_u8 FilePhysicalVersion = 4"
| "entry_type_u8 FileDynamic = 5"
| "entry_type_u8 TablePhysicalVersion = 6"
| "entry_type_u8 FilePhysicalSeries = 7"
| "entry_type_u8 TablePhysicalSeries = 8"
| "entry_type_u8 TableDynamic = 9"

fun is_file :: "entry_type \<Rightarrow> bool" where
  "is_file FilePhysicalVersion = True"
| "is_file FilePhysicalSeries = True"
| "is_file FileDynamic = True"
| "is_file TablePhysicalVersion = True"
| "is_file TablePhysicalSeries = True"
| "is_file TableDynamic = True"
| "is_file _ = False"

fun is_directory :: "entry_type \<Rightarrow> bool" where
  "is_directory DirectoryPhysical = True"
| "is_directory DirectoryDynamic = True"
| "is_directory _ = False"

fun is_dynamic :: "entry_type \<Rightarrow> bool" where
  "is_dynamic DirectoryDynamic = True"
| "is_dynamic FileDynamic = True"
| "is_dynamic TableDynamic = True"
| "is_dynamic _ = False"

definition is_physical :: "entry_type \<Rightarrow> bool" where
  "is_physical t \<longleftrightarrow> \<not> is_dynamic t \<and> t \<noteq> Symlink"

fun is_data_file :: "entry_type \<Rightarrow> bool" where
  "is_data_file FilePhysicalVersion = True"
| "is_data_file FilePhysicalSeries = True"
| "is_data_file FileDynamic = True"
| "is_data_file _ = False"

fun is_table_file :: "entry_type \<Rightarrow> bool" where
  "is_table_file TablePhysicalVersion = True"
| "is_table_file _ = False"

fun is_series_file :: "entry_type \<Rightarrow> bool" where
  "is_series_file TablePhysicalSeries = True"
| "is_series_file TableDynamic = True"
| "is_series_file _ = False"

fun is_parquet_file :: "entry_type \<Rightarrow> bool" where
  "is_parquet_file TablePhysicalVersion = True"
| "is_parquet_file TablePhysicalSeries = True"
| "is_parquet_file TableDynamic = True"
| "is_parquet_file _ = False"

fun base_format :: "entry_type \<Rightarrow> string" where
  "base_format DirectoryPhysical = ''directory''"
| "base_format DirectoryDynamic = ''directory''"
| "base_format Symlink = ''symlink''"
| "base_format FilePhysicalVersion = ''file:data''"
| "base_format FilePhysicalSeries = ''file:data''"
| "base_format FileDynamic = ''file:data''"
| "base_format TablePhysicalVersion = ''file:table''"
| "base_format TablePhysicalSeries = ''file:series''"
| "base_format TableDynamic = ''file:series''"

fun entry_type_as_str :: "entry_type \<Rightarrow> string" where
  "entry_type_as_str DirectoryPhysical = ''dir:physical''"
| "entry_type_as_str DirectoryDynamic = ''dir:dynamic''"
| "entry_type_as_str Symlink = ''symlink''"
| "entry_type_as_str FilePhysicalVersion = ''file:physical:version''"
| "entry_type_as_str FilePhysicalSeries = ''file:physical:series''"
| "entry_type_as_str FileDynamic = ''file:dynamic''"
| "entry_type_as_str TablePhysicalVersion = ''table:physical:version''"
| "entry_type_as_str TablePhysicalSeries = ''table:physical:series''"
| "entry_type_as_str TableDynamic = ''table:dynamic''"

definition entry_type_try_from :: "byte \<Rightarrow> error + entry_type" where
  "entry_type_try_from v =
     (if v = 1 then Inr DirectoryPhysical
      else if v = 2 then Inr DirectoryDynamic
      else if v = 3 then Inr Symlink
      else if v = 4 then Inr FilePhysicalVersion
      else if v = 5 then Inr FileDynamic
      else if v = 6 then Inr TablePhysicalVersion
      else if v = 7 then Inr FilePhysicalSeries
      else if v = 8 then Inr TablePhysicalSeries
      else if v = 9 then Inr TableDynamic
      else Inl (Reject ''Unknown EntryType''))"

definition entry_type_from_str :: "string \<Rightarrow> error + entry_type" where
  "entry_type_from_str s =
     (if s = ''dir:physical'' then Inr DirectoryPhysical
      else if s = ''dir:dynamic'' then Inr DirectoryDynamic
      else if s = ''symlink'' then Inr Symlink
      else if s = ''file:physical:version'' then Inr FilePhysicalVersion
      else if s = ''file:physical:series'' then Inr FilePhysicalSeries
      else if s = ''file:dynamic'' then Inr FileDynamic
      else if s = ''table:physical:version'' then Inr TablePhysicalVersion
      else if s = ''table:physical:series'' then Inr TablePhysicalSeries
      else if s = ''table:dynamic'' then Inr TableDynamic
      else Inl (Reject ''Unknown entry type''))"

lemma entry_type_try_from_iff [simp]:
  "entry_type_try_from v = Inr t \<longleftrightarrow> v = entry_type_u8 t"
  by (cases t) (auto simp: entry_type_try_from_def)

lemma entry_type_u8_inject [simp]: "entry_type_u8 s = entry_type_u8 t \<longleftrightarrow> s = t"
  by (cases s; cases t; simp)

lemma entry_type_from_str_iff:
  "entry_type_from_str s = Inr t \<longleftrightarrow> s = entry_type_as_str t"
  by (cases t) (auto simp: entry_type_from_str_def)

text \<open>Every node is exactly one of: a file, a directory, a symlink.\<close>

lemma entry_type_partition:
  "is_file t \<longleftrightarrow> \<not> is_directory t \<and> t \<noteq> Symlink"
  "is_directory t \<Longrightarrow> \<not> is_file t"
  by (cases t; simp)+

lemma file_partition: "is_file t \<longleftrightarrow> is_data_file t \<or> is_parquet_file t"
  "is_parquet_file t \<longleftrightarrow> is_table_file t \<or> is_series_file t"
  "\<not> (is_data_file t \<and> is_parquet_file t)"
  by (cases t; simp)+

end
