(* ===== verification/ContentTree.thy ===== *)
theory ContentTree
  imports EntryTypes
begin

text \<open>
  Tree and recipe objects, from \<open>sync-store/src/content/tree.rs\<close>: the per-version
  metadata a directory records for its children, the sorted canonical encoding of a
  directory, its decoder, and the recipe object of a dynamic node. \<open>blake3\<close> is a
  parameter: the hash function of a third-party crate.
\<close>

definition TREE_MAGIC :: bytes where "TREE_MAGIC = ascii ''watertown.tree.v1'' @ [10]"
definition RECIPE_MAGIC :: bytes where "RECIPE_MAGIC = ascii ''watertown.recipe.v1'' @ [10]"

definition META_HAS_MIN :: byte where "META_HAS_MIN = 1"
definition META_HAS_MAX :: byte where "META_HAS_MAX = 2"
definition META_HAS_ATTRS :: byte where "META_HAS_ATTRS = 4"
definition META_HAS_MTIME :: byte where "META_HAS_MTIME = 8"
definition META_KNOWN_FLAGS :: byte where
  "META_KNOWN_FLAGS = META_HAS_MIN OR META_HAS_MAX OR META_HAS_ATTRS OR META_HAS_MTIME"

record version_meta =
  timestamp :: "i64 option"
  min_event_time :: "i64 option"
  max_event_time :: "i64 option"
  extended_attributes :: "rstring option"

definition version_bounds :: "version_meta \<Rightarrow> (i64 \<times> i64) option" where
  "version_bounds m =
     (case (min_event_time m, max_event_time m) of
        (Some a, Some b) \<Rightarrow> Some (a, b) | _ \<Rightarrow> None)"

definition version_is_empty :: "version_meta \<Rightarrow> bool" where
  "version_is_empty m \<longleftrightarrow> timestamp m = None \<and> min_event_time m = None
     \<and> max_event_time m = None \<and> extended_attributes m = None"

record tree_entry =
  te_name :: rstring
  te_entry_type :: entry_type
  te_child_hash :: hash32
  te_versions :: "version_meta list"

definition tree_entry_bare :: "rstring \<Rightarrow> entry_type \<Rightarrow> hash32 \<Rightarrow> tree_entry" where
  "tree_entry_bare n t h = \<lparr>te_name = n, te_entry_type = t, te_child_hash = h, te_versions = []\<rparr>"

section \<open>Version metadata\<close>

definition flag_if :: "'a option \<Rightarrow> byte \<Rightarrow> byte" where
  "flag_if x f = (case x of None \<Rightarrow> 0 | Some _ \<Rightarrow> f)"

definition push_opt_i64 :: "i64 option \<Rightarrow> error + bytes" where
  "push_opt_i64 x = (case x of None \<Rightarrow> Inr [] | Some v \<Rightarrow> Inr (le64 v))"

definition push_version_meta :: "version_meta \<Rightarrow> error + bytes" where
  "push_version_meta m =
     (let flags = 0 OR flag_if (min_event_time m) META_HAS_MIN
                    OR flag_if (max_event_time m) META_HAS_MAX
                    OR flag_if (extended_attributes m) META_HAS_ATTRS
                    OR flag_if (timestamp m) META_HAS_MTIME
      in pushes
        [Inr [flags],
         push_opt_i64 (min_event_time m),
         push_opt_i64 (max_event_time m),
         (case extended_attributes m of None \<Rightarrow> Inr [] | Some a \<Rightarrow> push_len_prefixed (str_bytes a)),
         push_opt_i64 (timestamp m)])"

definition push_version_metas :: "version_meta list \<Rightarrow> error + bytes" where
  "push_version_metas vs = pushes [push_count (length vs), pushes (map push_version_meta vs)]"

text \<open>\<open>if flags & BIT != 0 { Some(read()?) } else { None }\<close>.\<close>

definition take_if :: "bool \<Rightarrow> 'a dec \<Rightarrow> 'a option dec" where
  "take_if b p = (if b then dec_bind p (\<lambda>x. dec_return (Some x)) else dec_return None)"

definition take_version_meta :: "version_meta dec" where
  "take_version_meta =
     dec_bind take_u8 (\<lambda>flags.
     dec_bind (dec_lift (require (flags AND NOT META_KNOWN_FLAGS = 0)
       (Reject ''unknown version metadata flags''))) (\<lambda>_.
     dec_bind (take_if (flags AND META_HAS_MIN \<noteq> 0) take_i64) (\<lambda>mn.
     dec_bind (take_if (flags AND META_HAS_MAX \<noteq> 0) take_i64) (\<lambda>mx.
     dec_bind (take_if (flags AND META_HAS_ATTRS \<noteq> 0) take_len_prefixed_string) (\<lambda>at.
     dec_bind (take_if (flags AND META_HAS_MTIME \<noteq> 0) take_i64) (\<lambda>ts.
       dec_return \<lparr>timestamp = ts, min_event_time = mn, max_event_time = mx,
                   extended_attributes = at\<rparr>))))))"

definition take_version_metas :: "version_meta list dec" where
  "take_version_metas = dec_bind take_u32 (\<lambda>n. take_times (unat n) take_version_meta)"

section \<open>Trees\<close>

definition push_tree_entry :: "tree_entry \<Rightarrow> error + bytes" where
  "push_tree_entry e = pushes
     [push_len_prefixed (str_bytes (te_name e)),
      Inr [entry_type_u8 (te_entry_type e)],
      Inr (as_bytes (te_child_hash e)),
      push_version_metas (te_versions e)]"

definition encode_tree :: "tree_entry list \<Rightarrow> error + bytes" where
  "encode_tree entries =
     (let sorted = sort_key (\<lambda>e. str_bytes (te_name e)) entries
      in if \<not> windows2 (\<lambda>a b. te_name a \<noteq> te_name b) sorted
         then Inl (Reject ''duplicate entry name in tree'')
         else pushes
           [Inr TREE_MAGIC, push_count (length sorted), pushes (map push_tree_entry sorted)])"

definition tree_hash :: "(bytes \<Rightarrow> hash32) \<Rightarrow> tree_entry list \<Rightarrow> error + hash32" where
  "tree_hash blake3 entries = res_bind (encode_tree entries) (\<lambda>bs. Inr (blake3 bs))"

definition take_tree_entry :: "tree_entry dec" where
  "take_tree_entry =
     dec_bind take_len_prefixed_string (\<lambda>n.
     dec_bind (dec_bind take_u8 (\<lambda>b. dec_lift (entry_type_try_from b))) (\<lambda>t.
     dec_bind take_hash (\<lambda>h.
     dec_bind take_version_metas (\<lambda>vs.
       dec_return \<lparr>te_name = n, te_entry_type = t, te_child_hash = h, te_versions = vs\<rparr>))))"

definition decode_tree :: "bytes \<Rightarrow> error + tree_entry list" where
  "decode_tree bs = run_dec
     (dec_bind (expect_tag TREE_MAGIC) (\<lambda>_.
      dec_bind (dec_bind take_u32 (\<lambda>n. take_times (unat n) take_tree_entry)) (\<lambda>entries.
      dec_bind expect_end (\<lambda>_. dec_return entries)))) bs"

section \<open>Recipes\<close>

definition encode_recipe :: "rstring \<Rightarrow> bytes \<Rightarrow> error + bytes" where
  "encode_recipe factory_type config =
     pushes [Inr RECIPE_MAGIC, push_len_prefixed (str_bytes factory_type), Inr config]"

definition recipe_hash :: "(bytes \<Rightarrow> hash32) \<Rightarrow> rstring \<Rightarrow> bytes \<Rightarrow> error + hash32" where
  "recipe_hash blake3 factory_type config =
     res_bind (encode_recipe factory_type config) (\<lambda>bs. Inr (blake3 bs))"

definition decode_recipe :: "bytes \<Rightarrow> error + rstring \<times> bytes" where
  "decode_recipe bs = run_dec
     (dec_bind (expect_tag RECIPE_MAGIC) (\<lambda>_.
      dec_bind take_len_prefixed_string (\<lambda>f.
      dec_bind take_rest (\<lambda>config. dec_return (f, config))))) bs"

section \<open>The codecs meet their contract\<close>

text \<open>The presence byte determines which fields are present, and no other bit is set.\<close>

definition agree :: "bool \<Rightarrow> 'a option \<Rightarrow> bool" where
  "agree b x \<longleftrightarrow> b = (x \<noteq> None)"

definition push_opt :: "('a \<Rightarrow> error + bytes) \<Rightarrow> 'a option \<Rightarrow> error + bytes" where
  "push_opt f x = (case x of None \<Rightarrow> Inr [] | Some v \<Rightarrow> f v)"

lemma take_if_iff:
  assumes "\<And>v c c'. p c = Inr (v, c') \<longleftrightarrow> writes (f v) c c'"
  shows "take_if b p c = Inr (x, c') \<longleftrightarrow> agree b x \<and> writes (push_opt f x) c c'"
  using assms by (cases x) (auto simp: take_if_def agree_def push_opt_def)

lemma take_if_i64:
  "take_if b take_i64 c = Inr (x, c') \<longleftrightarrow> agree b x \<and> writes (push_opt_i64 x) c c'"
proof -
  have "push_opt_i64 x = push_opt (\<lambda>v. Inr (le64 v)) x"
    by (cases x) (auto simp: push_opt_i64_def push_opt_def)
  then show ?thesis
    by (simp add: take_if_iff [where f = "\<lambda>v. Inr (le64 v)"])
qed

lemma take_if_string:
  "take_if b take_len_prefixed_string c = Inr (x, c') \<longleftrightarrow> agree b x \<and>
     writes (case x of None \<Rightarrow> Inr [] | Some a \<Rightarrow> push_len_prefixed (str_bytes a)) c c'"
  unfolding push_opt_def [symmetric] by (rule take_if_iff) simp

definition meta_flags :: "bool \<Rightarrow> bool \<Rightarrow> bool \<Rightarrow> bool \<Rightarrow> byte" where
  "meta_flags a b c d = 0 OR (if a then 1 else 0) OR (if b then 2 else 0) OR (if c then 4 else 0)
     OR (if d then 8 else 0)"

lemma and_flag_bit:
  fixes f :: byte
  shows "f AND 1 = 0 \<longleftrightarrow> \<not> bit f 0" "f AND 2 = 0 \<longleftrightarrow> \<not> bit f 1"
    "f AND 4 = 0 \<longleftrightarrow> \<not> bit f 2" "f AND 8 = 0 \<longleftrightarrow> \<not> bit f 3"
  using and_exp_eq_0_iff_not_bit [of f 0] and_exp_eq_0_iff_not_bit [of f 1]
    and_exp_eq_0_iff_not_bit [of f 2] and_exp_eq_0_iff_not_bit [of f 3]
  by simp_all

lemma and_not_known:
  fixes f :: byte
  shows "f AND NOT 15 = 0 \<longleftrightarrow> take_bit 4 f = f"
proof -
  have "(15 :: byte) = mask 4" by (simp add: mask_eq_exp_minus_1)
  moreover have "f AND NOT (mask 4) = 0 \<longleftrightarrow> take_bit 4 f = f"
    by (auto simp: bit_eq_iff bit_simps)
  ultimately show ?thesis by (simp only:)
qed

lemma meta_flags_iff:
  fixes f :: byte
  shows "f = meta_flags a b c d \<longleftrightarrow>
    f AND NOT 15 = 0 \<and> (f AND 1 \<noteq> 0) = a \<and> (f AND 2 \<noteq> 0) = b \<and> (f AND 4 \<noteq> 0) = c \<and> (f AND 8 \<noteq> 0) = d"
proof
  assume "f = meta_flags a b c d"
  then show "f AND NOT 15 = 0 \<and> (f AND 1 \<noteq> 0) = a \<and> (f AND 2 \<noteq> 0) = b \<and> (f AND 4 \<noteq> 0) = c \<and> (f AND 8 \<noteq> 0) = d"
    by (cases a; cases b; cases c; cases d; simp add: meta_flags_def)
next
  assume h: "f AND NOT 15 = 0 \<and> (f AND 1 \<noteq> 0) = a \<and> (f AND 2 \<noteq> 0) = b \<and> (f AND 4 \<noteq> 0) = c \<and> (f AND 8 \<noteq> 0) = d"
  let ?g = "meta_flags a b c d"
  have g: "take_bit 4 ?g = ?g" "bit ?g 0 = a" "bit ?g 1 = b" "bit ?g 2 = c" "bit ?g 3 = d"
    by (cases a; cases b; cases c; cases d; simp add: meta_flags_def bit_simps)+
  have f: "take_bit 4 f = f" "bit f 0 = a" "bit f 1 = b" "bit f 2 = c" "bit f 3 = d"
    using h [unfolded and_not_known and_flag_bit] by simp_all
  have "take_bit 4 f = take_bit 4 ?g"
  proof (rule bit_eqI)
    fix n :: nat
    consider "n = 0" | "n = 1" | "n = 2" | "n = 3" | "4 \<le> n" by linarith
    then show "bit (take_bit 4 f) n = bit (take_bit 4 ?g) n"
      by cases (simp_all only: bit_take_bit_iff f(2-5) g(2-5), simp)
  qed
  then show "f = ?g" using f g by simp
qed

lemma version_flags:
  "(0 OR flag_if mn META_HAS_MIN OR flag_if mx META_HAS_MAX OR flag_if at META_HAS_ATTRS
     OR flag_if ts META_HAS_MTIME) = meta_flags (mn \<noteq> None) (mx \<noteq> None) (at \<noteq> None) (ts \<noteq> None)"
  by (cases mn; cases mx; cases at; cases ts;
      simp add: flag_if_def meta_flags_def META_HAS_MIN_def META_HAS_MAX_def META_HAS_ATTRS_def META_HAS_MTIME_def)

lemma known_flags: "META_KNOWN_FLAGS = 15"
  by (simp add: META_KNOWN_FLAGS_def META_HAS_MIN_def META_HAS_MAX_def META_HAS_ATTRS_def META_HAS_MTIME_def)

lemma version_flags_iff:
  "u = (0 OR flag_if mn META_HAS_MIN OR flag_if mx META_HAS_MAX OR flag_if at META_HAS_ATTRS
     OR flag_if ts META_HAS_MTIME) \<longleftrightarrow> u AND NOT META_KNOWN_FLAGS = 0 \<and> agree (u AND META_HAS_MIN \<noteq> 0) mn
      \<and> agree (u AND META_HAS_MAX \<noteq> 0) mx \<and> agree (u AND META_HAS_ATTRS \<noteq> 0) at \<and> agree (u AND META_HAS_MTIME \<noteq> 0) ts"
  unfolding version_flags meta_flags_iff agree_def known_flags
  by (simp only: META_HAS_MIN_def META_HAS_MAX_def META_HAS_ATTRS_def META_HAS_MTIME_def)

lemma take_version_meta_iff:
  "take_version_meta c = Inr (m, c') \<longleftrightarrow> writes (push_version_meta m) c c'"
proof -
  obtain ts mn mx at where m: "m = \<lparr>timestamp = ts, min_event_time = mn, max_event_time = mx,
    extended_attributes = at\<rparr>" by (cases m)
  have one: "eats c [v] c1 \<longleftrightarrow> (\<exists>u. u = v \<and> eats c [u] c1)" for v c1 by simp
  show ?thesis
    unfolding take_version_meta_def push_version_meta_def m Let_def version_meta.select_convs
      dec_bind_iff dec_lift_iff require_eq_Inr dec_return_iff take_if_i64 take_if_string take_u8_iff
      version_meta.ext_inject writes_simps
    apply (subst (2) one) 
    unfolding version_flags_iff
    by (rule iffI, (clarify, intro exI conjI, (assumption | rule refl)+)+)
qed

interpretation version_meta: codec push_version_meta take_version_meta
  by unfold_locales (rule take_version_meta_iff)

lemma take_version_metas_iff:
  "take_version_metas c = Inr (vs, c') \<longleftrightarrow> writes (push_version_metas vs) c c'"
  unfolding take_version_metas_def push_version_metas_def by (rule version_meta.counted_iff)

interpretation version_metas: codec push_version_metas take_version_metas
  by unfold_locales (rule take_version_metas_iff)

lemma take_entry_type_iff [simp]:
  "dec_bind take_u8 (\<lambda>b. dec_lift (entry_type_try_from b)) c = Inr (t, c') \<longleftrightarrow>
     eats c [entry_type_u8 t] c'"
  by auto

interpretation tree_entry: codec push_tree_entry take_tree_entry
proof
  fix c c' e
  obtain n t h vs where e: "e = \<lparr>te_name = n, te_entry_type = t, te_child_hash = h, te_versions = vs\<rparr>"
    by (cases e)
  show "take_tree_entry c = Inr (e, c') \<longleftrightarrow> writes (push_tree_entry e) c c'"
    unfolding take_tree_entry_def push_tree_entry_def e tree_entry.select_convs
      dec_bind_iff [of take_len_prefixed_string] dec_bind_iff [of take_hash]
      dec_bind_iff [of take_version_metas] dec_return_iff take_hash_iff take_version_metas_iff
      dec_bind_iff [of "dec_bind take_u8 f" for f] take_entry_type_iff
      take_len_prefixed_string_iff tree_entry.ext_inject writes_simps
    by (rule iffI, (clarify, intro exI conjI, (assumption | rule refl)+)+)
qed

text \<open>What \<open>decode_tree\<close> accepts: the entries' encodings in the order given, sorted or not.\<close>

interpretation tree_body: codec "\<lambda>es. pushes [push_count (length es), pushes (map push_tree_entry es)]"
    "dec_bind take_u32 (\<lambda>n. take_times (unat n) take_tree_entry)"
  by unfold_locales (rule tree_entry.counted_iff)

lemma decode_tree_iff:
  "decode_tree bs = Inr es \<longleftrightarrow>
     pushes [Inr TREE_MAGIC, pushes [push_count (length es), pushes (map push_tree_entry es)]] = Inr bs"
  unfolding decode_tree_def by (rule tree_body.strict_iff)

section \<open>Properties of trees\<close>

text \<open>The field sizes the \<open>u32\<close> length prefixes can carry; outside them the encoders panic.\<close>

definition meta_fits :: "version_meta \<Rightarrow> bool" where
  "meta_fits m \<longleftrightarrow> (case extended_attributes m of None \<Rightarrow> True | Some a \<Rightarrow> length (str_bytes a) \<le> u32_max)"

definition metas_fit :: "version_meta list \<Rightarrow> bool" where
  "metas_fit vs \<longleftrightarrow> length vs \<le> u32_max \<and> list_all meta_fits vs"

definition entry_fits :: "tree_entry \<Rightarrow> bool" where
  "entry_fits e \<longleftrightarrow> length (str_bytes (te_name e)) \<le> u32_max \<and> metas_fit (te_versions e)"

lemma push_version_meta_ex: "(\<exists>bs. push_version_meta m = Inr bs) \<longleftrightarrow> meta_fits m"
  unfolding push_version_meta_def Let_def pushes_Inr_ex
  by (auto simp: push_opt_i64_def meta_fits_def push_len_prefixed_ex split: option.splits)

lemma push_version_metas_ex: "(\<exists>bs. push_version_metas vs = Inr bs) \<longleftrightarrow> metas_fit vs"
  unfolding push_version_metas_def pushes_Inr_ex
  by (auto simp: pushes_Inr_ex metas_fit_def list_all_iff push_version_meta_ex)

lemma push_tree_entry_ex: "(\<exists>bs. push_tree_entry e = Inr bs) \<longleftrightarrow> entry_fits e"
  unfolding push_tree_entry_def pushes_Inr_ex
  by (auto simp: entry_fits_def push_len_prefixed_ex push_version_metas_ex)

lemma windows2_names:
  "windows2 (\<lambda>a b. te_name a \<noteq> te_name b) (sort_key (\<lambda>e. str_bytes (te_name e)) es) \<longleftrightarrow>
     distinct (map te_name es)"
proof -
  let ?s = "sort_key (\<lambda>e. str_bytes (te_name e)) es"
  have "windows2 (\<lambda>a b. str_bytes (te_name a) \<noteq> str_bytes (te_name b)) ?s \<longleftrightarrow>
      distinct (map (\<lambda>e. str_bytes (te_name e)) ?s)"
    by (rule windows2_distinct_sorted) simp
  also have "\<dots> \<longleftrightarrow> distinct (map (\<lambda>e. str_bytes (te_name e)) es)"
    by (rule mset_eq_imp_distinct_iff) simp
  also have "\<dots> \<longleftrightarrow> distinct (map te_name es)"
    by (auto simp: distinct_map inj_on_def)
  finally show ?thesis by simp
qed

lemma encode_tree_cases:
  "encode_tree es =
     (if distinct (map te_name es)
      then pushes [Inr TREE_MAGIC, push_count (length es),
             pushes (map push_tree_entry (sort_key (\<lambda>e. str_bytes (te_name e)) es))]
      else Inl (Reject ''duplicate entry name in tree''))"
  by (simp add: encode_tree_def windows2_names Let_def)

lemma encode_tree_decode:
  "encode_tree es = Inr bs \<Longrightarrow> decode_tree bs = Inr (sort_key (\<lambda>e. str_bytes (te_name e)) es)"
  unfolding decode_tree_iff by (auto simp: encode_tree_cases split: if_splits)

text \<open>C39: A directory whose names are distinct and whose fields fit their length prefixes is
  encoded, and decoding the tree object gives its entries back, sorted by name bytes.\<close>

theorem tree_round_trip:
  assumes "distinct (map te_name es)" and "length es \<le> u32_max" and "\<forall>e \<in> set es. entry_fits e"
  shows "\<exists>bs. encode_tree es = Inr bs \<and> decode_tree bs = Inr (sort_key (\<lambda>e. str_bytes (te_name e)) es)"
proof -
  have "\<exists>bs. encode_tree es = Inr bs"
    using assms by (simp add: encode_tree_cases pushes_Inr_ex push_tree_entry_ex del: pushes_Cons_iff)
  then show ?thesis
    using encode_tree_decode by blast
qed

text \<open>The hash of a directory does not depend on the order in which its entries are
  listed; this includes the rejection of a directory with a repeated name.\<close>

theorem tree_hash_order_independent:
  assumes "mset xs = mset ys"
  shows "tree_hash blake3 xs = tree_hash blake3 ys"
proof -
  have len: "length xs = length ys"
    using assms by (metis size_mset)
  have "mset (map te_name xs) = mset (map te_name ys)"
    using assms by simp
  then have d: "distinct (map te_name xs) \<longleftrightarrow> distinct (map te_name ys)"
    by (rule mset_eq_imp_distinct_iff)
  have "encode_tree xs = encode_tree ys"
  proof (cases "distinct (map te_name xs)")
    case True
    then have "distinct (map (\<lambda>e. str_bytes (te_name e)) xs)"
      by (auto simp: distinct_map inj_on_def)
    then have "sort_key (\<lambda>e. str_bytes (te_name e)) xs = sort_key (\<lambda>e. str_bytes (te_name e)) ys"
      using assms by (rule sort_key_perm_eq [rotated])
    with d len show ?thesis
      by (simp add: encode_tree_cases)
  next
    case False
    with d show ?thesis
      by (simp add: encode_tree_cases)
  qed
  then show ?thesis
    by (simp add: tree_hash_def)
qed

text \<open>Two directories with the same tree object hold the same entries, metadata included.\<close>

theorem encode_tree_injective:
  assumes "encode_tree xs = Inr bs" and "encode_tree ys = Inr bs"
  shows "mset xs = mset ys"
proof -
  have "sort_key (\<lambda>e. str_bytes (te_name e)) xs = sort_key (\<lambda>e. str_bytes (te_name e)) ys"
    using encode_tree_decode [OF assms(1)] encode_tree_decode [OF assms(2)] by simp
  then show ?thesis by (metis mset_sort)
qed


theorem tree_round_trip_witness:
  "\<exists>bs. encode_tree [tree_entry_bare (mk_str [98]) Symlink (from_bytes (replicate 32 1)),
        tree_entry_bare (mk_str [97]) DirectoryPhysical (from_bytes (replicate 32 2))] = Inr bs
     \<and> decode_tree bs = Inr [tree_entry_bare (mk_str [97]) DirectoryPhysical (from_bytes (replicate 32 2)),
        tree_entry_bare (mk_str [98]) Symlink (from_bytes (replicate 32 1))]"
  using tree_round_trip [of "[tree_entry_bare (mk_str [98]) Symlink (from_bytes (replicate 32 1)),
        tree_entry_bare (mk_str [97]) DirectoryPhysical (from_bytes (replicate 32 2))]"]
  by (simp add: tree_entry_bare_def entry_fits_def metas_fit_def)

theorem tree_hash_order_independent_witness:
  "tree_hash (\<lambda>bs. from_bytes (replicate 32 (of_nat (length bs))))
      [tree_entry_bare (mk_str [98]) Symlink (from_bytes (replicate 32 1)),
       tree_entry_bare (mk_str [97]) DirectoryPhysical (from_bytes (replicate 32 2))]
   = tree_hash (\<lambda>bs. from_bytes (replicate 32 (of_nat (length bs))))
      [tree_entry_bare (mk_str [97]) DirectoryPhysical (from_bytes (replicate 32 2)),
       tree_entry_bare (mk_str [98]) Symlink (from_bytes (replicate 32 1))]"
  by (rule tree_hash_order_independent) simp

theorem encode_tree_injective_witness:
  "\<exists>bs. encode_tree [tree_entry_bare (mk_str [97]) Symlink (from_bytes (replicate 32 1))] = Inr bs
     \<and> mset [tree_entry_bare (mk_str [97]) Symlink (from_bytes (replicate 32 1))]
       = mset [tree_entry_bare (mk_str [97]) Symlink (from_bytes (replicate 32 1))]"
proof -
  let ?es = "[tree_entry_bare (mk_str [97]) Symlink (from_bytes (replicate 32 1))]"
  have "\<exists>bs. encode_tree ?es = Inr bs"
    by (simp add: encode_tree_cases pushes_Inr_ex push_tree_entry_ex tree_entry_bare_def entry_fits_def
        metas_fit_def del: pushes_Cons_iff)
  then obtain bs where e: "encode_tree ?es = Inr bs" by blast
  show ?thesis using e encode_tree_injective [OF e e] by blast
qed

lemma no_reject_opt_i64 [simp]: "no_reject (push_opt_i64 y)"
  by (simp add: push_opt_i64_def split: option.split)

lemma no_reject_version_meta [simp]: "no_reject (push_version_meta m)"
  by (simp add: push_version_meta_def Let_def split: option.split)

lemma no_reject_version_metas [simp]: "no_reject (push_version_metas vs)"
  by (simp add: push_version_metas_def list_all_iff)

lemma no_reject_tree_entry [simp]: "no_reject (push_tree_entry t)"
  by (simp add: push_tree_entry_def)

text \<open>Encoding a directory fails with the duplicate-name error exactly when two entries
  share a name.\<close>

theorem encode_tree_rejects_duplicates:
  "encode_tree es = Inl (Reject ''duplicate entry name in tree'') \<longleftrightarrow> \<not> distinct (map te_name es)"
proof -
  have "no_reject (pushes [Inr TREE_MAGIC, push_count (length es),
      pushes (map push_tree_entry (sort_key (\<lambda>e. str_bytes (te_name e)) es))])"
    by (simp add: list_all_iff)
  then show ?thesis
    by (simp add: encode_tree_cases no_reject_def)
qed

text \<open>C40: The tree decoder does not check the order or the distinctness of names: it accepts
  bytes that name the same child twice, which no call of \<open>encode_tree\<close> produces.\<close>

theorem decode_tree_accepts_duplicates:
  "\<exists>bs es. decode_tree bs = Inr es \<and> \<not> distinct (map te_name es) \<and> (\<forall>es'. encode_tree es' \<noteq> Inr bs)"
proof -
  let ?e = "tree_entry_bare (mk_str [97]) Symlink (from_bytes (replicate 32 1))"
  have "\<exists>bs. pushes [Inr TREE_MAGIC, pushes [push_count (length [?e, ?e]), pushes (map push_tree_entry [?e, ?e])]] = Inr bs"
    by (simp add: pushes_Inr_ex push_tree_entry_ex tree_entry_bare_def entry_fits_def
        metas_fit_def del: pushes_Cons_iff)
  then obtain bs where "decode_tree bs = Inr [?e, ?e]"
    unfolding decode_tree_iff by blast
  moreover have "encode_tree es' \<noteq> Inr bs" for es'
  proof
    assume e: "encode_tree es' = Inr bs"
    then have "distinct (map te_name es')"
      by (simp add: encode_tree_cases split: if_splits)
    moreover have "sort_key (\<lambda>e. str_bytes (te_name e)) es' = [?e, ?e]"
      using encode_tree_decode [OF e] calculation(1) \<open>decode_tree bs = Inr [?e, ?e]\<close> by simp
    then have "mset es' = {#?e, ?e#}"
      by (metis mset_sort mset.simps add_mset_add_single)
    then have "\<not> distinct (map te_name es')"
      by (metis distinct_map mset_eq_imp_distinct_iff distinct_length_2_or_more mset.simps)
    ultimately show False by blast
  qed
  ultimately show ?thesis
    by (intro exI [of _ bs] exI [of _ "[?e, ?e]"]) simp
qed

text \<open>A recipe object decodes to a factory type and a configuration exactly when encoding
  these two gives its bytes: both directions of the round trip.\<close>

theorem recipe_round_trip:
  "decode_recipe bs = Inr (f, config) \<longleftrightarrow> encode_recipe f config = Inr bs"
proof -
  have "decode_recipe bs = Inr (f, config) \<longleftrightarrow>
     (\<exists>c1 c2. eats (cursor_new bs) RECIPE_MAGIC c1 \<and> writes (push_len_prefixed (str_bytes f)) c1 c2 \<and> rest c2 = config)"
    by (auto simp: decode_recipe_def run_dec_iff take_rest_iff)
  also have "\<dots> \<longleftrightarrow> (\<exists>a. push_len_prefixed (str_bytes f) = Inr a \<and>
      (\<exists>c2. eats (cursor_new bs) (RECIPE_MAGIC @ a) c2 \<and> rest c2 = config))"
    by (auto simp: writes_def eats_append)
  also have "\<dots> \<longleftrightarrow> (\<exists>a. push_len_prefixed (str_bytes f) = Inr a \<and> bs = RECIPE_MAGIC @ a @ config)"
    by (simp add: ex_eats)
  finally show ?thesis by (auto simp: encode_recipe_def)
qed

end
