(* ===== verification/MerkleTree.thy ===== *)
theory MerkleTree
  imports Prelude
begin

text \<open>
  The shape that the transparency log (\<open>tlog/merkle.rs\<close>) and the logical-series tree
  (\<open>content/series_merkle.rs\<close>) share: the RFC 6962 tree, split at the largest power of two
  below the number of leaves. The interface \<open>rfc6962\<close> states the two laws of its root
  function; both components interpret it and inherit the facts on appending, on frontiers
  of perfect subtrees and on injectivity.
\<close>

section \<open>The split point\<close>

fun bit_length :: "nat \<Rightarrow> nat" where
  "bit_length n = (if n = 0 then 0 else Suc (bit_length (n div 2)))"

declare bit_length.simps [simp del]

lemma bit_length_0 [simp]: "bit_length 0 = 0"
  by (simp add: bit_length.simps)

lemma bit_length_eq_0 [simp]: "bit_length n = 0 \<longleftrightarrow> n = 0"
  by (simp add: bit_length.simps [of n])

lemma bit_length_bounds: "0 < n \<Longrightarrow> 2 ^ (bit_length n - 1) \<le> n \<and> n < 2 ^ bit_length n"
proof (induction n rule: bit_length.induct)
  case (1 n)
  show ?case
  proof (cases "n div 2 = 0")
    case True
    then have "n = 1" using "1.prems" by linarith
    then show ?thesis by (simp add: bit_length.simps)
  next
    case False
    then have IH: "2 ^ (bit_length (n div 2) - 1) \<le> n div 2" "n div 2 < 2 ^ bit_length (n div 2)"
      using "1.IH" "1.prems" by auto
    have e: "bit_length n = Suc (bit_length (n div 2))"
      using "1.prems" by (simp add: bit_length.simps [of n])
    have "(2 :: nat) ^ bit_length (n div 2) = 2 * 2 ^ (bit_length (n div 2) - 1)"
      using False by (metis bit_length_eq_0 power_eq_if)
    then show ?thesis
      using IH unfolding e by simp linarith
  qed
qed

lemma bit_length_unique:
  assumes "2 ^ i \<le> n" and "n < 2 ^ Suc i"
  shows "bit_length n = Suc i"
proof -
  have n: "0 < n"
    using assms(1) by (cases n) auto
  have "i < bit_length n"
    using assms(1) bit_length_bounds [OF n] by (metis le_less_trans nat_power_less_imp_less zero_less_numeral)
  moreover have "bit_length n - 1 < Suc i"
    using assms(2) bit_length_bounds [OF n] by (metis le_less_trans nat_power_less_imp_less zero_less_numeral)
  ultimately show ?thesis by simp
qed

lemma bit_length_le: "n < 2 ^ i \<Longrightarrow> bit_length n \<le> i"
  using bit_length_bounds [of n]
  by (cases "n = 0") (auto dest!: le_less_trans [of "2 ^ _" n])

text \<open>The largest power of two strictly below \<open>n\<close>, for \<open>n > 1\<close>.\<close>

definition pow2_below :: "nat \<Rightarrow> nat" where
  "pow2_below n = 2 ^ (bit_length (n - 1) - 1)"

lemma pow2_below_unique: "2 ^ i < n \<Longrightarrow> n \<le> 2 ^ Suc i \<Longrightarrow> pow2_below n = 2 ^ i"
  using bit_length_unique [of i "n - 1"] by (simp add: pow2_below_def)

lemma pow2_below_exists:
  assumes "1 < n"
  obtains i where "pow2_below n = 2 ^ i" "2 ^ i < n" "n \<le> 2 ^ Suc i"
proof -
  let ?i = "bit_length (n - 1) - 1"
  have b: "2 ^ ?i \<le> n - 1" "n - 1 < 2 ^ bit_length (n - 1)"
    using bit_length_bounds [of "n - 1"] assms by auto
  have s: "bit_length (n - 1) = Suc ?i"
    using assms by (cases "bit_length (n - 1)") auto
  have "n \<le> 2 ^ Suc ?i"
    using b(2) unfolding s [symmetric] by simp
  moreover have "2 ^ ?i < n"
    using b(1) assms by linarith
  ultimately show thesis
    using that [of ?i] by (simp add: pow2_below_def)
qed

lemma pow2_below_bounds:
  assumes "1 < n"
  shows "0 < pow2_below n" and "pow2_below n < n" and "n \<le> 2 * pow2_below n"
proof -
  obtain i where "pow2_below n = 2 ^ i" "2 ^ i < n" "n \<le> 2 ^ Suc i"
    using assms by (rule pow2_below_exists)
  then show "0 < pow2_below n" and "pow2_below n < n" and "n \<le> 2 * pow2_below n"
    by simp_all
qed

lemma pow2_below_less [simp]: "Suc 0 < n \<Longrightarrow> pow2_below n < n" "0 < pow2_below n"
  using pow2_below_bounds [of n] by (simp_all add: pow2_below_def)

lemma diff_pow2_below_less [simp]: "Suc 0 < n \<Longrightarrow> n - pow2_below n < n"
  by simp

lemma pow2_below_pow2_between:
  assumes "1 < n" and "pow2_below n < m" and "m \<le> n"
  shows "pow2_below m = pow2_below n"
proof -
  obtain i where "pow2_below n = 2 ^ i" "n \<le> 2 ^ Suc i"
    using assms(1) by (rule pow2_below_exists)
  then show ?thesis
    using assms pow2_below_unique [of i m] by simp
qed

section \<open>The interface\<close>

text \<open>The child pairs hashed while computing the root of a list of leaves.\<close>

function tree_pairs :: "('a list \<Rightarrow> 'h) \<Rightarrow> 'a list \<Rightarrow> ('h \<times> 'h) list" where
  "tree_pairs mth xs =
    (if length xs \<le> 1 then []
     else let k = pow2_below (length xs); l = take k xs; r = drop k xs in
       (mth l, mth r) # tree_pairs mth l @ tree_pairs mth r)"
  by auto
termination
  by (relation "measure (\<lambda>(m, xs). length xs)") (simp_all add: not_le)

declare tree_pairs.simps [simp del]

text \<open>Perfect subtrees, the largest first: the shape of a frontier.\<close>

fun frontier :: "nat \<Rightarrow> 'a list list \<Rightarrow> bool" where
  "frontier b [] \<longleftrightarrow> True"
| "frontier b (c # cs) \<longleftrightarrow> (\<exists>i < b. length c = 2 ^ i \<and> frontier i cs)"

lemma frontier_length: "frontier b cs \<Longrightarrow> length (concat cs) < 2 ^ b"
proof (induction cs arbitrary: b)
  case (Cons c cs)
  then obtain i where i: "i < b" "length c = 2 ^ i" "frontier i cs" by auto
  have "length (concat (c # cs)) < 2 ^ Suc i"
    using Cons.IH [OF i(3)] i(2) by simp
  also have "\<dots> \<le> 2 ^ b"
    using i(1) by (intro power_increasing) auto
  finally show ?case .
qed simp

locale rfc6962 =
  fixes mth :: "'a list \<Rightarrow> 'h" and wrap :: "'a \<Rightarrow> 'h" and node :: "'h \<Rightarrow> 'h \<Rightarrow> 'h"
  assumes mth_single: "mth [x] = wrap x"
    and mth_split: "1 < length xs \<Longrightarrow>
      mth xs = node (mth (take (pow2_below (length xs)) xs)) (mth (drop (pow2_below (length xs)) xs))"
begin

lemma mth_append:
  assumes "length xs = 2 ^ i" and "0 < length ys" and "length ys \<le> 2 ^ i"
  shows "mth (xs @ ys) = node (mth xs) (mth ys)"
proof -
  have "pow2_below (length (xs @ ys)) = 2 ^ i"
    using assms by (intro pow2_below_unique) auto
  moreover have "1 < length (xs @ ys)"
    using assms(2) zero_less_power [of "2 :: nat" i] unfolding length_append assms(1) by linarith
  note mth_split [OF this]
  ultimately show ?thesis
    using assms by simp
qed

lemma mth_take_drop:
  assumes "1 < n" and "n \<le> length xs"
  shows "mth (take n xs) =
    node (mth (take (pow2_below n) xs)) (mth (take (n - pow2_below n) (drop (pow2_below n) xs)))"
proof -
  have n: "length (take n xs) = n"
    using assms(2) by simp
  have t: "take (pow2_below n) (take n xs) = take (pow2_below n) xs"
    and d: "drop (pow2_below n) (take n xs) = take (n - pow2_below n) (drop (pow2_below n) xs)"
    using pow2_below_bounds [OF assms(1)] by (simp_all add: min_def drop_take)
  show ?thesis
    using assms(1) mth_split [of "take n xs"] unfolding n t d by blast
qed

lemma mth_frontier:
  "frontier b cs \<Longrightarrow> cs \<noteq> [] \<Longrightarrow>
    mth (concat cs) = foldr node (map mth (butlast cs)) (mth (last cs))"
proof (induction cs arbitrary: b)
  case (Cons c cs)
  then obtain i where i: "length c = 2 ^ i" "frontier i cs" by auto
  show ?case
  proof (cases "cs = []")
    case False
    then have "0 < length (concat cs)"
      using i(2) by (cases cs) auto
    then have "mth (c @ concat cs) = node (mth c) (mth (concat cs))"
      using frontier_length [OF i(2)] by (intro mth_append [OF i(1)]) auto
    with Cons.IH [OF i(2) False] False show ?thesis by simp
  qed simp
qed simp

lemma mth_inj:
  assumes "length xs = length ys" and "xs \<noteq> []"
    and "inj_on (\<lambda>(l, r). node l r) (set (tree_pairs mth xs) \<union> set (tree_pairs mth ys))"
    and "inj_on wrap (set xs \<union> set ys)" and "mth xs = mth ys"
  shows "xs = ys"
  using assms
proof (induction "length xs" arbitrary: xs ys rule: less_induct)
  case less
  show ?case
  proof (cases "length xs = 1")
    case True
    then obtain x y where "xs = [x]" "ys = [y]"
      using less.prems(1) by (metis One_nat_def length_0_conv length_Suc_conv)
    then show ?thesis
      using less.prems(4,5) by (auto simp: mth_single dest: inj_onD)
  next
    case False
    let ?k = "pow2_below (length xs)"
    have n: "1 < length xs"
      using False less.prems(2) by (cases xs) auto
    note k = pow2_below_bounds [OF n]
    have px: "set (tree_pairs mth xs) = insert (mth (take ?k xs), mth (drop ?k xs))
        (set (tree_pairs mth (take ?k xs)) \<union> set (tree_pairs mth (drop ?k xs)))"
      using n by (simp add: tree_pairs.simps [of mth xs] Let_def)
    have py: "set (tree_pairs mth ys) = insert (mth (take ?k ys), mth (drop ?k ys))
        (set (tree_pairs mth (take ?k ys)) \<union> set (tree_pairs mth (drop ?k ys)))"
      using n less.prems(1) by (simp add: tree_pairs.simps [of mth ys] Let_def)
    have "node (mth (take ?k xs)) (mth (drop ?k xs)) = node (mth (take ?k ys)) (mth (drop ?k ys))"
      using less.prems(1,5) mth_split [OF n] mth_split [of ys] n by simp
    then have e: "mth (take ?k xs) = mth (take ?k ys)" "mth (drop ?k xs) = mth (drop ?k ys)"
      using inj_onD [OF less.prems(3), of "(mth (take ?k xs), mth (drop ?k xs))"
          "(mth (take ?k ys), mth (drop ?k ys))"] px py by auto
    have wl: "inj_on wrap (set (take ?k xs) \<union> set (take ?k ys))"
      and wr: "inj_on wrap (set (drop ?k xs) \<union> set (drop ?k ys))"
      using less.prems(4) by (meson Un_mono inj_on_subset set_take_subset set_drop_subset)+
    have nl: "inj_on (\<lambda>(l, r). node l r)
        (set (tree_pairs mth (take ?k xs)) \<union> set (tree_pairs mth (take ?k ys)))"
      and nr: "inj_on (\<lambda>(l, r). node l r)
        (set (tree_pairs mth (drop ?k xs)) \<union> set (tree_pairs mth (drop ?k ys)))"
      using less.prems(3) px py by (auto elim!: inj_on_subset)
    have "take ?k xs = take ?k ys"
      using less.hyps [OF _ _ _ nl wl e(1)] k less.prems(1,2) by (simp add: min_def)
    moreover have "drop ?k xs = drop ?k ys"
      using less.hyps [OF _ _ _ nr wr e(2)] k less.prems(1) by simp
    ultimately show ?thesis
      by (metis append_take_drop_id)
  qed
qed

end

end
