(* ===== verification/TlogMerkle.thy ===== *)
theory TlogMerkle
  imports MerkleTree
begin

unbundle bit_operations_syntax

text \<open>
  The transparency log over the commit spine, \<open>tlog/merkle.rs\<close>: RFC 6962 hashing, the log
  with its proof generators, and the two proof verifiers. SHA-256 is the parameter \<open>H\<close>.
  Sizes and indices are \<open>usize\<close> values, modelled as \<open>nat\<close>; the only arithmetic on them that
  can wrap is the doubling in \<open>split_point\<close>, where the wrap is written out.
\<close>

section \<open>Hashing\<close>

definition LEAF_PREFIX :: byte where "LEAF_PREFIX = 0x00"
definition NODE_PREFIX :: byte where "NODE_PREFIX = 0x01"

definition empty_root :: "(bytes \<Rightarrow> hash32) \<Rightarrow> hash32" where
  "empty_root H = H []"

definition hash_leaf :: "(bytes \<Rightarrow> hash32) \<Rightarrow> bytes \<Rightarrow> hash32" where
  "hash_leaf H leaf_data = H (LEAF_PREFIX # leaf_data)"

definition hash_children :: "(bytes \<Rightarrow> hash32) \<Rightarrow> hash32 \<Rightarrow> hash32 \<Rightarrow> hash32" where
  "hash_children H left right = H (NODE_PREFIX # as_bytes left @ as_bytes right)"

text \<open>
  \<open>split_point\<close>: the loop \<open>while k << 1 < n { k <<= 1 }\<close>. On a slice length the shift never
  leaves 64 bits and the loop is the first function. The verifier calls it on a tree size it
  was given, so there the shift wraps and the loop may run for ever: \<open>None\<close>.
\<close>

function split_from :: "nat \<Rightarrow> nat \<Rightarrow> nat" where
  "split_from n k = (if 0 < k \<and> 2 * k < n then split_from n (2 * k) else k)"
  by auto
termination
  by (relation "measure (\<lambda>(n, k). n - k)") auto

declare split_from.simps [simp del]

definition split_point :: "nat \<Rightarrow> nat" where
  "split_point n = split_from n 1"

partial_function (option) split_loop :: "nat \<Rightarrow> nat \<Rightarrow> nat option" where
  "split_loop n k =
    (let k2 = 2 * k mod 2 ^ 64 in if k2 < n then split_loop n k2 else Some k)"

definition split_point_usize :: "nat \<Rightarrow> nat option" where
  "split_point_usize n = split_loop n 1"

definition is_power_of_two :: "nat \<Rightarrow> bool" where
  "is_power_of_two x \<longleftrightarrow> x \<noteq> 0 \<and> x AND (x - 1) = 0"

lemma diff_double_less: "2 ^ Suc i < n \<Longrightarrow> n - 2 ^ Suc i < n - 2 ^ i" for n :: nat
  by (rule diff_less_mono2) (auto intro: le_less_trans [of _ "2 * 2 ^ i"])

lemma split_from_pow2: "2 ^ i < n \<Longrightarrow> split_from n (2 ^ i) = pow2_below n"
proof (induction "n - 2 ^ i" arbitrary: i rule: less_induct)
  case less
  show ?case
  proof (cases "2 * 2 ^ i < n")
    case True
    have "split_from n (2 ^ i) = split_from n (2 ^ Suc i)"
      using True by (subst split_from.simps) simp
    also have "\<dots> = pow2_below n"
      using True less.prems by (intro less.hyps diff_double_less) auto
    finally show ?thesis .
  next
    case False
    then show ?thesis
      using less.prems pow2_below_unique [of i n] by (subst split_from.simps) simp
  qed
qed

lemma split_point_eq: "1 < n \<Longrightarrow> split_point n = pow2_below n"
  using split_from_pow2 [of 0 n] by (simp add: split_point_def)

lemma split_point_bounds [simp]:
  "0 < split_point n" "Suc 0 < n \<Longrightarrow> split_point n < n" "Suc 0 < n \<Longrightarrow> n - split_point n < n"
proof -
  show "0 < split_point n"
  proof (cases "1 < n")
    case False
    then show ?thesis
      by (simp add: split_point_def split_from.simps)
  qed (simp add: split_point_eq)
qed (simp_all add: split_point_eq)

lemma split_point_slice [simp]:
  "xs \<noteq> [] \<Longrightarrow> length xs \<noteq> Suc 0 \<Longrightarrow> split_point (length xs) < length xs"
  by (cases xs) simp_all

lemma split_loop_small:
  assumes "n \<le> 2 ^ 63"
  shows "2 ^ i < n \<Longrightarrow> split_loop n (2 ^ i) = Some (pow2_below n)"
proof (induction "n - 2 ^ i" arbitrary: i rule: less_induct)
  case less
  have m: "2 * 2 ^ i mod 2 ^ 64 = (2 ^ Suc i :: nat)"
    using less.prems assms by simp
  show ?case
  proof (cases "2 ^ Suc i < n")
    case True
    have "split_loop n (2 ^ i) = split_loop n (2 ^ Suc i)"
      using True m by (subst split_loop.simps) (simp add: Let_def)
    also have "\<dots> = Some (pow2_below n)"
      using True less.prems by (intro less.hyps diff_double_less) auto
    finally show ?thesis .
  next
    case False
    then show ?thesis
      using less.prems m pow2_below_unique [of i n] by (subst split_loop.simps) (simp add: Let_def)
  qed
qed

lemma split_point_usize_small: "1 < n \<Longrightarrow> n \<le> 2 ^ 63 \<Longrightarrow> split_point_usize n = Some (pow2_below n)"
  using split_loop_small [of n 0] by (simp add: split_point_usize_def)

lemma split_loop_diverges:
  "split_loop n k = Some y \<Longrightarrow> 2 ^ 63 < n \<longrightarrow> \<not> (k = 0 \<or> (\<exists>i \<le> 63. k = 2 ^ i))"
proof (erule split_loop.raw_induct [where P =
      "\<lambda>n k y. 2 ^ 63 < n \<longrightarrow> \<not> (k = 0 \<or> (\<exists>i \<le> 63. k = 2 ^ i))", rotated])
  fix "rec" :: "nat \<Rightarrow> nat \<Rightarrow> nat option" and n k y
  assume IH: "\<And>n k y. rec n k = Some y \<Longrightarrow> 2 ^ 63 < n \<longrightarrow> \<not> (k = 0 \<or> (\<exists>i \<le> 63. k = 2 ^ i))"
    and step: "(let k2 = 2 * k mod 2 ^ 64 in if k2 < n then rec n k2 else Some k) = Some y"
  show "2 ^ 63 < n \<longrightarrow> \<not> (k = 0 \<or> (\<exists>i \<le> 63. k = 2 ^ i))"
  proof (intro impI notI)
    assume n: "2 ^ 63 < n" and k: "k = 0 \<or> (\<exists>i \<le> 63. k = 2 ^ i)"
    let ?k = "2 * k mod 2 ^ 64"
    have k2: "?k = 0 \<or> (\<exists>i \<le> 63. ?k = 2 ^ i)"
    proof -
      have "?k = 0 \<or> (\<exists>i \<le> 63. ?k = 2 ^ i)" if "k = 2 ^ i" "i \<le> 63" for i
      proof (cases "i = 63")
        case False
        then have "?k = 2 ^ Suc i"
          using that power_strict_increasing [of "Suc i" 64 "2 :: nat"] by simp
        then show ?thesis
          using that False by (intro disjI2 exI [of _ "Suc i"]) simp
      qed (use that in simp)
      then show ?thesis using k by auto
    qed
    then have "?k \<le> 2 ^ 63"
      using power_increasing [of _ 63 "2 :: nat"] by auto
    then have "rec n ?k = Some y"
      using step n by (simp add: Let_def)
    from IH [OF this] n k2 show False by blast
  qed
qed

lemma split_point_usize_large: "2 ^ 63 < n \<Longrightarrow> split_point_usize n = None"
proof (rule ccontr)
  assume n: "2 ^ 63 < n" and "split_point_usize n \<noteq> None"
  then obtain y where "split_loop n (2 ^ 0) = Some y"
    by (auto simp: split_point_usize_def)
  from split_loop_diverges [OF this] n show False by blast
qed

lemma is_power_of_two_iff: "is_power_of_two x \<longleftrightarrow> (\<exists>i. x = 2 ^ i)"
proof (induction x rule: less_induct)
  case (less x)
  consider "x = 0" | q where "x = 2 * q + 1" | q where "x = 2 * q" "0 < q"
    by (metis evenE gr0I mult_0_right oddE)
  then show ?case
  proof cases
    case 1
    then show ?thesis by (simp add: is_power_of_two_def)
  next
    case (2 q)
    have "x AND (x - 1) = 2 * q"
      unfolding 2 by (subst and_nat_rec) simp
    then have "is_power_of_two x \<longleftrightarrow> q = 0"
      using 2 by (simp add: is_power_of_two_def)
    moreover have "x = 2 ^ i \<Longrightarrow> q = 0" for i
      using 2 by (cases i) (auto dest: arg_cong [of _ _ even])
    moreover have "q = 0 \<Longrightarrow> x = 2 ^ 0"
      using 2 by simp
    ultimately show ?thesis by blast
  next
    case (3 q)
    have h: "(2 * q - Suc 0) div 2 = q - 1" "odd (2 * q - Suc 0)"
      using 3(2) by (cases q; simp)+
    have "x AND (x - 1) = 2 * (q AND (q - 1))"
      unfolding 3(1) by (subst and_nat_rec) (simp add: h)
    then have "is_power_of_two x \<longleftrightarrow> is_power_of_two q"
      using 3 by (simp add: is_power_of_two_def)
    also have "\<dots> \<longleftrightarrow> (\<exists>i. q = 2 ^ i)"
      using 3 by (intro less.IH) simp
    also have "\<dots> \<longleftrightarrow> (\<exists>i. x = 2 ^ Suc i)"
      using 3 by simp
    also have "\<dots> \<longleftrightarrow> (\<exists>i. x = 2 ^ i)"
    proof
      assume "\<exists>i. x = 2 ^ i"
      then obtain i where i: "x = 2 ^ i" by blast
      with 3 show "\<exists>i. x = 2 ^ Suc i" by (cases i) auto
    qed blast
    finally show ?thesis .
  qed
qed

section \<open>The log and its proofs\<close>

function mth :: "(bytes \<Rightarrow> hash32) \<Rightarrow> hash32 list \<Rightarrow> hash32" where
  "mth H leaves =
    (if length leaves = 0 then empty_root H
     else if length leaves = 1 then leaves ! 0
     else let k = split_point (length leaves) in
       hash_children H (mth H (take k leaves)) (mth H (drop k leaves)))"
  by auto
termination
  by (relation "measure (\<lambda>(H, leaves). length leaves)") (simp_all add: not_le)

declare mth.simps [simp del]

record transparency_log =
  log_leaves :: "hash32 list"

definition log_new :: transparency_log where
  "log_new = \<lparr>log_leaves = []\<rparr>"

definition log_len :: "transparency_log \<Rightarrow> nat" where
  "log_len l = length (log_leaves l)"

definition log_is_empty :: "transparency_log \<Rightarrow> bool" where
  "log_is_empty l \<longleftrightarrow> log_leaves l = []"

definition log_append :: "(bytes \<Rightarrow> hash32) \<Rightarrow> transparency_log \<Rightarrow> bytes \<Rightarrow> transparency_log \<times> nat" where
  "log_append H l leaf_data = (l\<lparr>log_leaves := log_leaves l @ [hash_leaf H leaf_data]\<rparr>, length (log_leaves l))"

definition append_leaf_hash :: "transparency_log \<Rightarrow> hash32 \<Rightarrow> transparency_log \<times> nat" where
  "append_leaf_hash l leaf = (l\<lparr>log_leaves := log_leaves l @ [leaf]\<rparr>, length (log_leaves l))"

definition leaf_hash :: "transparency_log \<Rightarrow> nat \<Rightarrow> hash32 option" where
  "leaf_hash l index = (if index < length (log_leaves l) then Some (log_leaves l ! index) else None)"

definition log_root :: "(bytes \<Rightarrow> hash32) \<Rightarrow> transparency_log \<Rightarrow> hash32" where
  "log_root H l = mth H (log_leaves l)"

datatype proof_error = IndexOutOfRange (index: nat) (size: nat)

text \<open>
  \<open>path\<close> and \<open>subproof\<close> are called on a non-empty slice with the position inside it; on the
  slices outside that range, where the source would fail an assertion, the functions stop.
\<close>

function path :: "(bytes \<Rightarrow> hash32) \<Rightarrow> nat \<Rightarrow> hash32 list \<Rightarrow> hash32 list" where
  "path H m leaves =
    (if length leaves \<le> 1 then []
     else let k = split_point (length leaves) in
       if m < k then path H m (take k leaves) @ [mth H (drop k leaves)]
       else path H (m - k) (drop k leaves) @ [mth H (take k leaves)])"
  by auto
termination
  by (relation "measure (\<lambda>(H, m, leaves). length leaves)") (simp_all add: not_le)

function subproof :: "(bytes \<Rightarrow> hash32) \<Rightarrow> nat \<Rightarrow> hash32 list \<Rightarrow> bool \<Rightarrow> hash32 list" where
  "subproof H m leaves b =
    (if m = length leaves then (if b then [] else [mth H leaves])
     else if length leaves \<le> 1 then []
     else let k = split_point (length leaves) in
       if m \<le> k then subproof H m (take k leaves) b @ [mth H (drop k leaves)]
       else subproof H (m - k) (drop k leaves) False @ [mth H (take k leaves)])"
  by auto
termination
  by (relation "measure (\<lambda>(H, m, leaves, b). length leaves)") (simp_all add: not_le)

declare path.simps [simp del] subproof.simps [simp del]

definition inclusion_proof ::
    "(bytes \<Rightarrow> hash32) \<Rightarrow> transparency_log \<Rightarrow> nat \<Rightarrow> proof_error + hash32 list" where
  "inclusion_proof H l i =
    (if i \<ge> length (log_leaves l) then Inl (IndexOutOfRange i (length (log_leaves l)))
     else Inr (path H i (log_leaves l)))"

definition consistency_proof ::
    "(bytes \<Rightarrow> hash32) \<Rightarrow> transparency_log \<Rightarrow> nat \<Rightarrow> proof_error + hash32 list" where
  "consistency_proof H l old_size =
    (let n = length (log_leaves l) in
     if old_size > n then Inl (IndexOutOfRange old_size n)
     else if old_size = 0 \<or> old_size = n then Inr []
     else Inr (subproof H old_size (log_leaves l) True))"

section \<open>The verifiers\<close>

text \<open>
  \<open>rebuild_root\<close> consumes the proof from its end. The outer option is \<open>None\<close> when the call
  never returns, the inner one is the \<open>Option\<close> of the source.
\<close>

function rebuild_root ::
    "(bytes \<Rightarrow> hash32) \<Rightarrow> nat \<Rightarrow> nat \<Rightarrow> hash32 \<Rightarrow> hash32 list \<Rightarrow> hash32 option option" where
  "rebuild_root H m n leaf proof =
    (if n = 1 then Some (if proof = [] then Some leaf else None)
     else if proof = [] then Some None
     else Option.bind (split_point_usize n) (\<lambda>k.
       if m < k then
         map_option (map_option (\<lambda>left. hash_children H left (last proof)))
           (rebuild_root H m k leaf (butlast proof))
       else
         map_option (map_option (\<lambda>right. hash_children H (last proof) right))
           (rebuild_root H (m - k) (n - k) leaf (butlast proof))))"
  by auto
termination
  by (relation "measure (\<lambda>(H, m, n, leaf, proof). length proof)") auto

declare rebuild_root.simps [simp del]

definition verify_inclusion ::
    "(bytes \<Rightarrow> hash32) \<Rightarrow> hash32 \<Rightarrow> nat \<Rightarrow> nat \<Rightarrow> hash32 list \<Rightarrow> hash32 \<Rightarrow> bool option" where
  "verify_inclusion H leaf i tree_size proof root =
    (if i \<ge> tree_size then Some False
     else map_option (\<lambda>computed. computed = Some root) (rebuild_root H i tree_size leaf proof))"

text \<open>The three loops of \<open>verify_consistency\<close>; the iterator is the list of nodes left.\<close>

function strip_ones :: "nat \<Rightarrow> nat \<Rightarrow> nat \<times> nat" where
  "strip_ones n last_node = (if odd n then strip_ones (n div 2) (last_node div 2) else (n, last_node))"
  by auto
termination
  by (relation "measure (\<lambda>(n, _). n)") (auto elim: oddE)

function walk_old :: "(bytes \<Rightarrow> hash32) \<Rightarrow> nat \<Rightarrow> nat \<Rightarrow> hash32 \<Rightarrow> hash32 \<Rightarrow> hash32 list \<Rightarrow>
    (nat \<times> hash32 \<times> hash32 \<times> hash32 list) option" where
  "walk_old H n last_node hash1 hash2 nodes =
    (if n = 0 then Some (last_node, hash1, hash2, nodes)
     else if odd n then
       (case nodes of [] \<Rightarrow> None
        | next # rest \<Rightarrow> walk_old H (n div 2) (last_node div 2)
            (hash_children H next hash1) (hash_children H next hash2) rest)
     else if n < last_node then
       (case nodes of [] \<Rightarrow> None
        | next # rest \<Rightarrow> walk_old H (n div 2) (last_node div 2) hash1 (hash_children H hash2 next) rest)
     else walk_old H (n div 2) (last_node div 2) hash1 hash2 nodes)"
  by pat_completeness auto
termination
  by (relation "measure (\<lambda>(H, n, _). n)") auto

fun walk_new :: "(bytes \<Rightarrow> hash32) \<Rightarrow> nat \<Rightarrow> hash32 \<Rightarrow> hash32 list \<Rightarrow> (hash32 \<times> hash32 list) option" where
  "walk_new H last_node hash2 nodes =
    (if last_node = 0 then Some (hash2, nodes)
     else case nodes of [] \<Rightarrow> None
       | next # rest \<Rightarrow> walk_new H (last_node div 2) (hash_children H hash2 next) rest)"

declare strip_ones.simps [simp del] walk_old.simps [simp del] walk_new.simps [simp del]

definition verify_consistency ::
    "(bytes \<Rightarrow> hash32) \<Rightarrow> nat \<Rightarrow> nat \<Rightarrow> hash32 \<Rightarrow> hash32 \<Rightarrow> hash32 list \<Rightarrow> bool" where
  "verify_consistency H old_size new_size old_root new_root proof =
    (if old_size > new_size then False
     else if old_size = new_size then proof = [] \<and> old_root = new_root
     else if old_size = 0 then proof = []
     else
       let nodes = (if is_power_of_two old_size then [old_root] else []) @ proof;
           (n, last_node) = strip_ones (old_size - 1) (new_size - 1)
       in case nodes of
         [] \<Rightarrow> False
       | first # rest \<Rightarrow>
           (case walk_old H n last_node first first rest of
              None \<Rightarrow> False
            | Some (last_node, hash1, hash2, rest) \<Rightarrow>
                (case walk_new H last_node hash2 rest of
                   None \<Rightarrow> False
                 | Some (hash2, rest) \<Rightarrow> rest = [] \<and> hash1 = old_root \<and> hash2 = new_root)))"

interpretation tlog: rfc6962 "mth H" "\<lambda>x. x" "hash_children H" for H
proof unfold_locales
  fix x
  show "mth H [x] = x"
    by (simp add: mth.simps)
next
  fix xs :: "hash32 list"
  assume "1 < length xs"
  then show "mth H xs = hash_children H (mth H (take (pow2_below (length xs)) xs))
      (mth H (drop (pow2_below (length xs)) xs))"
    by (subst mth.simps) (auto simp: split_point_eq Let_def)
qed

section \<open>Inclusion proofs\<close>

lemma split_point_usize_eq: "1 < n \<Longrightarrow> split_point_usize n = Some k \<Longrightarrow> k = pow2_below n"
  using split_point_usize_small [of n] split_point_usize_large [of n] by (cases "n \<le> 2 ^ 63") auto

lemma path_single [simp]: "length xs \<le> 1 \<Longrightarrow> path H i xs = []"
  by (simp add: path.simps)

lemma path_split:
  "1 < length xs \<Longrightarrow> path H i xs =
    (if i < pow2_below (length xs)
     then path H i (take (pow2_below (length xs)) xs) @ [mth H (drop (pow2_below (length xs)) xs)]
     else path H (i - pow2_below (length xs)) (drop (pow2_below (length xs)) xs)
       @ [mth H (take (pow2_below (length xs)) xs)])"
  by (subst path.simps) (auto simp: split_point_eq Let_def)

lemma rebuild_root_path:
  "i < length xs \<Longrightarrow> length xs \<le> 2 ^ 63 \<Longrightarrow>
    rebuild_root H i (length xs) (xs ! i) (path H i xs) = Some (Some (mth H xs))"
proof (induction "length xs" arbitrary: i xs rule: less_induct)
  case less
  show ?case
  proof (cases "length xs = 1")
    case True
    then obtain x where "xs = [x]"
      by (metis One_nat_def length_0_conv length_Suc_conv)
    then show ?thesis
      using less.prems by (simp add: rebuild_root.simps tlog.mth_single)
  next
    case False
    let ?k = "pow2_below (length xs)"
    have n: "1 < length xs"
      using False less.prems by linarith
    note k = pow2_below_bounds [OF n]
    have s: "split_point_usize (length xs) = Some ?k"
      by (rule split_point_usize_small [OF n less.prems(2)])
    show ?thesis
    proof (cases "i < ?k")
      case True
      have "rebuild_root H i ?k (xs ! i) (path H i (take ?k xs)) = Some (Some (mth H (take ?k xs)))"
        using less.hyps [of "take ?k xs" i] True k less.prems by (simp add: min_def)
      then show ?thesis
        using True n s k less.prems
        by (simp add: path_split [OF n] rebuild_root.simps [of H i "length xs"] tlog.mth_split [OF n])
    next
      case False
      have "rebuild_root H (i - ?k) (length xs - ?k) (xs ! i) (path H (i - ?k) (drop ?k xs)) =
          Some (Some (mth H (drop ?k xs)))"
        using less.hyps [of "drop ?k xs" "i - ?k"] False k less.prems by simp
      then show ?thesis
        using False n s k less.prems
        by (simp add: path_split [OF n] rebuild_root.simps [of H i "length xs"] tlog.mth_split [OF n])
    qed
  qed
qed

text \<open>The child pairs that \<open>rebuild_root\<close> hashes.\<close>

function rebuild_pairs ::
    "(bytes \<Rightarrow> hash32) \<Rightarrow> nat \<Rightarrow> nat \<Rightarrow> hash32 \<Rightarrow> hash32 list \<Rightarrow> (hash32 \<times> hash32) list" where
  "rebuild_pairs H m n leaf proof =
    (if n \<le> 1 \<or> proof = [] then []
     else let k = pow2_below n in
       if m < k then
         (case rebuild_root H m k leaf (butlast proof) of
            Some (Some left) \<Rightarrow> [(left, last proof)] | _ \<Rightarrow> [])
         @ rebuild_pairs H m k leaf (butlast proof)
       else
         (case rebuild_root H (m - k) (n - k) leaf (butlast proof) of
            Some (Some right) \<Rightarrow> [(last proof, right)] | _ \<Rightarrow> [])
         @ rebuild_pairs H (m - k) (n - k) leaf (butlast proof))"
  by auto
termination
  by (relation "measure (\<lambda>(H, m, n, leaf, proof). length proof)") auto

declare rebuild_pairs.simps [simp del]

lemma rebuild_root_sound:
  assumes "i < length xs" and "rebuild_root H i (length xs) leaf pf = Some (Some (mth H xs))"
    and "inj_on (\<lambda>(l, r). hash_children H l r)
      (set (tree_pairs (mth H) xs) \<union> set (rebuild_pairs H i (length xs) leaf pf))"
  shows "leaf = xs ! i \<and> pf = path H i xs"
  using assms
proof (induction "length xs" arbitrary: i xs pf rule: less_induct)
  case less
  show ?case
  proof (cases "length xs = 1")
    case True
    then obtain x where "xs = [x]"
      by (metis One_nat_def length_0_conv length_Suc_conv)
    then show ?thesis
      using less.prems by (auto simp: rebuild_root.simps tlog.mth_single split: if_splits)
  next
    case False
    let ?k = "pow2_below (length xs)"
    let ?L = "mth H (take ?k xs)" and ?R = "mth H (drop ?k xs)"
    have n: "1 < length xs"
      using False less.prems by linarith
    note k = pow2_below_bounds [OF n]
    have p: "pf \<noteq> []" and s: "split_point_usize (length xs) = Some ?k"
      using less.prems(2) n split_point_usize_eq [OF n]
      by (auto simp: rebuild_root.simps [of H i "length xs"] bind_eq_Some_conv split: if_splits)
    have px: "set (tree_pairs (mth H) xs) =
        insert (?L, ?R) (set (tree_pairs (mth H) (take ?k xs)) \<union> set (tree_pairs (mth H) (drop ?k xs)))"
      using n by (simp add: tree_pairs.simps [of "mth H" xs] Let_def)
    show ?thesis
    proof (cases "i < ?k")
      case True
      obtain l where l: "rebuild_root H i ?k leaf (butlast pf) = Some (Some l)"
          "hash_children H l (last pf) = mth H xs"
        using less.prems(2) n p s True
        by (auto simp: rebuild_root.simps [of H i "length xs"] bind_eq_Some_conv)
      have pp: "set (rebuild_pairs H i (length xs) leaf pf) =
          insert (l, last pf) (set (rebuild_pairs H i ?k leaf (butlast pf)))"
        using n p True l by (simp add: rebuild_pairs.simps [of H i "length xs"] Let_def)
      have "(l, last pf) = (?L, ?R)"
        using l(2) tlog.mth_split [OF n, of H] px pp by (intro inj_onD [OF less.prems(3)]) auto
      moreover have "leaf = take ?k xs ! i \<and> butlast pf = path H i (take ?k xs)"
        using l calculation True k less.prems(3) px pp
        by (intro less.hyps) (auto elim!: inj_on_subset simp: min_def)
      ultimately show ?thesis
        using True p path_split [OF n, of H i] by (metis append_butlast_last_id nth_take prod.inject)
    next
      case False
      obtain r where r: "rebuild_root H (i - ?k) (length xs - ?k) leaf (butlast pf) = Some (Some r)"
          "hash_children H (last pf) r = mth H xs"
        using less.prems(2) n p s False
        by (auto simp: rebuild_root.simps [of H i "length xs"] bind_eq_Some_conv)
      have pp: "set (rebuild_pairs H i (length xs) leaf pf) =
          insert (last pf, r) (set (rebuild_pairs H (i - ?k) (length xs - ?k) leaf (butlast pf)))"
        using n p False r by (simp add: rebuild_pairs.simps [of H i "length xs"] Let_def)
      have "(last pf, r) = (?L, ?R)"
        using r(2) tlog.mth_split [OF n, of H] px pp by (intro inj_onD [OF less.prems(3)]) auto
      moreover have "leaf = drop ?k xs ! (i - ?k) \<and> butlast pf = path H (i - ?k) (drop ?k xs)"
        using r calculation False k less.prems(1,3) px pp
        by (intro less.hyps) (auto elim!: inj_on_subset)
      moreover have "drop ?k xs ! (i - ?k) = xs ! i"
        using False less.prems(1) by (simp add: nth_drop)
      ultimately show ?thesis
        using False p path_split [OF n, of H i] by (metis append_butlast_last_id prod.inject)
    qed
  qed
qed

section \<open>Consistency proofs\<close>

text \<open>
  Two intermediate forms of the verifier. \<open>climb\<close> is the second and the third loop in one,
  since the third is what the second does at node 0. \<open>recon\<close> recomputes the two roots in
  the recursion of \<open>subproof\<close>, from the top.
\<close>

function climb :: "(bytes \<Rightarrow> hash32) \<Rightarrow> nat \<Rightarrow> nat \<Rightarrow> hash32 \<Rightarrow> hash32 \<Rightarrow> hash32 list \<Rightarrow>
    (hash32 \<times> hash32) option" where
  "climb H n l h1 h2 ps =
    (if l = 0 then (if ps = [] then Some (h1, h2) else None)
     else if odd n then
       (case ps of [] \<Rightarrow> None
        | p # ps \<Rightarrow> climb H (n div 2) (l div 2) (hash_children H p h1) (hash_children H p h2) ps)
     else if n < l then
       (case ps of [] \<Rightarrow> None
        | p # ps \<Rightarrow> climb H (n div 2) (l div 2) h1 (hash_children H h2 p) ps)
     else climb H (n div 2) (l div 2) h1 h2 ps)"
  by pat_completeness auto
termination
  by (relation "measure (\<lambda>(H, n, l, _). l)") auto

function recon :: "(bytes \<Rightarrow> hash32) \<Rightarrow> nat \<Rightarrow> nat \<Rightarrow> hash32 \<Rightarrow> hash32 list \<Rightarrow> (hash32 \<times> hash32) option" where
  "recon H m n seed ps =
    (if m \<ge> n then (if ps = [] then Some (seed, seed) else None)
     else if ps = [] then None
     else let k = pow2_below n in
       if m \<le> k then
         map_option (\<lambda>(a, b). (a, hash_children H b (last ps))) (recon H m k seed (butlast ps))
       else
         map_option (\<lambda>(a, b). (hash_children H (last ps) a, hash_children H (last ps) b))
           (recon H (m - k) (n - k) seed (butlast ps)))"
  by auto
termination
  by (relation "measure (\<lambda>(H, m, n, seed, ps). length ps)") auto

declare climb.simps [simp del] recon.simps [simp del]

definition finish_roots :: "(bytes \<Rightarrow> hash32) \<Rightarrow> (nat \<times> hash32 \<times> hash32 \<times> hash32 list) option \<Rightarrow> (hash32 \<times> hash32) option" where
  "finish_roots H w = (case w of None \<Rightarrow> None | Some (l, h1, h2, ps) \<Rightarrow>
     (case walk_new H l h2 ps of None \<Rightarrow> None
      | Some (h2, ps) \<Rightarrow> if ps = [] then Some (h1, h2) else None))"

lemma finish_accepts:
  "finish_roots H w = Some (r1, r2) \<longleftrightarrow>
    (case w of None \<Rightarrow> False | Some (last_node, hash1, hash2, rest) \<Rightarrow>
       (case walk_new H last_node hash2 rest of None \<Rightarrow> False
        | Some (hash2, rest) \<Rightarrow> rest = [] \<and> hash1 = r1 \<and> hash2 = r2))"
  by (auto simp: finish_roots_def split: option.splits)

lemma walk_new_climb: "finish_roots H (Some (l, h1, h2, ps)) = climb H 0 l h1 h2 ps"
proof (induction l arbitrary: h2 ps rule: less_induct)
  case (less l)
  show ?case
  proof (cases "l = 0")
    case True
    then show ?thesis
      by (simp add: finish_roots_def walk_new.simps climb.simps)
  next
    case False
    then have "finish_roots H (Some (l div 2, h1, h2', ps')) = climb H 0 (l div 2) h1 h2' ps'" for h2' ps'
      by (intro less.IH) simp
    with False show ?thesis
      by (simp add: finish_roots_def walk_new.simps [of H l] climb.simps [of H 0 l] split: list.splits)
  qed
qed

lemma walk_climb: "n \<le> l \<Longrightarrow> finish_roots H (walk_old H n l h1 h2 ps) = climb H n l h1 h2 ps"
proof (induction n arbitrary: l h1 h2 ps rule: less_induct)
  case (less n)
  show ?case
  proof (cases "n = 0")
    case True
    then show ?thesis
      by (simp add: walk_old.simps walk_new_climb)
  next
    case False
    then have "finish_roots H (walk_old H (n div 2) (l div 2) h1' h2' ps') =
        climb H (n div 2) (l div 2) h1' h2' ps'" for h1' h2' ps'
      using less.prems by (intro less.IH) (simp_all add: div_le_mono)
    moreover have "finish_roots H None = None"
      by (simp add: finish_roots_def)
    ultimately show ?thesis
      using False less.prems
      by (auto simp: walk_old.simps [of H n l] climb.simps [of H n l] split: list.splits)
  qed
qed

text \<open>The last proof node is the sibling below the root, on the left or on the right.\<close>

lemma climb_right:
  assumes "n \<le> l" and "l < 2 ^ s"
  shows "climb H (2 ^ s + n) (2 ^ s + l) h1 h2 ps =
    (if ps = [] then None
     else map_option (\<lambda>(a, b). (hash_children H (last ps) a, hash_children H (last ps) b))
       (climb H n l h1 h2 (butlast ps)))"
  using assms
proof (induction s arbitrary: n l h1 h2 ps)
  case 0
  then show ?case
    by (cases ps) (auto simp: climb.simps)
next
  case (Suc s)
  have half: "(2 ^ Suc s + n) div 2 = 2 ^ s + n div 2" "(2 ^ Suc s + l) div 2 = 2 ^ s + l div 2"
    by simp_all
  have IH: "climb H (2 ^ s + n div 2) (2 ^ s + l div 2) h1 h2 ps =
    (if ps = [] then None
     else map_option (\<lambda>(a, b). (hash_children H (last ps) a, hash_children H (last ps) b))
       (climb H (n div 2) (l div 2) h1 h2 (butlast ps)))"
    if "n \<le> l" "l < 2 * 2 ^ s" for n l h1 h2 ps
    using that by (intro Suc.IH) (auto simp: div_le_mono)
  show ?case
  proof (cases "l = 0")
    case True
    then have "climb H (2 ^ Suc s + n) (2 ^ Suc s + l) h1 h2 ps =
        climb H (2 ^ s + n div 2) (2 ^ s + l div 2) h1 h2 ps"
      using Suc.prems by (subst climb.simps) simp
    moreover have "n div 2 = n" "l div 2 = l"
      using True Suc.prems by simp_all
    ultimately show ?thesis
      using Suc.prems IH [of n l] by simp
  next
    case False
    then show ?thesis
      using Suc.prems
      by (cases ps) (simp_all add: climb.simps [of H "2 * 2 ^ s + n"] climb.simps [of H n l] half IH)
  qed
qed

lemma climb_left:
  assumes "n < 2 ^ s" and "l < 2 ^ s"
  shows "climb H n (2 ^ s + l) h1 h2 ps =
    (if ps = [] then None
     else map_option (\<lambda>(a, b). (a, hash_children H b (last ps)))
       (climb H n (2 ^ s - 1) h1 h2 (butlast ps)))"
  using assms
proof (induction s arbitrary: n l h1 h2 ps)
  case 0
  then show ?case
    by (cases ps) (auto simp: climb.simps)
next
  case (Suc s)
  have half: "(2 ^ Suc s + l) div 2 = 2 ^ s + l div 2" "(2 * 2 ^ s - Suc 0) div 2 = 2 ^ s - Suc 0"
    by (simp, cases "(2 :: nat) ^ s", simp_all)
  have pos: "0 < (2 :: nat) ^ s" by simp
  have lt: "even n \<Longrightarrow> n < 2 ^ Suc s - Suc 0"
    using Suc.prems(1) by (auto elim!: evenE)
  have IH: "climb H (n div 2) (2 ^ s + l div 2) h1 h2 ps =
    (if ps = [] then None
     else map_option (\<lambda>(a, b). (a, hash_children H b (last ps)))
       (climb H (n div 2) (2 ^ s - Suc 0) h1 h2 (butlast ps)))" for h1 h2 ps
    using Suc.prems Suc.IH [of "n div 2" "l div 2"] by auto
  have n0: "2 ^ Suc s - Suc 0 \<noteq> 0"
    using pos unfolding power_Suc by linarith
  show ?case
    using Suc.prems(1) lt n0
    by (cases ps) (simp_all add: climb.simps [of H n "2 * 2 ^ s + l"]
        climb.simps [of H n "2 * 2 ^ s - Suc 0"] half IH trans_less_add1)
qed

lemma strip_ones_eq: "odd q \<Longrightarrow> strip_ones (2 ^ j * q - 1) l = (q - 1, l div 2 ^ j)"
proof (induction j arbitrary: l)
  case 0
  then show ?case
    by (simp add: strip_ones.simps)
next
  case (Suc j)
  have "0 < 2 ^ j * q"
    using Suc.prems by (simp add: odd_pos)
  then obtain r where r: "2 ^ j * q = Suc r"
    using gr0_implies_Suc by blast
  then have e: "2 ^ Suc j * q - 1 = 2 * r + 1"
    by simp
  have "strip_ones (2 ^ Suc j * q - 1) l = strip_ones (2 ^ j * q - 1) (l div 2)"
    unfolding e r by (subst strip_ones.simps) simp
  then show ?case
    using Suc.IH [OF Suc.prems, of "l div 2"] by (simp add: div_mult2_eq)
qed

lemma odd_part:
  fixes m :: nat
  assumes "0 < m"
  obtains j q where "m = 2 ^ j * q" "odd q"
proof -
  have "\<exists>j q. m = 2 ^ j * q \<and> odd q"
    using assms
  proof (induction m rule: less_induct)
    case (less m)
    show ?case
    proof (cases "odd m")
      case True
      then show ?thesis by (intro exI [of _ 0] exI [of _ m]) simp
    next
      case False
      then obtain r where r: "m = 2 * r" by blast
      then obtain j q where "r = 2 ^ j * q" "odd q"
        using less.IH [of r] less.prems by auto
      then show ?thesis
        using r by (intro exI [of _ "Suc j"] exI [of _ q]) simp
    qed
  qed
  then show thesis using that by blast
qed

lemma pred_mult_div:
  assumes "0 < a" and "0 < b"
  shows "(a * b - 1) div a = b - (1 :: nat)"
proof -
  obtain c where c: "b = Suc c"
    using assms(2) gr0_implies_Suc by blast
  have e: "a * b - 1 = (a - 1) + c * a"
    using assms(1) unfolding c by (simp add: mult.commute)
  have "((a - 1) + c * a) div a = c"
    using assms(1) by (subst div_mult_self1) simp_all
  then have "(a * b - 1) div a = c"
    by (simp only: e)
  then show ?thesis
    using c by simp
qed

lemma climb_recon:
  assumes "odd q" and "2 ^ j * q < n"
  shows "climb H (q - 1) ((n - 1) div 2 ^ j) seed seed ps = recon H (2 ^ j * q) n seed ps"
  using assms
proof (induction n arbitrary: q ps rule: less_induct)
  case (less n)
  let ?m = "2 ^ j * q"
  have q: "0 < q" using less.prems(1) by (rule odd_pos)
  have mj: "2 ^ j \<le> ?m" "0 < ?m"
    using q by simp_all
  have n: "1 < n"
    using less.prems(2) mj(2) by linarith
  obtain t where t: "pow2_below n = 2 ^ t" "2 ^ t < n" "n \<le> 2 ^ Suc t"
    using n by (rule pow2_below_exists)
  have "2 ^ j < (2 :: nat) ^ Suc t"
    using less.prems(2) t(3) mj(1) by linarith
  then have jt: "j \<le> t"
    by (metis less_Suc_eq_le nat_power_less_imp_less zero_less_numeral)
  define s where "s = t - j"
  have ts: "(2 :: nat) ^ t = 2 ^ j * 2 ^ s"
    using jt by (simp add: s_def flip: power_add)
  have nl: "(n - 1) div 2 ^ j = 2 ^ s + (n - 1 - 2 ^ t) div 2 ^ j"
  proof -
    have "n - 1 = 2 ^ j * 2 ^ s + (n - 1 - 2 ^ t)"
      using t(2) ts by simp
    then show ?thesis
      by (metis add.commute div_mult_self2 power_not_zero zero_neq_numeral)
  qed
  have rl: "(n - 1 - 2 ^ t) div 2 ^ j < 2 ^ s"
    using t ts by (simp add: less_mult_imp_div_less mult.commute)
  show ?case
  proof (cases "?m \<le> 2 ^ t")
    case True
    then have qs: "q - 1 < 2 ^ s"
      using q ts by simp
    have "climb H (q - 1) (2 ^ s - 1) seed seed ps' = recon H ?m (2 ^ t) seed ps'" for ps'
    proof (cases "?m = 2 ^ t")
      case True
      then have "q = 2 ^ s" using ts by simp
      then have "q = 1" using less.prems(1) by (cases s) auto
      then show ?thesis
        using True \<open>q = 2 ^ s\<close> by (simp add: climb.simps recon.simps)
    next
      case False
      then have "climb H (q - 1) ((2 ^ t - 1) div 2 ^ j) seed seed ps' = recon H ?m (2 ^ t) seed ps'"
        using True t(2) less.prems(1) by (intro less.IH) auto
      moreover have "(2 ^ t - 1) div 2 ^ j = (2 :: nat) ^ s - 1"
        unfolding ts by (rule pred_mult_div) simp_all
      ultimately show ?thesis by simp
    qed
    then show ?thesis
      using climb_left [OF qs rl, of H seed seed ps] less.prems(2) True t(1)
      unfolding nl by (simp add: recon.simps [of H ?m n] Let_def)
  next
    case False
    let ?r = "q - 2 ^ s"
    have m: "?m - 2 ^ t = 2 ^ j * ?r"
      using ts by (simp add: diff_mult_distrib2)
    have qs: "2 ^ s < q" using False ts by simp
    have "s \<noteq> 0"
    proof
      assume s: "s = 0"
      have "2 ^ j * q < 2 ^ j * 2"
        using less.prems(2) t(3) unfolding power_Suc ts s power_0 by linarith
      then show False using qs s by simp
    qed
    then have r: "odd ?r"
      using less.prems(1) qs by simp
    have rn: "2 ^ j * ?r < n - 2 ^ t"
      using less.prems(2) False m by linarith
    have IH: "climb H (?r - 1) ((n - 2 ^ t - 1) div 2 ^ j) seed seed ps' =
        recon H (2 ^ j * ?r) (n - 2 ^ t) seed ps'" for ps'
      using t(2) r rn by (intro less.IH) auto
    have "?r - 1 \<le> (n - 1 - 2 ^ t) div 2 ^ j"
    proof -
      have "2 ^ j * (?r - 1) \<le> n - 1 - 2 ^ t"
        using rn by (simp add: diff_mult_distrib2)
      then show ?thesis
        by (metis div_le_mono nonzero_mult_div_cancel_left power_not_zero zero_neq_numeral)
    qed
    from climb_right [OF this rl, of H seed seed ps] show ?thesis
      using IH less.prems(2) False t(1) qs m
      unfolding nl by (simp add: recon.simps [of H ?m n] Let_def)
  qed
qed

lemma verify_consistency_recon:
  assumes "0 < m" and "m < n"
  shows "verify_consistency H m n r1 r2 pf \<longleftrightarrow>
    (case (if is_power_of_two m then [r1] else []) @ pf of
       [] \<Rightarrow> False | seed # ps \<Rightarrow> recon H m n seed ps = Some (r1, r2))"
proof -
  obtain j q where m: "m = 2 ^ j * q" "odd q"
    using assms(1) by (rule odd_part)
  have "2 ^ j * (q - 1) \<le> n - 1"
    using assms(2) m(1) by (simp add: diff_mult_distrib2)
  then have "q - 1 \<le> (n - 1) div 2 ^ j"
    by (metis div_le_mono nonzero_mult_div_cancel_left power_not_zero zero_neq_numeral)
  then have "finish_roots H (walk_old H (q - 1) ((n - 1) div 2 ^ j) seed seed ps) = recon H m n seed ps"
    for seed ps
    using climb_recon [OF m(2), of j n H seed ps] assms(2) m(1) by (simp add: walk_climb)
  then have "(case walk_old H (q - 1) ((n - 1) div 2 ^ j) seed seed ps of
        None \<Rightarrow> False
      | Some (last_node, hash1, hash2, rest) \<Rightarrow>
          (case walk_new H last_node hash2 rest of
             None \<Rightarrow> False
           | Some (hash2, rest) \<Rightarrow> rest = [] \<and> hash1 = r1 \<and> hash2 = r2)) \<longleftrightarrow>
      recon H m n seed ps = Some (r1, r2)" for seed ps
    by (metis (no_types, lifting) finish_accepts)
  then show ?thesis
    using assms strip_ones_eq [OF m(2), of j "n - 1"]
    by (simp add: verify_consistency_def m(1) Let_def split: list.splits)
qed

lemma recon_split:
  "m < n \<Longrightarrow> ps \<noteq> [] \<Longrightarrow> recon H m n seed ps =
    (if m \<le> pow2_below n
     then map_option (\<lambda>(a, b). (a, hash_children H b (last ps))) (recon H m (pow2_below n) seed (butlast ps))
     else map_option (\<lambda>(a, b). (hash_children H (last ps) a, hash_children H (last ps) b))
       (recon H (m - pow2_below n) (n - pow2_below n) seed (butlast ps)))"
  by (subst recon.simps) (simp add: Let_def)

lemma subproof_split:
  "m < length xs \<Longrightarrow> 1 < length xs \<Longrightarrow> subproof H m xs b =
    (if m \<le> pow2_below (length xs)
     then subproof H m (take (pow2_below (length xs)) xs) b @ [mth H (drop (pow2_below (length xs)) xs)]
     else subproof H (m - pow2_below (length xs)) (drop (pow2_below (length xs)) xs) False
       @ [mth H (take (pow2_below (length xs)) xs)])"
  by (subst subproof.simps) (auto simp: split_point_eq Let_def)

lemma mth_take_beyond:
  assumes "1 < length xs" and "pow2_below (length xs) < m" and "m \<le> length xs"
  shows "mth H (take m xs) = hash_children H (mth H (take (pow2_below (length xs)) xs))
    (mth H (take (m - pow2_below (length xs)) (drop (pow2_below (length xs)) xs)))"
proof -
  have "pow2_below m = pow2_below (length xs)"
    using assms by (rule pow2_below_pow2_between)
  moreover have "1 < m"
    using assms(2) pow2_below_bounds(1) [OF assms(1)] by linarith
  ultimately show ?thesis
    using tlog.mth_take_drop [of m xs H] assms(3) by simp
qed

lemma recon_subproof:
  "0 < m \<Longrightarrow> m \<le> length xs \<Longrightarrow> \<exists>seed ps. subproof H m xs False = seed # ps \<and>
     recon H m (length xs) seed ps = Some (mth H (take m xs), mth H xs)"
proof (induction "length xs" arbitrary: m xs rule: less_induct)
  case less
  show ?case
  proof (cases "m = length xs")
    case True
    then show ?thesis
      by (simp add: subproof.simps recon.simps)
  next
    case False
    let ?k = "pow2_below (length xs)"
    have m: "m < length xs" and n: "1 < length xs"
      using False less.prems by linarith+
    note k = pow2_below_bounds [OF n]
    show ?thesis
    proof (cases "m \<le> ?k")
      case True
      then obtain seed ps where "subproof H m (take ?k xs) False = seed # ps"
          "recon H m ?k seed ps = Some (mth H (take m xs), mth H (take ?k xs))"
        using less.hyps [of "take ?k xs" m] less.prems(1) k(2) by (auto simp: min_def)
      with True m n show ?thesis
        by (simp add: subproof_split recon_split tlog.mth_split [OF n])
    next
      case False
      then obtain seed ps where "subproof H (m - ?k) (drop ?k xs) False = seed # ps"
          "recon H (m - ?k) (length xs - ?k) seed ps = Some (mth H (take (m - ?k) (drop ?k xs)), mth H (drop ?k xs))"
        using less.hyps [of "drop ?k xs" "m - ?k"] m k(1,2) diff_le_mono [of m "length xs" ?k] by auto
      with False m n show ?thesis
        by (simp add: subproof_split recon_split tlog.mth_split [OF n] mth_take_beyond)
    qed
  qed
qed

lemma recon_subproof_pow2:
  "2 ^ i \<le> length xs \<Longrightarrow> recon H (2 ^ i) (length xs) (mth H (take (2 ^ i) xs)) (subproof H (2 ^ i) xs True) =
     Some (mth H (take (2 ^ i) xs), mth H xs)"
proof (induction "length xs" arbitrary: xs rule: less_induct)
  case less
  show ?case
  proof (cases "2 ^ i = length xs")
    case True
    then show ?thesis
      by (simp add: subproof.simps recon.simps)
  next
    case False
    let ?k = "pow2_below (length xs)"
    have m: "2 ^ i < length xs"
      using False less.prems by linarith
    then have n: "1 < length xs"
      using less_le_trans [of 0 "2 ^ i" "length xs"] zero_less_power [of "2 :: nat" i] by linarith
    obtain t where t: "?k = 2 ^ t" "length xs \<le> 2 ^ Suc t"
      using n by (rule pow2_below_exists)
    have "(2 :: nat) ^ i < 2 ^ Suc t"
      using m t(2) by linarith
    then have "i \<le> t"
      by (metis less_Suc_eq_le nat_power_less_imp_less zero_less_numeral)
    then have "2 ^ i \<le> ?k"
      unfolding t(1) by (intro power_increasing) auto
    moreover have "recon H (2 ^ i) ?k (mth H (take (2 ^ i) xs)) (subproof H (2 ^ i) (take ?k xs) True) =
        Some (mth H (take (2 ^ i) xs), mth H (take ?k xs))"
      using less.hyps [of "take ?k xs"] calculation pow2_below_bounds(2) [OF n] by (simp add: min_def)
    ultimately show ?thesis
      using m n by (simp add: subproof_split recon_split tlog.mth_split [OF n])
  qed
qed

lemma subproof_bool:
  "0 < m \<Longrightarrow> m < length xs \<Longrightarrow> \<nexists>i. m = 2 ^ i \<Longrightarrow> subproof H m xs True = subproof H m xs False"
proof (induction "length xs" arbitrary: xs rule: less_induct)
  case less
  let ?k = "pow2_below (length xs)"
  have n: "1 < length xs"
    using less.prems by linarith
  have "m \<noteq> ?k"
    using less.prems(3) by (auto simp: pow2_below_def)
  then have "m \<le> ?k \<Longrightarrow> subproof H m (take ?k xs) True = subproof H m (take ?k xs) False"
    using less.hyps [of "take ?k xs"] less.prems pow2_below_bounds(2) [OF n] by (simp add: min_def)
  then show ?case
    using less.prems n by (simp add: subproof_split)
qed

text \<open>The child pairs hashed on the way to the new root.\<close>

function recon_pairs :: "(bytes \<Rightarrow> hash32) \<Rightarrow> nat \<Rightarrow> nat \<Rightarrow> hash32 \<Rightarrow> hash32 list \<Rightarrow> (hash32 \<times> hash32) list" where
  "recon_pairs H m n seed ps =
    (if m \<ge> n \<or> ps = [] then []
     else let k = pow2_below n in
       if m \<le> k then
         (case recon H m k seed (butlast ps) of Some (a, b) \<Rightarrow> [(b, last ps)] | None \<Rightarrow> [])
         @ recon_pairs H m k seed (butlast ps)
       else
         (case recon H (m - k) (n - k) seed (butlast ps) of Some (a, b) \<Rightarrow> [(last ps, b)] | None \<Rightarrow> [])
         @ recon_pairs H (m - k) (n - k) seed (butlast ps))"
  by auto
termination
  by (relation "measure (\<lambda>(H, m, n, seed, ps). length ps)") auto

declare recon_pairs.simps [simp del]

definition consistency_pairs :: "(bytes \<Rightarrow> hash32) \<Rightarrow> nat \<Rightarrow> nat \<Rightarrow> hash32 \<Rightarrow> hash32 list \<Rightarrow> (hash32 \<times> hash32) list" where
  "consistency_pairs H m n old_root pf =
    (case (if is_power_of_two m then [old_root] else []) @ pf of
       [] \<Rightarrow> [] | seed # ps \<Rightarrow> recon_pairs H m n seed ps)"

lemma recon_sound:
  assumes "0 < m" and "m \<le> length xs" and "recon H m (length xs) seed ps = Some (a, mth H xs)"
    and "inj_on (\<lambda>(l, r). hash_children H l r)
      (set (tree_pairs (mth H) xs) \<union> set (recon_pairs H m (length xs) seed ps))"
  shows "a = mth H (take m xs)"
  using assms
proof (induction "length xs" arbitrary: m xs ps a rule: less_induct)
  case less
  show ?case
  proof (cases "m = length xs")
    case True
    then show ?thesis
      using less.prems(3) by (auto simp: recon.simps split: if_splits)
  next
    case False
    let ?k = "pow2_below (length xs)"
    let ?L = "mth H (take ?k xs)" and ?R = "mth H (drop ?k xs)"
    have m: "m < length xs" and n: "1 < length xs"
      using False less.prems(1,2) by linarith+
    note k = pow2_below_bounds [OF n]
    have p: "ps \<noteq> []"
      using less.prems(3) m by (auto simp: recon.simps)
    have px: "set (tree_pairs (mth H) xs) =
        insert (?L, ?R) (set (tree_pairs (mth H) (take ?k xs)) \<union> set (tree_pairs (mth H) (drop ?k xs)))"
      using n by (simp add: tree_pairs.simps [of "mth H" xs] Let_def)
    show ?thesis
    proof (cases "m \<le> ?k")
      case True
      obtain b where b: "recon H m ?k seed (butlast ps) = Some (a, b)"
          "hash_children H b (last ps) = mth H xs"
        using less.prems(3) m p True by (auto simp: recon_split)
      have pp: "set (recon_pairs H m (length xs) seed ps) =
          insert (b, last ps) (set (recon_pairs H m ?k seed (butlast ps)))"
        using m p True b by (simp add: recon_pairs.simps [of H m "length xs"] Let_def)
      have "(b, last ps) = (?L, ?R)"
        using b(2) tlog.mth_split [OF n, of H] px pp by (intro inj_onD [OF less.prems(4)]) auto
      then have "a = mth H (take m (take ?k xs))"
        using b True k less.prems(1,4) px pp
        by (intro less.hyps) (auto elim!: inj_on_subset simp: min_def)
      then show ?thesis
        using True by (simp add: min_def)
    next
      case False
      obtain a' b where b: "recon H (m - ?k) (length xs - ?k) seed (butlast ps) = Some (a', b)"
          "hash_children H (last ps) b = mth H xs" "a = hash_children H (last ps) a'"
        using less.prems(3) m p False by (auto simp: recon_split)
      have pp: "set (recon_pairs H m (length xs) seed ps) =
          insert (last ps, b) (set (recon_pairs H (m - ?k) (length xs - ?k) seed (butlast ps)))"
        using m p False b by (simp add: recon_pairs.simps [of H m "length xs"] Let_def)
      have e: "(last ps, b) = (?L, ?R)"
        using b(2) tlog.mth_split [OF n, of H] px pp by (intro inj_onD [OF less.prems(4)]) auto
      then have "a' = mth H (take (m - ?k) (drop ?k xs))"
        using b False k less.prems(2,4) px pp
        by (intro less.hyps) (auto elim!: inj_on_subset)
      then show ?thesis
        using False n less.prems(2) b(3) e by (simp add: mth_take_beyond)
    qed
  qed
qed

section \<open>Properties\<close>

text \<open>C4: For every leaf of a log of at most $2^{63}$ leaves the log produces an inclusion
  proof, and the verifier returns and accepts it against the root of the log.\<close>

theorem inclusion_complete:
  assumes "i < log_len l" and "log_len l \<le> 2 ^ 63"
  shows "\<exists>pf. inclusion_proof H l i = Inr pf \<and>
    verify_inclusion H (log_leaves l ! i) i (log_len l) pf (log_root H l) = Some True"
  using assms
  by (simp add: inclusion_proof_def verify_inclusion_def log_len_def log_root_def rebuild_root_path)

theorem inclusion_complete_witness:
  "\<exists>pf. inclusion_proof toy_hash \<lparr>log_leaves = [digest 1, digest 2, digest 3]\<rparr> 2 = Inr pf \<and>
    verify_inclusion toy_hash (digest 3) 2 3 pf (log_root toy_hash \<lparr>log_leaves = [digest 1, digest 2, digest 3]\<rparr>)
      = Some True"
  using inclusion_complete [of 2 "\<lparr>log_leaves = [digest 1, digest 2, digest 3]\<rparr>" toy_hash]
  by (simp add: log_len_def numeral_3_eq_3)

text \<open>C3: An inclusion proof that the verifier accepts against the root of a list of leaves
  proves the leaf at that index, and it is the proof the log generates, unless two of the
  child pairs hashed by the log and by the verifier collide.\<close>

theorem inclusion_sound:
  assumes "verify_inclusion H leaf i (length xs) pf (mth H xs) = Some True"
    and "inj_on (\<lambda>(l, r). hash_children H l r)
      (set (tree_pairs (mth H) xs) \<union> set (rebuild_pairs H i (length xs) leaf pf))"
  shows "i < length xs \<and> leaf = xs ! i \<and> pf = path H i xs"
proof -
  have "i < length xs" and "rebuild_root H i (length xs) leaf pf = Some (Some (mth H xs))"
    using assms(1) by (auto simp: verify_inclusion_def split: if_splits)
  with rebuild_root_sound [OF this assms(2)] show ?thesis by blast
qed

theorem inclusion_sound_witness:
  "verify_inclusion toy_hash (digest 1) 0 2 [digest 2] (mth toy_hash [digest 1, digest 2]) = Some True \<and>
   [digest 2] = path toy_hash 0 [digest 1, digest 2]"
proof -
  have p: "pow2_below 2 = 1"
    using pow2_below_unique [of 0 2] by simp
  have r: "rebuild_root toy_hash 0 2 (digest 1) [digest 2] = Some (Some (hash_children toy_hash (digest 1) (digest 2)))"
    by (simp add: rebuild_root.simps split_point_usize_small p)
  have m: "mth toy_hash [digest 1, digest 2] = hash_children toy_hash (digest 1) (digest 2)"
    using tlog.mth_append [of "[digest 1]" 0 "[digest 2]" toy_hash] by (simp add: tlog.mth_single)
  have v: "verify_inclusion toy_hash (digest 1) 0 2 [digest 2] (mth toy_hash [digest 1, digest 2]) = Some True"
    by (simp add: verify_inclusion_def r m)
  have "set (tree_pairs (mth toy_hash) [digest 1, digest 2]) = {(digest 1, digest 2)}"
    by (simp add: tree_pairs.simps p tlog.mth_single Let_def numeral_2_eq_2 [symmetric])
  moreover have "set (rebuild_pairs toy_hash 0 2 (digest 1) [digest 2]) = {(digest 1, digest 2)}"
    by (simp add: rebuild_pairs.simps rebuild_root.simps p Let_def)
  ultimately show ?thesis
    using inclusion_sound [of toy_hash "digest 1" 0 "[digest 1, digest 2]" "[digest 2]"] v
    by (simp add: numeral_2_eq_2 [symmetric])
qed

text \<open>C2: For every earlier size of a log, its consistency proof is accepted by the verifier
  for the roots of the two sizes; the iterative verifier agrees with the recursive prover.\<close>

theorem consistency_complete:
  assumes "m \<le> log_len l"
  shows "\<exists>pf. consistency_proof H l m = Inr pf \<and>
    verify_consistency H m (log_len l) (mth H (take m (log_leaves l))) (log_root H l) pf"
proof -
  let ?xs = "log_leaves l"
  consider "m = 0" | "m = length ?xs" | "0 < m" "m < length ?xs"
    using assms unfolding log_len_def by linarith
  then show ?thesis
  proof cases
    case 3
    have "verify_consistency H m (length ?xs) (mth H (take m ?xs)) (mth H ?xs) (subproof H m ?xs True)"
    proof (cases "is_power_of_two m")
      case True
      then obtain i where "m = 2 ^ i"
        by (auto simp: is_power_of_two_iff)
      then show ?thesis
        using True 3 recon_subproof_pow2 [of i ?xs H] by (simp add: verify_consistency_recon)
    next
      case False
      then have "subproof H m ?xs True = subproof H m ?xs False"
        using 3 by (intro subproof_bool) (auto simp: is_power_of_two_iff)
      then show ?thesis
        using False 3 recon_subproof [of m ?xs H] by (auto simp: verify_consistency_recon)
    qed
    then show ?thesis
      using 3 by (simp add: consistency_proof_def log_len_def log_root_def)
  qed (auto simp: consistency_proof_def verify_consistency_def log_len_def log_root_def)
qed

theorem consistency_complete_witness:
  "\<exists>pf. consistency_proof toy_hash \<lparr>log_leaves = [digest 1, digest 2, digest 3]\<rparr> 2 = Inr pf \<and>
    verify_consistency toy_hash 2 3 (mth toy_hash [digest 1, digest 2])
      (log_root toy_hash \<lparr>log_leaves = [digest 1, digest 2, digest 3]\<rparr>) pf"
  using consistency_complete [of 2 "\<lparr>log_leaves = [digest 1, digest 2, digest 3]\<rparr>" toy_hash]
  by (simp add: log_len_def numeral_3_eq_3)

text \<open>C1: When the verifier accepts a consistency proof from a non-empty old tree to the root
  of a list of leaves, the old root is the root of its first leaves: nothing was rewritten,
  unless two of the child pairs hashed by the log and by the verifier collide.\<close>

theorem consistency_sound:
  assumes "0 < m" and "verify_consistency H m (length xs) old_root (mth H xs) pf"
    and "inj_on (\<lambda>(l, r). hash_children H l r)
      (set (tree_pairs (mth H) xs) \<union> set (consistency_pairs H m (length xs) old_root pf))"
  shows "m \<le> length xs \<and> old_root = mth H (take m xs)"
proof (cases "m < length xs")
  case True
  then obtain seed ps where n: "(if is_power_of_two m then [old_root] else []) @ pf = seed # ps"
      and r: "recon H m (length xs) seed ps = Some (old_root, mth H xs)"
    using assms(1,2) by (auto simp: verify_consistency_recon split: list.splits)
  have "consistency_pairs H m (length xs) old_root pf = recon_pairs H m (length xs) seed ps"
    using n by (simp add: consistency_pairs_def)
  with assms(3) recon_sound [OF assms(1) _ r] True show ?thesis by simp
next
  case False
  then have "m = length xs" "old_root = mth H xs"
    using assms(1,2) by (auto simp: verify_consistency_def split: if_splits)
  then show ?thesis by simp
qed

theorem consistency_sound_witness:
  "verify_consistency toy_hash 1 2 (digest 1) (mth toy_hash [digest 1, digest 2]) [digest 2] \<and>
   digest 1 = mth toy_hash (take 1 [digest 1, digest 2])"
proof -
  have p: "pow2_below 2 = 1"
    using pow2_below_unique [of 0 2] by simp
  have w: "is_power_of_two 1"
    unfolding is_power_of_two_iff by (rule exI [of _ 0]) simp
  have m: "mth toy_hash [digest 1, digest 2] = hash_children toy_hash (digest 1) (digest 2)"
    using tlog.mth_append [of "[digest 1]" 0 "[digest 2]" toy_hash] by (simp add: tlog.mth_single)
  have r: "recon toy_hash 1 2 (digest 1) [digest 2] =
      Some (digest 1, hash_children toy_hash (digest 1) (digest 2))"
    by (simp add: recon_split recon.simps p)
  have v: "verify_consistency toy_hash 1 2 (digest 1) (mth toy_hash [digest 1, digest 2]) [digest 2]"
    using w r by (simp add: verify_consistency_recon m)
  have "set (tree_pairs (mth toy_hash) [digest 1, digest 2]) = {(digest 1, digest 2)}"
    by (simp add: tree_pairs.simps p tlog.mth_single Let_def numeral_2_eq_2 [symmetric])
  moreover have "set (consistency_pairs toy_hash 1 2 (digest 1) [digest 2]) = {(digest 1, digest 2)}"
    using w by (simp add: consistency_pairs_def recon_pairs.simps recon.simps p Let_def)
  ultimately show ?thesis
    using consistency_sound [of 1 toy_hash "[digest 1, digest 2]" "digest 1" "[digest 2]"] v
    by (simp add: numeral_2_eq_2 [symmetric])
qed

text \<open>C13: The loop of the split point, run on a 64-bit size as the verifier does, ends exactly
  for the sizes up to $2^{63}$; it then gives the largest power of two below the size.\<close>

theorem split_point_terminates:
  "1 < n \<Longrightarrow> split_point_usize n = (if n \<le> 2 ^ 63 then Some (pow2_below n) else None)"
  using split_point_usize_small [of n] split_point_usize_large [of n] by simp

theorem split_point_terminates_witness:
  "split_point_usize 5 = Some 4 \<and> split_point_usize (2 ^ 63 + 1) = None"
  using split_point_terminates [of 5] split_point_terminates [of "2 ^ 63 + 1"] pow2_below_unique [of 2 5]
  by simp

text \<open>C14: \<open>verify_inclusion\<close> never returns on a non-empty proof that claims a tree of more than
  $2^{63}$ leaves, whatever the hashes are.\<close>

theorem verify_inclusion_diverges:
  assumes "2 ^ 63 < n" and "i < n" and "pf \<noteq> []"
  shows "verify_inclusion H leaf i n pf root = None"
proof -
  have "rebuild_root H i n leaf pf = None"
    using assms by (subst rebuild_root.simps) (simp add: split_point_usize_large)
  then show ?thesis
    using assms(2) by (simp add: verify_inclusion_def)
qed

theorem verify_inclusion_diverges_witness:
  "verify_inclusion toy_hash (digest 1) 0 (2 ^ 63 + 1) [digest 2] (digest 3) = None"
  using verify_inclusion_diverges [of "2 ^ 63 + 1" 0 "[digest 2]"] by simp

end
