(* ===== verification/TlogTiles.thy ===== *)
theory TlogTiles
  imports TlogMerkle Cursor "HOL-Library.Product_Lexorder"
begin

unbundle bit_operations_syntax

text \<open>
  The tile files of the transparency log, \<open>tlog/tiles.rs\<close>. The log directory is a map from
  tile coordinates (level, index, width) to file contents together with the tree size of the
  checkpoint; the width 256 stands for the full tile, every other width for the partial
  variant \<open>.p/W\<close>. A write session reads that map and produces the list of file operations
  of its flush, so that a crash is a prefix of the list. Failing I/O is not modelled; a
  missing or short file is an error value.
\<close>

section \<open>Files and operations on them\<close>

definition TILE_WIDTH :: nat where "TILE_WIDTH = 256"
definition TILE_HEIGHT_BITS :: nat where "TILE_HEIGHT_BITS = 8"
definition HASH_LEN :: nat where "HASH_LEN = 32"
definition MAX_TILE_LEVELS :: nat where "MAX_TILE_LEVELS = 9"

record checkpoint =
  cp_origin :: rstring
  cp_size :: nat
  cp_root :: hash32

record log_dir =
  tile_files :: "nat \<times> nat \<times> nat \<Rightarrow> bytes option"
  checkpoint_file :: "checkpoint option"

datatype fs_op =
    WriteTile "nat \<times> nat \<times> nat" bytes
  | RemoveTile "nat \<times> nat \<times> nat"
  | WriteCheckpoint checkpoint

fun run_op :: "log_dir \<Rightarrow> fs_op \<Rightarrow> log_dir" where
  "run_op d (WriteTile k bs) = d\<lparr>tile_files := (tile_files d)(k := Some bs)\<rparr>"
| "run_op d (RemoveTile k) = d\<lparr>tile_files := (tile_files d)(k := None)\<rparr>"
| "run_op d (WriteCheckpoint cp) = d\<lparr>checkpoint_file := Some cp\<rparr>"

definition run_ops :: "log_dir \<Rightarrow> fs_op list \<Rightarrow> log_dir" where
  "run_ops d ops = foldl run_op d ops"

definition log_size :: "log_dir \<Rightarrow> nat" where
  "log_size d = (case checkpoint_file d of None \<Rightarrow> 0 | Some c \<Rightarrow> cp_size c)"

text \<open>\<open>Ok(bytes) if bytes.len() >= need\<close>.\<close>

definition long_enough :: "nat \<Rightarrow> bytes option \<Rightarrow> bytes option" where
  "long_enough need f = (case f of Some bs \<Rightarrow> if need \<le> length bs then Some bs else None | None \<Rightarrow> None)"

definition read_tile_at_least :: "log_dir \<Rightarrow> nat \<Rightarrow> nat \<Rightarrow> nat \<Rightarrow> error + bytes" where
  "read_tile_at_least d level n cnt =
    (let need = cnt * HASH_LEN in
     case long_enough need (tile_files d (level, n, TILE_WIDTH)) of
       Some bs \<Rightarrow> Inr bs
     | None \<Rightarrow>
         (case (if cnt > 0 \<and> cnt < TILE_WIDTH then long_enough need (tile_files d (level, n, cnt)) else None) of
            Some bs \<Rightarrow> Inr bs
          | None \<Rightarrow>
              (case find (\<lambda>w. tile_files d (level, n, w) \<noteq> None) [cnt..<TILE_WIDTH] of
                 Some w \<Rightarrow>
                   (case long_enough need (tile_files d (level, n, w)) of
                      Some bs \<Rightarrow> Inr bs | None \<Rightarrow> Inl (Reject ''NotFound''))
               | None \<Rightarrow> Inl (Reject ''NotFound''))))"

definition prune_partial_variants :: "log_dir \<Rightarrow> nat \<Rightarrow> nat \<Rightarrow> nat option \<Rightarrow> fs_op list" where
  "prune_partial_variants d level n keep =
    map (\<lambda>w. RemoveTile (level, n, w))
      (filter (\<lambda>w. tile_files d (level, n, w) \<noteq> None \<and> Some w \<noteq> keep) [0..<TILE_WIDTH])"

text \<open>\<open>as_chunks::<HASH_LEN>()\<close>: the whole 32-byte chunks.\<close>

function bytes_to_hashes :: "bytes \<Rightarrow> hash32 list" where
  "bytes_to_hashes bs =
    (if length bs < HASH_LEN then []
     else from_bytes (take HASH_LEN bs) # bytes_to_hashes (drop HASH_LEN bs))"
  by auto
termination
  by (relation "measure length") (auto simp: HASH_LEN_def)

declare bytes_to_hashes.simps [simp del]

text \<open>One round of \<open>fold_perfect\<close> hashes neighbours; the loop halves the list until one is left.\<close>

fun pair_up :: "(bytes \<Rightarrow> hash32) \<Rightarrow> hash32 list \<Rightarrow> hash32 list" where
  "pair_up H (a # b # hs) = hash_children H a b # pair_up H hs"
| "pair_up H _ = []"

lemma length_pair_up [simp]: "length (pair_up H hs) = length hs div 2"
  by (induction H hs rule: pair_up.induct) auto

function fold_perfect :: "(bytes \<Rightarrow> hash32) \<Rightarrow> hash32 list \<Rightarrow> hash32" where
  "fold_perfect H level = (if length level > 1 then fold_perfect H (pair_up H level) else level ! 0)"
  by auto
termination
  by (relation "measure (\<lambda>(H, level). length level)") auto

declare fold_perfect.simps [simp del]

section \<open>The write session\<close>

record tile_session =
  s_tiles :: "nat \<times> nat \<Rightarrow> bytes option"
  s_dirty :: "(nat \<times> nat) list"
  s_count_open :: "nat list"
  s_count :: "nat list"

definition session_open :: "nat \<Rightarrow> tile_session" where
  "session_open old =
    (let count_open = map (\<lambda>level. let shift = TILE_HEIGHT_BITS * level in
           if shift \<ge> 64 then 0 else old div 2 ^ shift) [0..<MAX_TILE_LEVELS]
     in \<lparr>s_tiles = (\<lambda>_. None), s_dirty = [], s_count_open = count_open, s_count = count_open\<rparr>)"

definition ensure_loaded :: "log_dir \<Rightarrow> tile_session \<Rightarrow> nat \<Rightarrow> nat \<Rightarrow> error + tile_session" where
  "ensure_loaded d s level tile_index =
    (if s_tiles s (level, tile_index) \<noteq> None then Inr s
     else
       let available = s_count_open s ! level - tile_index * TILE_WIDTH;
           width = min TILE_WIDTH available
       in if width > 0 then
            res_bind (read_tile_at_least d level tile_index width) (\<lambda>disk.
              if length disk < width * HASH_LEN then Inl (Reject ''InvalidData'')
              else Inr (s\<lparr>s_tiles := (s_tiles s)((level, tile_index) := Some (take (width * HASH_LEN) disk))\<rparr>))
          else Inr (s\<lparr>s_tiles := (s_tiles s)((level, tile_index) := Some [])\<rparr>))"

text \<open>\<open>resize\<close> with zeros, then overwrite one 32-byte slot.\<close>

definition put_hash :: "bytes \<Rightarrow> nat \<Rightarrow> hash32 \<Rightarrow> bytes" where
  "put_hash tile at hash =
    (let tile = (if length tile < (at + 1) * HASH_LEN
                then tile @ replicate ((at + 1) * HASH_LEN - length tile) 0 else tile)
     in take (at * HASH_LEN) tile @ as_bytes hash @ drop ((at + 1) * HASH_LEN) tile)"

definition set_stored :: "log_dir \<Rightarrow> tile_session \<Rightarrow> nat \<Rightarrow> nat \<Rightarrow> hash32 \<Rightarrow> error + tile_session" where
  "set_stored d s level i hash =
    (let tile_index = i div TILE_WIDTH in
     res_bind (ensure_loaded d s level tile_index) (\<lambda>s.
       let tile = (case s_tiles s (level, tile_index) of Some b \<Rightarrow> b | None \<Rightarrow> []);
           tile' = put_hash tile (i mod TILE_WIDTH) hash
       in Inr (s\<lparr>s_tiles := (s_tiles s)((level, tile_index) := Some tile'),
                 s_dirty := List.insert (level, tile_index) (s_dirty s),
                 s_count := (if i + 1 > s_count s ! level then (s_count s)[level := i + 1] else s_count s)\<rparr>)))"

definition read_stored :: "log_dir \<Rightarrow> tile_session \<Rightarrow> nat \<Rightarrow> nat \<Rightarrow> error + tile_session \<times> hash32" where
  "read_stored d s level i =
    (let tile_index = i div TILE_WIDTH; at = i mod TILE_WIDTH in
     res_bind (ensure_loaded d s level tile_index) (\<lambda>s.
       let tile = (case s_tiles s (level, tile_index) of Some b \<Rightarrow> b | None \<Rightarrow> [])
       in if (at + 1) * HASH_LEN \<le> length tile
          then Inr (s, from_bytes (slice tile (at * HASH_LEN) ((at + 1) * HASH_LEN)))
          else Inl (Panic ''range end index out of range for slice'')))"

definition full_tile_hashes :: "log_dir \<Rightarrow> tile_session \<Rightarrow> nat \<Rightarrow> nat \<Rightarrow> error + tile_session \<times> hash32 list" where
  "full_tile_hashes d s level tile_index =
    res_bind
      (case s_tiles s (level, tile_index) of
         Some tile \<Rightarrow> Inr (s, tile)
       | None \<Rightarrow>
           (case tile_files d (level, tile_index, TILE_WIDTH) of
              None \<Rightarrow> Inl (Reject ''NotFound'')
            | Some disk \<Rightarrow> Inr (s\<lparr>s_tiles := (s_tiles s)((level, tile_index) := Some disk)\<rparr>, disk)))
      (\<lambda>(s, tile).
        if length tile < TILE_WIDTH * HASH_LEN then Inl (Reject ''InvalidData'')
        else Inr (s, bytes_to_hashes (take (TILE_WIDTH * HASH_LEN) tile)))"

function cascade :: "(bytes \<Rightarrow> hash32) \<Rightarrow> log_dir \<Rightarrow> tile_session \<Rightarrow> nat \<Rightarrow> nat \<Rightarrow> error + tile_session" where
  "cascade H d s level tile_index =
    (let next_level = level + 1 in
     if next_level \<ge> MAX_TILE_LEVELS then Inr s
     else
       res_bind (full_tile_hashes d s level tile_index) (\<lambda>(s, hs).
       res_bind (set_stored d s next_level tile_index (fold_perfect H hs)) (\<lambda>s.
         if tile_index mod TILE_WIDTH = TILE_WIDTH - 1
         then cascade H d s next_level (tile_index div TILE_WIDTH) else Inr s)))"
  by auto
termination
  by (relation "measure (\<lambda>(H, d, s, level, t). MAX_TILE_LEVELS - level)") auto

declare cascade.simps [simp del]

definition push_leaf :: "(bytes \<Rightarrow> hash32) \<Rightarrow> log_dir \<Rightarrow> tile_session \<Rightarrow> nat \<Rightarrow> hash32 \<Rightarrow> error + tile_session" where
  "push_leaf H d s i leaf =
    res_bind (set_stored d s 0 i leaf) (\<lambda>s.
      if i mod TILE_WIDTH = TILE_WIDTH - 1 then cascade H d s 0 (i div TILE_WIDTH) else Inr s)"

fun push_leaves :: "(bytes \<Rightarrow> hash32) \<Rightarrow> log_dir \<Rightarrow> tile_session \<Rightarrow> nat \<Rightarrow> hash32 list \<Rightarrow> error + tile_session \<times> nat" where
  "push_leaves H d s i [] = Inr (s, i)"
| "push_leaves H d s i (h # hs) = res_bind (push_leaf H d s i h) (\<lambda>s. push_leaves H d s (i + 1) hs)"

fun read_children :: "log_dir \<Rightarrow> tile_session \<Rightarrow> nat \<Rightarrow> nat list \<Rightarrow> error + tile_session \<times> hash32 list" where
  "read_children d s level [] = Inr (s, [])"
| "read_children d s level (i # is) =
    res_bind (read_stored d s level i) (\<lambda>(s, h).
    res_bind (read_children d s level is) (\<lambda>(s, hs). Inr (s, h # hs)))"

definition perfect_hash :: "(bytes \<Rightarrow> hash32) \<Rightarrow> log_dir \<Rightarrow> tile_session \<Rightarrow> nat \<Rightarrow> nat \<Rightarrow> error + tile_session \<times> hash32" where
  "perfect_hash H d s tree_level idx =
    (let tile_level = tree_level div TILE_HEIGHT_BITS; j = tree_level mod TILE_HEIGHT_BITS in
     if j = 0 then read_stored d s tile_level idx
     else
       let base = idx * 2 ^ j in
       res_bind (read_children d s tile_level (map (\<lambda>t. base + t) [0..<2 ^ j])) (\<lambda>(s, children).
         Inr (s, fold_perfect H children)))"

text \<open>The loop \<open>for tree_level in (0..64).rev()\<close>; the first argument counts the levels left.\<close>

fun head_subtrees :: "(bytes \<Rightarrow> hash32) \<Rightarrow> log_dir \<Rightarrow> tile_session \<Rightarrow> nat \<Rightarrow> nat \<Rightarrow> nat \<Rightarrow>
    error + tile_session \<times> hash32 list" where
  "head_subtrees H d s 0 at left_over = Inr (s, [])"
| "head_subtrees H d s (Suc tree_level) at left_over =
    (if left_over AND 2 ^ tree_level \<noteq> 0 then
       res_bind (perfect_hash H d s tree_level (at div 2 ^ tree_level)) (\<lambda>(s, h).
       res_bind (head_subtrees H d s tree_level (at + 2 ^ tree_level) (left_over XOR 2 ^ tree_level))
         (\<lambda>(s, hs). Inr (s, h # hs)))
     else head_subtrees H d s tree_level at left_over)"

definition tree_head :: "(bytes \<Rightarrow> hash32) \<Rightarrow> log_dir \<Rightarrow> tile_session \<Rightarrow> nat \<Rightarrow> error + tile_session \<times> hash32" where
  "tree_head H d s n =
    res_bind (head_subtrees H d s 64 0 n) (\<lambda>(s, subtrees).
      if subtrees = [] then Inl (Panic ''n > 0 has at least one subtree'')
      else Inr (s, fold (\<lambda>left acc. hash_children H left acc) (rev (butlast subtrees)) (last subtrees)))"

text \<open>The flush of one dirty tile: write the new width, then remove the others.\<close>

definition flush_tile :: "log_dir \<Rightarrow> tile_session \<Rightarrow> nat \<times> nat \<Rightarrow> fs_op list" where
  "flush_tile d s key =
    (let (level, tile_index) = key;
         available = s_count s ! level - tile_index * TILE_WIDTH;
         width = min TILE_WIDTH available;
         tile = (case s_tiles s key of Some b \<Rightarrow> b | None \<Rightarrow> []);
         write_op = WriteTile (level, tile_index, width) (take (width * HASH_LEN) tile);
         keep = (if width = TILE_WIDTH then None else Some width)
     in write_op # prune_partial_variants (run_op d write_op) level tile_index keep)"

fun flush_tiles :: "log_dir \<Rightarrow> tile_session \<Rightarrow> (nat \<times> nat) list \<Rightarrow> fs_op list" where
  "flush_tiles d s [] = []"
| "flush_tiles d s (key # keys) =
    (let ops = flush_tile d s key in ops @ flush_tiles (run_ops d ops) s keys)"

definition session_flush :: "log_dir \<Rightarrow> tile_session \<Rightarrow> fs_op list" where
  "session_flush d s = flush_tiles d s (sort (s_dirty s))"

section \<open>The log\<close>

definition append_leaf_hashes ::
    "(bytes \<Rightarrow> hash32) \<Rightarrow> rstring \<Rightarrow> log_dir \<Rightarrow> hash32 list \<Rightarrow> error + checkpoint \<times> fs_op list" where
  "append_leaf_hashes H origin d hashes =
    (let old = log_size d in
     res_bind (push_leaves H d (session_open old) old hashes) (\<lambda>(s, new).
     res_bind (if new = 0 then Inr (s, empty_root H) else tree_head H d s new) (\<lambda>(s, root).
       let cp = \<lparr>cp_origin = origin, cp_size = new, cp_root = root\<rparr>
       in Inr (cp, session_flush d s @ [WriteCheckpoint cp]))))"

definition append_leaf_data ::
    "(bytes \<Rightarrow> hash32) \<Rightarrow> rstring \<Rightarrow> log_dir \<Rightarrow> bytes list \<Rightarrow> error + checkpoint \<times> fs_op list" where
  "append_leaf_data H origin d leaf_data = append_leaf_hashes H origin d (map (hash_leaf H) leaf_data)"

definition read_tile_hashes :: "log_dir \<Rightarrow> nat \<Rightarrow> nat \<Rightarrow> nat \<Rightarrow> error + hash32 list" where
  "read_tile_hashes d level n cnt =
    res_bind (read_tile_at_least d level n cnt) (\<lambda>bs.
      if length bs < cnt * HASH_LEN then Inl (Reject ''InvalidData'')
      else Inr (take cnt (bytes_to_hashes bs)))"

definition load_leaves :: "log_dir \<Rightarrow> error + hash32 list" where
  "load_leaves d =
    (let sz = log_size d; full = sz div TILE_WIDTH; rem = sz mod TILE_WIDTH in
     res_bind (res_map (\<lambda>n. read_tile_hashes d 0 n TILE_WIDTH) [0..<full]) (\<lambda>parts.
     if rem > 0 then res_bind (read_tile_hashes d 0 full rem) (\<lambda>last_part. Inr (concat parts @ last_part))
     else Inr (concat parts)))"

text \<open>The whole-tree builder.\<close>

definition write_tile :: "(bytes \<Rightarrow> hash32) \<Rightarrow> log_dir \<Rightarrow> nat \<Rightarrow> nat \<Rightarrow> nat \<Rightarrow> nat \<Rightarrow> nat \<Rightarrow> hash32 list \<Rightarrow> fs_op list" where
  "write_tile H d level tile_n first_node width sub leaves =
    (let full = (width = TILE_WIDTH); target = (level, tile_n, width) in
     if full \<and> tile_files d target \<noteq> None then []
     else
       let tile = concat (map (\<lambda>i. let start = (first_node + i) * sub in
             as_bytes (mth H (slice leaves start (start + sub)))) [0..<width]);
           write_op = WriteTile target tile;
           keep = (if full then None else Some width)
       in write_op # prune_partial_variants (run_op d write_op) level tile_n keep)"

fun write_level :: "(bytes \<Rightarrow> hash32) \<Rightarrow> log_dir \<Rightarrow> nat \<Rightarrow> nat \<Rightarrow> nat \<Rightarrow> hash32 list \<Rightarrow> nat list \<Rightarrow> fs_op list" where
  "write_level H d level available sub leaves [] = []"
| "write_level H d level available sub leaves (tile_n # ns) =
    (let first = tile_n * TILE_WIDTH;
         ops = write_tile H d level tile_n first (min TILE_WIDTH (available - first)) sub leaves
     in ops @ write_level H (run_ops d ops) level available sub leaves ns)"

text \<open>
  The loop ends at the first level without a complete subtree. The test \<open>level > t\<close> makes the
  recursion total: for a slice of fewer than $2^{64}-1$ leaves \<open>available\<close> is then 0 already.
\<close>

function write_levels :: "(bytes \<Rightarrow> hash32) \<Rightarrow> log_dir \<Rightarrow> nat \<Rightarrow> hash32 list \<Rightarrow> fs_op list" where
  "write_levels H d level leaves =
    (let t = length leaves; shift = TILE_HEIGHT_BITS * level;
         sub = (if shift \<ge> 64 then u64_max else 2 ^ shift);
         available = (if sub > t then 0 else t div sub)
     in if available = 0 \<or> level > t then []
        else
          let ops = write_level H d level available sub leaves
                [0..<(available + TILE_WIDTH - 1) div TILE_WIDTH]
          in ops @ write_levels H (run_ops d ops) (level + 1) leaves)"
  by auto
termination
  by (relation "measure (\<lambda>(H, d, level, leaves). Suc (length leaves) - level)") auto

declare write_levels.simps [simp del]

definition materialize :: "(bytes \<Rightarrow> hash32) \<Rightarrow> rstring \<Rightarrow> log_dir \<Rightarrow> hash32 list \<Rightarrow> checkpoint \<times> fs_op list" where
  "materialize H origin d leaves =
    (let root = (if length leaves = 0 then empty_root H else mth H leaves);
         cp = \<lparr>cp_origin = origin, cp_size = length leaves, cp_root = root\<rparr>
     in (cp, (if length leaves > 0 then write_levels H d 0 leaves else []) @ [WriteCheckpoint cp]))"

end
