(* ===== verification/TlogTilesCorrect.thy ===== *)
theory TlogTilesCorrect
  imports TlogTiles
begin

unbundle bit_operations_syntax

text \<open>
  Correctness of the tile log. The tiles on disk are compared with the rows of complete
  subtree hashes of the authoritative leaf sequence; the invariant of a write session says
  which part of each row its buffers hold. The properties are: appending succeeds and gives
  the checkpoint of the longer log, every prefix of its file operations leaves the committed
  leaves readable, and the incremental writer and the whole-tree builder write the same files.
\<close>

section \<open>Hash runs as bytes\<close>

definition flat :: "hash32 list \<Rightarrow> bytes" where
  "flat hs = concat (map as_bytes hs)"

lemma flat_simps [simp]: "flat [] = []" "flat (h # hs) = as_bytes h @ flat hs" "flat (xs @ ys) = flat xs @ flat ys"
  by (simp_all add: flat_def)

lemma length_flat [simp]: "length (flat hs) = length hs * 32"
  by (induction hs) auto

lemma take_flat [simp]: "take (n * 32) (flat hs) = flat (take n hs)"
proof (induction hs arbitrary: n)
  case (Cons h hs)
  then show ?case by (cases n) simp_all
qed simp

lemma drop_flat [simp]: "drop (n * 32) (flat hs) = flat (drop n hs)"
proof (induction hs arbitrary: n)
  case (Cons h hs)
  then show ?case by (cases n) simp_all
qed simp

lemma bytes_to_hashes_flat [simp]: "bytes_to_hashes (flat hs) = hs"
  by (induction hs) (simp_all add: bytes_to_hashes.simps HASH_LEN_def)

lemma slice_flat: "i < length hs \<Longrightarrow> slice (flat hs) (i * 32) ((i + 1) * 32) = as_bytes (hs ! i)"
  by (simp add: slice_def Cons_nth_drop_Suc [symmetric])

lemma put_hash_flat: "put_hash (flat hs) (length hs) h = flat (hs @ [h])"
  by (simp add: put_hash_def HASH_LEN_def)

section \<open>Rows of complete subtree hashes\<close>

definition stored :: "(bytes \<Rightarrow> hash32) \<Rightarrow> hash32 list \<Rightarrow> nat \<Rightarrow> nat \<Rightarrow> hash32" where
  "stored H ls L i = mth H (slice ls (i * 256 ^ L) ((i + 1) * 256 ^ L))"

definition row :: "(bytes \<Rightarrow> hash32) \<Rightarrow> hash32 list \<Rightarrow> nat \<Rightarrow> nat \<Rightarrow> nat \<Rightarrow> hash32 list" where
  "row H ls L a b = map (stored H ls L) [a..<b]"

lemma length_row [simp]: "length (row H ls L a b) = b - a"
  by (simp add: row_def)

lemma nth_row [simp]: "i < b - a \<Longrightarrow> row H ls L a b ! i = stored H ls L (a + i)"
  by (simp add: row_def)

lemma take_row: "k \<le> b - a \<Longrightarrow> take k (row H ls L a b) = row H ls L a (a + k)"
  by (cases "k = 0") (simp_all add: row_def take_map take_upt)

lemma row_Suc: "a \<le> b \<Longrightarrow> row H ls L a (Suc b) = row H ls L a b @ [stored H ls L b]"
  by (simp add: row_def)

lemma concat_slices: "a \<le> b \<Longrightarrow> concat (map (\<lambda>i. slice xs (i * u) ((i + 1) * u)) [a..<b]) = slice xs (a * u) (b * u)"
proof (induction "b - a" arbitrary: b)
  case 0
  then show ?case by (simp add: slice_def)
next
  case (Suc n)
  then obtain c where c: "b = Suc c" "a \<le> c" by (cases b) auto
  then have "concat (map (\<lambda>i. slice xs (i * u) ((i + 1) * u)) [a..<c]) = slice xs (a * u) (c * u)"
    using Suc by auto
  moreover have "slice xs (a * u) (c * u) @ slice xs (c * u) ((c + 1) * u) = slice xs (a * u) (b * u)"
    using c by (subst slice_append) (auto simp: mult_le_mono1)
  ultimately show ?case using c by simp
qed

lemma take_concat: "\<forall>c \<in> set cs. length c = u \<Longrightarrow> k \<le> length cs \<Longrightarrow>
    take (k * u) (concat cs) = concat (take k cs) \<and> drop (k * u) (concat cs) = concat (drop k cs)"
proof (induction cs arbitrary: k)
  case (Cons c cs)
  then show ?case by (cases k) auto
qed simp

text \<open>The root over subtree roots is the root over the leaves.\<close>

lemma mth_chunks: "cs \<noteq> [] \<Longrightarrow> \<forall>c \<in> set cs. length c = 2 ^ a \<Longrightarrow> mth H (concat cs) = mth H (map (mth H) cs)"
proof (induction "length cs" arbitrary: cs rule: less_induct)
  case less
  show ?case
  proof (cases "length cs = 1")
    case True
    then obtain c where "cs = [c]"
      by (metis One_nat_def length_0_conv length_Suc_conv)
    then show ?thesis by (simp add: tlog.mth_single)
  next
    case False
    then have n: "1 < length cs"
      using less.prems(1) by (cases cs) auto
    let ?k = "pow2_below (length cs)"
    note k = pow2_below_bounds [OF n]
    obtain t where t: "?k = 2 ^ t" "2 ^ t < length cs" "length cs \<le> 2 ^ Suc t"
      using n by (rule pow2_below_exists)
    have len: "length (concat cs) = length cs * 2 ^ a"
      using less.prems(2) by (induction cs) auto
    have kk: "pow2_below (length (concat cs)) = ?k * 2 ^ a"
    proof -
      have "length cs * 2 ^ a \<le> 2 ^ Suc t * 2 ^ a"
        using t(3) by (rule mult_le_mono1)
      then show ?thesis
        unfolding len t(1) power_add [symmetric] using t(2)
        by (intro pow2_below_unique) (simp_all add: power_add)
    qed
    have n2: "1 < length (concat cs)"
      unfolding len using n less_le_trans [of 1 "length cs" "length cs * 2 ^ a"] by simp
    have td: "take (?k * 2 ^ a) (concat cs) = concat (take ?k cs)" "drop (?k * 2 ^ a) (concat cs) = concat (drop ?k cs)"
      using take_concat [OF less.prems(2), of ?k] k by auto
    have lt: "length (take ?k cs) < length cs" "length (drop ?k cs) < length cs"
      and ne: "take ?k cs \<noteq> []" "drop ?k cs \<noteq> []"
      using n k less.prems(1) by simp_all
    have "mth H (concat (take ?k cs)) = mth H (map (mth H) (take ?k cs))"
      using less.prems(2) by (intro less.hyps lt ne) (auto dest: in_set_takeD)
    moreover have "mth H (concat (drop ?k cs)) = mth H (map (mth H) (drop ?k cs))"
      using less.prems(2) by (intro less.hyps lt ne) (auto dest: in_set_dropD)
    ultimately show ?thesis
      using tlog.mth_split [OF n2, of H] tlog.mth_split [of "map (mth H) cs" H] n
      by (simp add: kk td take_map drop_map)
  qed
qed

lemma fold_perfect_mth: "length hs = 2 ^ k \<Longrightarrow> fold_perfect H hs = mth H hs"
proof (induction k arbitrary: hs)
  case 0
  then show ?case
    by (simp add: fold_perfect.simps mth.simps)
next
  case (Suc k)
  have pairs: "\<exists>cs. concat cs = xs \<and> pair_up H xs = map (mth H) cs \<and> (\<forall>c \<in> set cs. length c = 2 ^ 1)"
    if "even (length xs)" for xs
    using that
  proof (induction H xs rule: pair_up.induct)
    case (1 H a b hs)
    then obtain cs where "concat cs = hs" "pair_up H hs = map (mth H) cs" "\<forall>c \<in> set cs. length c = 2 ^ 1"
      by auto
    moreover have "mth H [a, b] = hash_children H a b"
      using tlog.mth_append [of "[a]" 0 "[b]" H] by (simp add: tlog.mth_single)
    ultimately show ?case
      by (intro exI [of _ "[a, b] # cs"]) simp
  qed (auto intro: exI [of _ "[]"])
  obtain cs where cs: "concat cs = hs" "pair_up H hs = map (mth H) cs" "\<forall>c \<in> set cs. length c = 2 ^ 1"
    using pairs [of hs] Suc.prems by auto
  have "cs \<noteq> []" using Suc.prems cs(1) by auto
  then have "mth H hs = mth H (pair_up H hs)"
    using mth_chunks [of cs 1 H] cs by simp
  moreover have "1 < length hs"
    using Suc.prems zero_less_power [of "2 :: nat" k] unfolding power_Suc by linarith
  then have "fold_perfect H hs = fold_perfect H (pair_up H hs)"
    by (subst fold_perfect.simps) simp
  moreover have "length (pair_up H hs) = 2 ^ k"
    using Suc.prems by simp
  ultimately show ?case
    using Suc.IH by metis
qed

lemma fold_perfect_row:
  "fold_perfect H (row H ls L (i * 2 ^ j) ((i + 1) * 2 ^ j)) =
    mth H (slice ls (i * 2 ^ (8 * L + j)) ((i + 1) * 2 ^ (8 * L + j)))"
  if "(i + 1) * 2 ^ (8 * L + j) \<le> length ls"
proof -
  let ?u = "256 ^ L" and ?cs = "map (\<lambda>i. slice ls (i * 256 ^ L) ((i + 1) * 256 ^ L)) [i * 2 ^ j..<(i + 1) * 2 ^ j]"
  have u: "(256 :: nat) ^ L = 2 ^ (8 * L)"
    by (simp add: power_mult)
  have "length (row H ls L (i * 2 ^ j) ((i + 1) * 2 ^ j)) = 2 ^ j"
    by (simp add: algebra_simps)
  then have "fold_perfect H (row H ls L (i * 2 ^ j) ((i + 1) * 2 ^ j)) = mth H (map (mth H) ?cs)"
    by (simp add: fold_perfect_mth row_def stored_def [abs_def] comp_def)
  also have "\<dots> = mth H (concat ?cs)"
  proof (rule mth_chunks [symmetric])
    show "?cs \<noteq> []" by simp
    show "\<forall>c \<in> set ?cs. length c = 2 ^ (8 * L)"
    proof
      fix c assume "c \<in> set ?cs"
      then obtain x where x: "c = slice ls (x * ?u) ((x + 1) * ?u)" "x + 1 \<le> (i + 1) * 2 ^ j"
        by auto
      have "(x + 1) * ?u \<le> (i + 1) * 2 ^ j * ?u"
        using x(2) by (rule mult_le_mono1)
      also have "\<dots> \<le> length ls"
        using that by (simp add: u power_add algebra_simps)
      finally show "length c = 2 ^ (8 * L)"
        using x(1) by (simp add: length_slice u)
    qed
  qed
  also have "concat ?cs = slice ls (i * 2 ^ j * ?u) ((i + 1) * 2 ^ j * ?u)"
    by (rule concat_slices) (rule mult_le_mono1, simp)
  finally show ?thesis
    by (simp add: u power_add algebra_simps)
qed

section \<open>What the directory holds\<close>

text \<open>The number of hashes of tile \<open>t\<close> at a level that has \<open>c\<close> of them.\<close>

definition width_of :: "nat \<Rightarrow> nat \<Rightarrow> nat" where
  "width_of c t = min 256 (c - t * 256)"

text \<open>
  Every tile file is a run of the row of its level; and for a committed size \<open>m\<close> every tile
  has a file that is wide enough. Files wider than the committed size are what an interrupted
  append leaves behind.
\<close>

definition disk_consistent :: "(bytes \<Rightarrow> hash32) \<Rightarrow> hash32 list \<Rightarrow> log_dir \<Rightarrow> bool" where
  "disk_consistent H ls d \<longleftrightarrow> (\<forall>L t v bs. tile_files d (L, t, v) = Some bs \<longrightarrow>
     v \<le> 256 \<and> bs = flat (row H ls L (t * 256) (t * 256 + v)))"

definition disk_readable :: "log_dir \<Rightarrow> nat \<Rightarrow> bool" where
  "disk_readable d m \<longleftrightarrow> (\<forall>L t. L < 9 \<and> 0 < width_of (m div 256 ^ L) t \<longrightarrow>
     (\<exists>v. width_of (m div 256 ^ L) t \<le> v \<and> tile_files d (L, t, v) \<noteq> None))"

lemma read_tile_ok:
  assumes c: "disk_consistent H ls d" and v: "w \<le> v" "tile_files d (L, t, v) \<noteq> None" and w: "0 < w"
  shows "\<exists>bs. read_tile_at_least d L t w = Inr bs \<and> w * 32 \<le> length bs \<and>
    take (w * 32) bs = flat (row H ls L (t * 256) (t * 256 + w))"
proof -
  have good: "w * 32 \<le> length bs \<and> take (w * 32) bs = flat (row H ls L (t * 256) (t * 256 + w))"
    if "tile_files d (L, t, x) = Some bs" "w \<le> x" for x bs
  proof -
    have "bs = flat (row H ls L (t * 256) (t * 256 + x))"
      using c that(1) by (simp add: disk_consistent_def)
    then show ?thesis
      using that(2) by (simp add: take_row)
  qed
  have v256: "v \<le> 256"
    using c v(2) by (auto simp: disk_consistent_def)
  show ?thesis
  proof (cases "tile_files d (L, t, 256)")
    case (Some bs)
    then show ?thesis
      using good [OF Some] v(1) v256
      by (simp add: read_tile_at_least_def long_enough_def TILE_WIDTH_def HASH_LEN_def)
  next
    case None
    then have "v < 256"
      using v(2) v256 le_neq_implies_less by fastforce
    then have w256: "w < 256" using v(1) by linarith
    show ?thesis
    proof (cases "tile_files d (L, t, w)")
      case (Some bs)
      then show ?thesis
        using good [OF Some] None w w256
        by (simp add: read_tile_at_least_def long_enough_def TILE_WIDTH_def HASH_LEN_def)
    next
      case w_None: None
      let ?f = "find (\<lambda>x. tile_files d (L, t, x) \<noteq> None) [w..<256]"
      obtain x where x: "?f = Some x"
        using v \<open>v < 256\<close> by (cases ?f) (auto simp: find_None_iff)
      then have "w \<le> x" "tile_files d (L, t, x) \<noteq> None"
        by (auto simp: find_Some_iff)
      then obtain bs where bs: "tile_files d (L, t, x) = Some bs" by auto
      show ?thesis
        using good [OF bs \<open>w \<le> x\<close>] None w_None w w256 x bs
        by (simp add: read_tile_at_least_def long_enough_def TILE_WIDTH_def HASH_LEN_def)
    qed
  qed
qed

section \<open>What a session holds\<close>

text \<open>
  \<open>c\<close> gives the current number of hashes of every level, \<open>m\<close> is the committed size. A cached
  tile holds its current run of the row, a tile that is not cached has not grown, and the
  dirty tiles are those that have grown.
\<close>

definition session_ok :: "(bytes \<Rightarrow> hash32) \<Rightarrow> hash32 list \<Rightarrow> nat \<Rightarrow> (nat \<Rightarrow> nat) \<Rightarrow> tile_session \<Rightarrow> bool" where
  "session_ok H ls m c s \<longleftrightarrow>
     s_count_open s = map (\<lambda>L. m div 256 ^ L) [0..<9] \<and> s_count s = map c [0..<9] \<and>
     (\<forall>L < 9. m div 256 ^ L \<le> c L) \<and>
     (\<forall>L t b. L < 9 \<and> s_tiles s (L, t) = Some b \<longrightarrow> b = flat (row H ls L (t * 256) (t * 256 + width_of (c L) t))) \<and>
     (\<forall>L t. L < 9 \<and> s_tiles s (L, t) = None \<longrightarrow> width_of (c L) t = width_of (m div 256 ^ L) t) \<and>
     set (s_dirty s) = {(L, t). L < 9 \<and> width_of (m div 256 ^ L) t < width_of (c L) t} \<and> distinct (s_dirty s)"

lemma session_tile:
  "session_ok H ls m c s \<Longrightarrow> L < 9 \<Longrightarrow> s_tiles s (L, t) = Some b \<Longrightarrow>
    b = flat (row H ls L (t * 256) (t * 256 + width_of (c L) t))"
  by (simp add: session_ok_def)

lemma session_uncached:
  "session_ok H ls m c s \<Longrightarrow> L < 9 \<Longrightarrow> s_tiles s (L, t) = None \<Longrightarrow>
    width_of (c L) t = width_of (m div 256 ^ L) t"
  by (simp add: session_ok_def)

lemma session_dirty_iff:
  "session_ok H ls m c s \<Longrightarrow>
    (L, t) \<in> set (s_dirty s) \<longleftrightarrow> L < 9 \<and> width_of (m div 256 ^ L) t < width_of (c L) t"
  by (simp add: session_ok_def)

lemma session_open_ok: "m < 2 ^ 64 \<Longrightarrow> session_ok H ls m (\<lambda>L. m div 256 ^ L) (session_open m)"
proof -
  assume m: "m < 2 ^ 64"
  have "(if 64 \<le> 8 * L then 0 else m div 2 ^ (8 * L)) = m div 256 ^ L" if "L < 9" for L
  proof (cases "64 \<le> 8 * L")
    case True
    then have "L = 8" using that by simp
    then show ?thesis using m by simp
  qed (simp add: power_mult)
  then have "map (\<lambda>level. let shift = 8 * level in if 64 \<le> shift then 0 else m div 2 ^ shift) [0..<9] =
      map (\<lambda>L. m div 256 ^ L) [0..<9]"
    by (simp add: Let_def)
  then show ?thesis
    by (simp add: session_ok_def session_open_def TILE_HEIGHT_BITS_def MAX_TILE_LEVELS_def Let_def)
qed

lemma ensure_loaded_ok:
  assumes d: "disk_consistent H ls d" "disk_readable d m" and s: "session_ok H ls m c s" and L: "L < 9"
  shows "\<exists>s'. ensure_loaded d s L t = Inr s' \<and> session_ok H ls m c s' \<and>
    s_tiles s' (L, t) = Some (flat (row H ls L (t * 256) (t * 256 + width_of (c L) t)))"
proof (cases "s_tiles s (L, t)")
  case (Some b)
  then show ?thesis
    using s L by (simp add: ensure_loaded_def session_ok_def)
next
  case None
  let ?w = "width_of (m div 256 ^ L) t"
  let ?b = "flat (row H ls L (t * 256) (t * 256 + ?w))"
  let ?s = "s\<lparr>s_tiles := (s_tiles s)((L, t) := Some ?b)\<rparr>"
  have w: "width_of (c L) t = ?w"
    using s L None by (simp add: session_ok_def)
  have ok: "session_ok H ls m c ?s"
    using s w by (auto simp: session_ok_def split: if_splits)
  have open_w: "min TILE_WIDTH (s_count_open s ! L - t * TILE_WIDTH) = ?w"
    using s L by (simp add: session_ok_def TILE_WIDTH_def width_of_def)
  have "ensure_loaded d s L t = Inr ?s"
  proof (cases "0 < ?w")
    case True
    then obtain v where "?w \<le> v" "tile_files d (L, t, v) \<noteq> None"
      using d(2) L unfolding disk_readable_def by blast
    from read_tile_ok [OF d(1) this True] obtain bs where
        "read_tile_at_least d L t ?w = Inr bs" "?w * 32 \<le> length bs" "take (?w * 32) bs = ?b"
      by blast
    then show ?thesis
      unfolding ensure_loaded_def Let_def open_w using None True by (simp add: HASH_LEN_def)
  next
    case False
    then show ?thesis
      unfolding ensure_loaded_def Let_def open_w using None by (simp add: row_def)
  qed
  then show ?thesis
    using ok w by simp
qed

lemma width_of_Suc:
  "width_of (Suc c) t = (if t = c div 256 then Suc (width_of c t) else width_of c t)"
  "t = c div 256 \<Longrightarrow> width_of c t = c mod 256"
proof -
  show "width_of (Suc c) t = (if t = c div 256 then Suc (width_of c t) else width_of c t)"
    by (auto simp: width_of_def min_def)
  show "t = c div 256 \<Longrightarrow> width_of c t = c mod 256"
    by (simp add: width_of_def minus_div_mult_eq_mod)
qed

text \<open>Storing the next hash of a level.\<close>

lemma set_stored_ok:
  assumes d: "disk_consistent H ls d" "disk_readable d m" and s: "session_ok H ls m c s" and L: "L < 9"
  shows "\<exists>s'. set_stored d s L (c L) (stored H ls L (c L)) = Inr s' \<and>
    session_ok H ls m (c(L := Suc (c L))) s'"
proof -
  let ?t = "c L div 256"
  obtain s1 where s1: "ensure_loaded d s L ?t = Inr s1" "session_ok H ls m c s1"
      "s_tiles s1 (L, ?t) = Some (flat (row H ls L (?t * 256) (?t * 256 + width_of (c L) ?t)))"
    using ensure_loaded_ok [OF d s L] by blast
  have i: "?t * 256 + c L mod 256 = c L" by simp
  let ?old = "row H ls L (?t * 256) (c L)"
  let ?new = "flat (row H ls L (?t * 256) (Suc (c L)))"
  have "length ?old = c L mod 256"
    by (simp add: minus_div_mult_eq_mod)
  then have "put_hash (flat ?old) (c L mod 256) (stored H ls L (c L)) = ?new"
    using put_hash_flat [of ?old "stored H ls L (c L)"] by (simp add: row_Suc)
  moreover have "s_count s1 ! L = c L"
    using s1(2) L by (simp add: session_ok_def)
  ultimately have "set_stored d s L (c L) (stored H ls L (c L)) = Inr
      (s1\<lparr>s_tiles := (s_tiles s1)((L, ?t) := Some ?new),
          s_dirty := List.insert (L, ?t) (s_dirty s1),
          s_count := (s_count s1)[L := Suc (c L)]\<rparr>)" (is "_ = Inr ?s'")
    using s1(1,3) by (simp add: set_stored_def TILE_WIDTH_def Let_def width_of_Suc(2) i)
  moreover have "session_ok H ls m (c(L := Suc (c L))) ?s'"
  proof -
    have cnt: "(map c [0..<9])[L := Suc (c L)] = map (c(L := Suc (c L))) [0..<9]"
      using L by (intro nth_equalityI) (auto simp: nth_list_update)
    have tl: "b = flat (row H ls M (t * 256) (t * 256 + width_of ((c(L := Suc (c L))) M) t))"
      if "M < 9" "s_tiles ?s' (M, t) = Some b" for M t b
      using that s1(2) i by (auto simp: session_ok_def width_of_Suc split: if_splits)
    have un: "width_of ((c(L := Suc (c L))) M) t = width_of (m div 256 ^ M) t"
      if "M < 9" "s_tiles ?s' (M, t) = None" for M t
      using that s1(2) by (auto simp: session_ok_def width_of_Suc split: if_splits)
    have le: "width_of (m div 256 ^ L) ?t \<le> width_of (c L) ?t"
      using s1(2) L by (auto simp: session_ok_def width_of_def)
    have dirty: "set (s_dirty ?s') =
        {(M, t). M < 9 \<and> width_of (m div 256 ^ M) t < width_of ((c(L := Suc (c L))) M) t}"
      using s1(2) L le by (auto simp: session_ok_def width_of_Suc split: if_splits)
    have "m div 256 ^ M \<le> (c(L := Suc (c L))) M" if "M < 9" for M
      using that s1(2) by (auto simp: session_ok_def le_SucI)
    then show ?thesis
      unfolding session_ok_def using tl un dirty s1(2) cnt by (simp add: session_ok_def)
  qed
  ultimately show ?thesis by blast
qed

lemma read_stored_ok:
  assumes d: "disk_consistent H ls d" "disk_readable d m" and s: "session_ok H ls m c s" and L: "L < 9"
    and i: "i < c L"
  shows "\<exists>s'. read_stored d s L i = Inr (s', stored H ls L i) \<and> session_ok H ls m c s'"
proof -
  let ?t = "i div 256"
  obtain s1 where s1: "ensure_loaded d s L ?t = Inr s1" "session_ok H ls m c s1"
      "s_tiles s1 (L, ?t) = Some (flat (row H ls L (?t * 256) (?t * 256 + width_of (c L) ?t)))"
    using ensure_loaded_ok [OF d s L] by blast
  have w: "i mod 256 < width_of (c L) ?t"
    using i unfolding width_of_def by (simp add: minus_div_mult_eq_mod less_diff_conv)
  then have "slice (flat (row H ls L (?t * 256) (?t * 256 + width_of (c L) ?t)))
      (i mod 256 * 32) ((i mod 256 + 1) * 32) = as_bytes (stored H ls L i)"
    by (subst slice_flat) simp_all
  then show ?thesis
    using s1 w by (simp add: read_stored_def TILE_WIDTH_def HASH_LEN_def Let_def)
qed

section \<open>Appending a leaf\<close>

text \<open>The counts while leaf \<open>j\<close> is carried up: the levels up to \<open>K\<close> have it already.\<close>

definition carried :: "nat \<Rightarrow> nat \<Rightarrow> nat \<Rightarrow> nat" where
  "carried K j L = (if L \<le> K then Suc j div 256 ^ L else j div 256 ^ L)"

lemma session_ok_cong: "session_ok H ls m c s \<Longrightarrow> (\<And>L. L < 9 \<Longrightarrow> c L = c' L) \<Longrightarrow> session_ok H ls m c' s"
  by (auto simp: session_ok_def)

lemma carried_step:
  assumes "256 ^ Suc K dvd Suc j"
  shows "(carried K j)(Suc K := Suc (carried K j (Suc K))) = carried (Suc K) j"
  using assms by (auto simp: carried_def fun_eq_iff div_Suc mod_eq_0_iff_dvd le_Suc_eq)

lemma carried_done:
  assumes "\<not> 256 ^ Suc K dvd Suc j"
  shows "carried K j L = Suc j div 256 ^ L"
proof (cases "L \<le> K")
  case False
  then have "(256 :: nat) ^ Suc K dvd 256 ^ L"
    by (intro le_imp_power_dvd) simp
  then have "\<not> 256 ^ L dvd Suc j"
    using assms dvd_trans by blast
  then show ?thesis
    using False by (simp add: carried_def div_Suc mod_eq_0_iff_dvd)
qed (simp add: carried_def)

lemma last_slot_iff: "x mod 256 = 255 \<longleftrightarrow> 256 dvd Suc x" for x :: nat
  by (auto simp: dvd_eq_mod_eq_0 mod_Suc)

lemma full_tile_ok:
  assumes s: "session_ok H ls m (carried K j) s" and "K < 9" "m \<le> j" and dvd: "256 ^ Suc K dvd Suc j"
  shows "full_tile_hashes d s K (j div 256 ^ Suc K) =
    Inr (s, row H ls K (j div 256 ^ Suc K * 256) ((j div 256 ^ Suc K + 1) * 256))"
proof -
  let ?t = "j div 256 ^ Suc K"
  have top: "Suc j div 256 ^ K = Suc ?t * 256"
  proof -
    obtain q where q: "Suc j = 256 ^ K * (256 * q)"
      using dvd by (elim dvdE) (simp add: mult.assoc mult.left_commute)
    have "Suc j div 256 ^ Suc K = Suc ?t"
      using dvd by (simp add: div_Suc mod_eq_0_iff_dvd)
    moreover have "Suc j div 256 ^ Suc K = q"
      unfolding q power_Suc by (simp add: mult.assoc mult.left_commute)
    ultimately show ?thesis
      unfolding q by simp
  qed
  have c: "carried K j K = Suc ?t * 256"
    by (simp add: carried_def top)
  then have w: "width_of (carried K j K) ?t = 256"
    by (simp add: width_of_def)
  have "256 ^ K dvd Suc j"
    using dvd by (metis dvd_trans dvd_triv_right power_Suc)
  then have "j div 256 ^ K < Suc ?t * 256"
    using top by (simp add: div_Suc mod_eq_0_iff_dvd)
  then have "m div 256 ^ K < Suc ?t * 256"
    using \<open>m \<le> j\<close> div_le_mono le_less_trans by blast
  then have "width_of (m div 256 ^ K) ?t \<noteq> 256"
    by (auto simp: width_of_def min_def)
  then obtain b where b: "s_tiles s (K, ?t) = Some b"
    using session_uncached [OF s \<open>K < 9\<close>, of ?t] w by (cases "s_tiles s (K, ?t)") auto
  have "b = flat (row H ls K (?t * 256) (?t * 256 + 256))"
    using session_tile [OF s \<open>K < 9\<close> b] w by simp
  with b show ?thesis
    using take_flat [of 256 "row H ls K (?t * 256) (?t * 256 + 256)"]
    by (simp add: full_tile_hashes_def TILE_WIDTH_def HASH_LEN_def add.commute)
qed

lemma cascade_ok:
  assumes d: "disk_consistent H ls d" "disk_readable d m" and j: "m \<le> j" "Suc j \<le> length ls"
  shows "session_ok H ls m (carried K j) s \<Longrightarrow> K < 9 \<Longrightarrow> 256 ^ Suc K dvd Suc j \<Longrightarrow>
    \<exists>s'. cascade H d s K (j div 256 ^ Suc K) = Inr s' \<and> session_ok H ls m (\<lambda>L. Suc j div 256 ^ L) s'"
proof (induction "9 - K" arbitrary: K s)
  case 0
  then show ?case by simp
next
  case (Suc n)
  let ?t = "j div 256 ^ Suc K"
  show ?case
  proof (cases "Suc K = 9")
    case True
    then show ?thesis
      using Suc.prems session_ok_cong [OF Suc.prems(1), of "\<lambda>L. Suc j div 256 ^ L"]
      by (simp add: cascade.simps MAX_TILE_LEVELS_def carried_def)
  next
    case False
    then have K: "Suc K < 9" using Suc.prems(2) by simp
    have t: "carried K j (Suc K) = ?t" and t1: "Suc j div 256 ^ Suc K = Suc ?t"
      using Suc.prems(3) by (simp_all add: carried_def div_Suc mod_eq_0_iff_dvd)
    have e: "(2 :: nat) ^ (8 * K + 8) = 256 ^ Suc K"
      by (simp add: power_add power_mult)
    have "(?t + 1) * 256 ^ Suc K \<le> length ls"
      using t1 j(2) Suc.prems(3) by (metis Suc_eq_plus1 dvd_div_mult_self)
    then have "fold_perfect H (row H ls K (?t * 256) ((?t + 1) * 256)) = stored H ls (Suc K) ?t"
      using fold_perfect_row [of ?t K 8 ls H] unfolding e stored_def by simp
    moreover obtain s1 where s1: "set_stored d s (Suc K) ?t (stored H ls (Suc K) ?t) = Inr s1"
        "session_ok H ls m (carried (Suc K) j) s1"
      using set_stored_ok [OF d Suc.prems(1) K] carried_step [OF Suc.prems(3)] t by metis
    ultimately have c: "cascade H d s K ?t =
        (if ?t mod 256 = 255 then cascade H d s1 (Suc K) (?t div 256) else Inr s1)"
      using full_tile_ok [OF Suc.prems(1,2) j(1) Suc.prems(3)] K
      by (subst cascade.simps) (simp add: MAX_TILE_LEVELS_def TILE_WIDTH_def)
    have t2: "?t div 256 = j div 256 ^ Suc (Suc K)"
      by (metis div_mult2_eq mult.commute power_Suc)
    have iff: "?t mod 256 = 255 \<longleftrightarrow> 256 ^ Suc (Suc K) dvd Suc j"
    proof -
      have "?t mod 256 = 255 \<longleftrightarrow> 256 dvd Suc ?t"
        by (rule last_slot_iff)
      also have "\<dots> \<longleftrightarrow> 256 ^ Suc K * 256 dvd 256 ^ Suc K * Suc ?t"
        by (rule nat_mult_dvd_cancel1 [symmetric]) simp
      also have "256 ^ Suc K * Suc ?t = Suc j"
        using t1 Suc.prems(3) by (metis dvd_mult_div_cancel)
      finally show ?thesis by (simp add: mult.commute)
    qed
    show ?thesis
    proof (cases "?t mod 256 = 255")
      case True
      then show ?thesis
        using c Suc.hyps(1) [of "Suc K" s1] Suc.hyps(2) s1(2) K iff t2 by simp
    next
      case False
      then show ?thesis
        using c s1(2) session_ok_cong [OF s1(2), of "\<lambda>L. Suc j div 256 ^ L"] carried_done [of "Suc K" j] iff
        by simp
    qed
  qed
qed

lemma push_leaf_ok:
  assumes d: "disk_consistent H ls d" "disk_readable d m" and j: "m \<le> j" "j < length ls"
    and s: "session_ok H ls m (\<lambda>L. j div 256 ^ L) s"
  shows "\<exists>s'. push_leaf H d s j (ls ! j) = Inr s' \<and> session_ok H ls m (\<lambda>L. Suc j div 256 ^ L) s'"
proof -
  have leaf: "ls ! j = stored H ls 0 j"
    using j(2) by (simp add: stored_def slice_def Cons_nth_drop_Suc [symmetric] tlog.mth_single)
  obtain s1 where s1: "set_stored d s 0 j (ls ! j) = Inr s1"
      "session_ok H ls m ((\<lambda>L. j div 256 ^ L)(0 := Suc j)) s1"
    using set_stored_ok [OF d s, of 0] leaf by auto
  have s2: "session_ok H ls m (carried 0 j) s1"
    using session_ok_cong [OF s1(2)] by (simp add: carried_def)
  have iff: "j mod 256 = 255 \<longleftrightarrow> 256 ^ Suc 0 dvd Suc j"
    using last_slot_iff [of j] by simp
  show ?thesis
  proof (cases "j mod 256 = 255")
    case True
    then show ?thesis
      using cascade_ok [OF d, of j 0 s1] j s2 s1(1) iff by (simp add: push_leaf_def TILE_WIDTH_def)
  next
    case False
    then show ?thesis
      using session_ok_cong [OF s2, of "\<lambda>L. Suc j div 256 ^ L"] carried_done [of 0 j] s1(1) iff
      by (simp add: push_leaf_def TILE_WIDTH_def)
  qed
qed

lemma push_leaves_ok:
  assumes d: "disk_consistent H ls d" "disk_readable d m" and n: "n \<le> length ls"
  shows "m \<le> j \<Longrightarrow> j \<le> n \<Longrightarrow> session_ok H ls m (\<lambda>L. j div 256 ^ L) s \<Longrightarrow>
    \<exists>s'. push_leaves H d s j (slice ls j n) = Inr (s', n) \<and> session_ok H ls m (\<lambda>L. n div 256 ^ L) s'"
proof (induction "n - j" arbitrary: j s)
  case 0
  then show ?case by (simp add: slice_def)
next
  case (Suc k)
  then have j: "j < n" by simp
  then have sl: "slice ls j n = ls ! j # slice ls (Suc j) n"
    using n by (simp add: slice_def Cons_nth_drop_Suc [symmetric] take_Cons' )
  obtain s1 where "push_leaf H d s j (ls ! j) = Inr s1" "session_ok H ls m (\<lambda>L. Suc j div 256 ^ L) s1"
    using push_leaf_ok [OF d Suc.prems(1) _ Suc.prems(3)] j n by auto
  with Suc.hyps(1) [of "Suc j" s1] Suc.hyps(2) Suc.prems j show ?case
    by (simp add: sl)
qed

section \<open>The tree head\<close>

lemma read_children_ok:
  assumes d: "disk_consistent H ls d" "disk_readable d m" and L: "L < 9"
  shows "session_ok H ls m c s \<Longrightarrow> \<forall>i \<in> set is. i < c L \<Longrightarrow>
    \<exists>s'. read_children d s L is = Inr (s', map (stored H ls L) is) \<and> session_ok H ls m c s'"
proof (induction "is" arbitrary: s)
  case (Cons i "is")
  then obtain s1 where "read_stored d s L i = Inr (s1, stored H ls L i)" "session_ok H ls m c s1"
    using read_stored_ok [OF d Cons.prems(1) L, of i] by auto
  with Cons.IH [of s1] Cons.prems(2) show ?case by auto
qed simp

lemma perfect_hash_ok:
  assumes d: "disk_consistent H ls d" "disk_readable d m" and s: "session_ok H ls m (\<lambda>L. n div 256 ^ L) s"
    and tv: "tv < 64" and n: "(idx + 1) * 2 ^ tv \<le> n" "n \<le> length ls"
  shows "\<exists>s'. perfect_hash H d s tv idx = Inr (s', mth H (slice ls (idx * 2 ^ tv) ((idx + 1) * 2 ^ tv))) \<and>
    session_ok H ls m (\<lambda>L. n div 256 ^ L) s'"
proof -
  let ?L = "tv div 8" and ?j = "tv mod 8"
  have L: "?L < 9" using tv by simp
  have e: "2 ^ tv = 2 ^ ?j * (256 :: nat) ^ ?L"
  proof -
    have "tv = ?j + 8 * ?L" by simp
    then have "(2 :: nat) ^ tv = 2 ^ ?j * 2 ^ (8 * ?L)"
      by (metis power_add)
    then show ?thesis by (simp add: power_mult)
  qed
  have up: "(idx + 1) * 2 ^ ?j \<le> n div 256 ^ ?L"
    using n(1) unfolding e by (simp add: less_eq_div_iff_mult_less_eq algebra_simps)
  show ?thesis
  proof (cases "?j = 0")
    case True
    have "idx < n div 256 ^ ?L"
      using up True by simp
    from read_stored_ok [OF d s L this] show ?thesis
      using True e by (auto simp: perfect_hash_def TILE_HEIGHT_BITS_def stored_def)
  next
    case False
    let ?is = "map (\<lambda>t. idx * 2 ^ ?j + t) [0..<2 ^ ?j]"
    have "\<forall>i \<in> set ?is. i < n div 256 ^ ?L"
      using up by auto
    from read_children_ok [OF d L s this] obtain s' where
        s': "read_children d s ?L ?is = Inr (s', map (stored H ls ?L) ?is)" "session_ok H ls m (\<lambda>L. n div 256 ^ L) s'"
      by blast
    have "?is = [idx * 2 ^ ?j..<(idx + 1) * 2 ^ ?j]"
      by (intro nth_equalityI) (auto simp: algebra_simps)
    then have "fold_perfect H (map (stored H ls ?L) ?is) = mth H (slice ls (idx * 2 ^ tv) ((idx + 1) * 2 ^ tv))"
      using fold_perfect_row [of idx ?L ?j ls H] n by (simp add: row_def)
    then show ?thesis
      using False s' by (simp add: perfect_hash_def TILE_HEIGHT_BITS_def Let_def)
  qed
qed

lemma top_bit:
  fixes x :: nat
  assumes "x < 2 ^ Suc k"
  shows "x AND 2 ^ k \<noteq> 0 \<longleftrightarrow> 2 ^ k \<le> x" and "2 ^ k \<le> x \<Longrightarrow> x XOR 2 ^ k = x - 2 ^ k"
proof -
  have b: "bit x k \<longleftrightarrow> 2 ^ k \<le> x"
  proof -
    have "x div 2 ^ k < 2"
      using assms by (simp add: less_mult_imp_div_less mult.commute)
    then have "odd (x div 2 ^ k) \<longleftrightarrow> x div 2 ^ k \<noteq> 0"
      by (auto simp: less_2_cases_iff)
    then show ?thesis
      by (simp add: bit_iff_odd div_eq_0_iff not_less)
  qed
  show "x AND 2 ^ k \<noteq> 0 \<longleftrightarrow> 2 ^ k \<le> x"
    using b by (simp add: and_exp_eq_0_iff_not_bit)
  assume le: "2 ^ k \<le> x"
  have hi: "bit x i \<Longrightarrow> i \<le> k" for i
  proof (rule ccontr)
    assume "bit x i" "\<not> i \<le> k"
    then have "x < 2 ^ i"
      using assms power_increasing [of "Suc k" i "2 :: nat"] by (auto intro: less_le_trans)
    then show False using \<open>bit x i\<close> by (simp add: bit_iff_odd)
  qed
  have "x XOR 2 ^ k = take_bit k x"
    using b le hi by (intro bit_eqI) (auto simp: bit_xor_iff bit_take_bit_iff bit_exp_iff dest: hi)
  also have "\<dots> = x - 2 ^ k"
    using le assms by (simp add: take_bit_eq_mod mod_if [of x] less_diff_conv2 le_mod_geq mult_2)
  finally show "x XOR 2 ^ k = x - 2 ^ k" .
qed

lemma frontier_mono: "frontier b cs \<Longrightarrow> b \<le> b' \<Longrightarrow> frontier b' cs"
  by (cases cs) auto

lemma head_subtrees_ok:
  assumes d: "disk_consistent H ls d" "disk_readable d m" and n: "n \<le> length ls"
  shows "session_ok H ls m (\<lambda>L. n div 256 ^ L) s \<Longrightarrow> K \<le> 64 \<Longrightarrow> r < 2 ^ K \<Longrightarrow> at + r = n \<Longrightarrow> 2 ^ K dvd at \<Longrightarrow>
    \<exists>s' cs. head_subtrees H d s K at r = Inr (s', map (mth H) cs) \<and> session_ok H ls m (\<lambda>L. n div 256 ^ L) s' \<and>
      frontier K cs \<and> concat cs = slice ls at n"
proof (induction K arbitrary: s at r)
  case 0
  then show ?case
    by (auto simp: slice_def intro: exI [of _ "[]"])
next
  case (Suc K)
  have at: "2 ^ K dvd at"
    using Suc.prems(5) by (metis dvd_trans dvd_triv_right power_Suc)
  show ?case
  proof (cases "2 ^ K \<le> r")
    case False
    then obtain s' cs where "head_subtrees H d s K at r = Inr (s', map (mth H) cs)"
        "session_ok H ls m (\<lambda>L. n div 256 ^ L) s'" "frontier K cs" "concat cs = slice ls at n"
      using Suc.IH [of s r at] Suc.prems at by auto
    then show ?thesis
      using False top_bit(1) [OF Suc.prems(3)] frontier_mono [of K cs "Suc K"] by auto
  next
    case True
    define idx where "idx = at div 2 ^ K"
    have idx: "idx * 2 ^ K = at"
      using at by (simp add: idx_def)
    have "(idx + 1) * 2 ^ K \<le> n"
      using idx True Suc.prems(4) by simp
    then obtain s1 where s1: "perfect_hash H d s K idx = Inr (s1, mth H (slice ls at (at + 2 ^ K)))"
        "session_ok H ls m (\<lambda>L. n div 256 ^ L) s1"
      using perfect_hash_ok [OF d Suc.prems(1) _ _ n, of K idx] Suc.prems(2) idx by (auto simp: add.commute)
    have "r - 2 ^ K < 2 ^ K"
      using True Suc.prems(3) unfolding power_Suc by linarith
    then obtain s2 cs where s2: "head_subtrees H d s1 K (at + 2 ^ K) (r - 2 ^ K) = Inr (s2, map (mth H) cs)"
        "session_ok H ls m (\<lambda>L. n div 256 ^ L) s2" "frontier K cs" "concat cs = slice ls (at + 2 ^ K) n"
      using Suc.IH [OF s1(2), of "r - 2 ^ K" "at + 2 ^ K"] Suc.prems at True by auto
    have "length (slice ls at (at + 2 ^ K)) = 2 ^ K"
      using True Suc.prems(4) n by (simp add: length_slice)
    moreover have "slice ls at (at + 2 ^ K) @ slice ls (at + 2 ^ K) n = slice ls at n"
      using True Suc.prems(4) by (intro slice_append) auto
    ultimately show ?thesis
      using s1 s2 True top_bit [OF Suc.prems(3)] idx_def
      by (intro exI [of _ s2] exI [of _ "slice ls at (at + 2 ^ K) # cs"]) auto
  qed
qed

lemma tree_head_ok:
  assumes d: "disk_consistent H ls d" "disk_readable d m" and s: "session_ok H ls m (\<lambda>L. n div 256 ^ L) s"
    and n: "0 < n" "n \<le> length ls" "n < 2 ^ 64"
  shows "\<exists>s'. tree_head H d s n = Inr (s', mth H (take n ls)) \<and> session_ok H ls m (\<lambda>L. n div 256 ^ L) s'"
proof -
  obtain s' cs where cs: "head_subtrees H d s 64 0 n = Inr (s', map (mth H) cs)"
      "session_ok H ls m (\<lambda>L. n div 256 ^ L) s'" "frontier 64 cs" "concat cs = slice ls 0 n"
    using head_subtrees_ok [OF d n(2) s, of 64 n 0] n(3) by auto
  have "cs \<noteq> []"
    using cs(4) n(1,2) by (auto simp: slice_def)
  moreover have "fold (\<lambda>left acc. hash_children H left acc) (rev (butlast (map (mth H) cs))) (last (map (mth H) cs)) =
      mth H (concat cs)"
    using tlog.mth_frontier [OF cs(3) \<open>cs \<noteq> []\<close>, of H] \<open>cs \<noteq> []\<close>
    by (simp add: foldr_conv_fold map_butlast last_map)
  ultimately show ?thesis
    using cs by (simp add: tree_head_def slice_def)
qed

section \<open>Flushing\<close>

lemma run_ops_simps [simp]:
  "run_ops d [] = d" "run_ops d (op # ops) = run_ops (run_op d op) ops"
  "run_ops d (xs @ ys) = run_ops (run_ops d xs) ys"
  by (simp_all add: run_ops_def)

lemma run_removes:
  "run_ops d (map (\<lambda>x. RemoveTile (L, t, x)) xs) =
    d\<lparr>tile_files := (\<lambda>k. if k \<in> (\<lambda>x. (L, t, x)) ` set xs then None else tile_files d k)\<rparr>"
  by (induction xs arbitrary: d) (auto simp: fun_eq_iff)

text \<open>Every tile of the levels in use has a file of the width required of it.\<close>

definition readable_for :: "log_dir \<Rightarrow> (nat \<times> nat \<Rightarrow> nat) \<Rightarrow> bool" where
  "readable_for d f \<longleftrightarrow> (\<forall>L t. L < 9 \<and> 0 < f (L, t) \<longrightarrow> (\<exists>v. f (L, t) \<le> v \<and> tile_files d (L, t, v) \<noteq> None))"

definition widths :: "(nat \<Rightarrow> nat) \<Rightarrow> nat \<times> nat \<Rightarrow> nat" where
  "widths c k = width_of (c (fst k)) (snd k)"

lemma disk_readable_for: "disk_readable d m \<longleftrightarrow> readable_for d (widths (\<lambda>L. m div 256 ^ L))"
  by (simp add: disk_readable_def readable_for_def widths_def)

lemma readable_for_mono: "readable_for d g \<Longrightarrow> (\<And>k. f k \<le> g k) \<Longrightarrow> readable_for d f"
  unfolding readable_for_def by (meson le_trans less_le_trans)

lemma readable_for_cong: "(\<And>L t. L < 9 \<Longrightarrow> f (L, t) = g (L, t)) \<Longrightarrow> readable_for d f \<longleftrightarrow> readable_for d g"
  unfolding readable_for_def by metis

text \<open>Writing a run and removing other widths, stopped anywhere.\<close>

lemma replace_prefix:
  assumes c: "disk_consistent H ls d" and r: "readable_for d f" and w: "f (L, t) \<le> w" "w \<le> 256"
    and xs: "w \<notin> set xs"
  defines "ops \<equiv> WriteTile (L, t, w) (flat (row H ls L (t * 256) (t * 256 + w))) # map (\<lambda>x. RemoveTile (L, t, x)) xs"
  shows "disk_consistent H ls (run_ops d (take k ops)) \<and> readable_for (run_ops d (take k ops)) f \<and>
    readable_for (run_ops d ops) (f((L, t) := w)) \<and>
    checkpoint_file (run_ops d (take k ops)) = checkpoint_file d"
proof -
  let ?d = "\<lambda>ys. run_ops (run_op d (WriteTile (L, t, w) (flat (row H ls L (t * 256) (t * 256 + w)))))
      (map (\<lambda>x. RemoveTile (L, t, x)) ys)"
  have consistent: "disk_consistent H ls (?d ys)" for ys
    using c w(2) by (auto simp: run_removes disk_consistent_def split: if_splits)
  have readable: "readable_for (?d ys) (f((L, t) := w))" if "w \<notin> set ys" for ys
    unfolding readable_for_def
  proof (intro allI impI)
    fix M u
    assume a: "M < 9 \<and> 0 < (f((L, t) := w)) (M, u)"
    show "\<exists>v. (f((L, t) := w)) (M, u) \<le> v \<and> tile_files (?d ys) (M, u, v) \<noteq> None"
    proof (cases "(M, u) = (L, t)")
      case True
      then show ?thesis
        using that by (intro exI [of _ w]) (auto simp: run_removes)
    next
      case False
      then have "0 < f (M, u)" using a by auto
      then obtain v where "f (M, u) \<le> v" "tile_files d (M, u, v) \<noteq> None"
        using a r unfolding readable_for_def by blast
      then show ?thesis
        using False by (intro exI [of _ v]) (auto simp: run_removes)
    qed
  qed
  show ?thesis
  proof (cases k)
    case 0
    then show ?thesis
      using c r readable [OF xs] by (simp add: ops_def)
  next
    case (Suc j)
    then have e: "run_ops d (take k ops) = ?d (take j xs)"
      by (simp add: ops_def take_map)
    have "w \<notin> set (take j xs)"
      using xs by (auto dest: in_set_takeD)
    then have "readable_for (?d (take j xs)) f"
      using readable_for_mono [OF readable] w(1) by simp
    then show ?thesis
      using consistent readable [OF xs] e by (simp add: ops_def run_removes)
  qed
qed

lemma session_dirty:
  assumes s: "session_ok H ls m c s" and k: "(L, t) \<in> set (s_dirty s)"
  shows "L < 9" and "widths (\<lambda>L. m div 256 ^ L) (L, t) < widths c (L, t)"
    and "flush_tile d s (L, t) = WriteTile (L, t, widths c (L, t)) (flat (row H ls L (t * 256) (t * 256 + widths c (L, t))))
      # prune_partial_variants
          (run_op d (WriteTile (L, t, widths c (L, t)) (flat (row H ls L (t * 256) (t * 256 + widths c (L, t))))))
          L t (if widths c (L, t) = 256 then None else Some (widths c (L, t)))"
proof -
  show L: "L < 9" and lt: "widths (\<lambda>L. m div 256 ^ L) (L, t) < widths c (L, t)"
    using s k by (auto simp: session_ok_def widths_def)
  obtain b where b: "s_tiles s (L, t) = Some b"
    using session_uncached [OF s L, of t] lt by (cases "s_tiles s (L, t)") (auto simp: widths_def)
  have "b = flat (row H ls L (t * 256) (t * 256 + widths c (L, t)))"
    using session_tile [OF s L b] by (simp add: widths_def)
  moreover have "min TILE_WIDTH (s_count s ! L - t * TILE_WIDTH) = widths c (L, t)"
    using s L by (simp add: session_ok_def TILE_WIDTH_def widths_def width_of_def)
  ultimately show "flush_tile d s (L, t) = WriteTile (L, t, widths c (L, t)) (flat (row H ls L (t * 256) (t * 256 + widths c (L, t))))
      # prune_partial_variants
          (run_op d (WriteTile (L, t, widths c (L, t)) (flat (row H ls L (t * 256) (t * 256 + widths c (L, t))))))
          L t (if widths c (L, t) = 256 then None else Some (widths c (L, t)))"
    using b take_flat [of "widths c (L, t)" "row H ls L (t * 256) (t * 256 + widths c (L, t))"]
    by (simp add: flush_tile_def Let_def HASH_LEN_def) (simp add: TILE_WIDTH_def)
qed

lemma widths_le [simp]: "widths c k \<le> 256"
  by (simp add: widths_def width_of_def)

lemma flush_tiles_ok:
  assumes s: "session_ok H ls m c s"
  shows "set keys \<subseteq> set (s_dirty s) \<Longrightarrow> disk_consistent H ls d \<Longrightarrow> readable_for d f \<Longrightarrow>
    (\<And>k. f k \<le> widths c k) \<Longrightarrow>
    (\<forall>k. disk_consistent H ls (run_ops d (take k (flush_tiles d s keys))) \<and>
         readable_for (run_ops d (take k (flush_tiles d s keys))) f \<and>
         checkpoint_file (run_ops d (take k (flush_tiles d s keys))) = checkpoint_file d) \<and>
    readable_for (run_ops d (flush_tiles d s keys)) (\<lambda>k. if k \<in> set keys then widths c k else f k)"
proof (induction keys arbitrary: d f)
  case Nil
  then show ?case by simp
next
  case (Cons key keys)
  obtain L t where key: "key = (L, t)" by (cases key)
  let ?w = "widths c (L, t)"
  let ?ops = "flush_tile d s (L, t)"
  let ?d = "run_ops d ?ops"
  let ?f = "f((L, t) := ?w)"
  obtain xs where ops: "?ops = WriteTile (L, t, ?w) (flat (row H ls L (t * 256) (t * 256 + ?w)))
      # map (\<lambda>x. RemoveTile (L, t, x)) xs" and "?w \<notin> set xs"
    using session_dirty(3) [OF s, of L t d] Cons.prems(1) key
    by (auto simp: prune_partial_variants_def TILE_WIDTH_def)
  have pre: "disk_consistent H ls (run_ops d (take k ?ops)) \<and> readable_for (run_ops d (take k ?ops)) f \<and>
      readable_for ?d ?f \<and> checkpoint_file (run_ops d (take k ?ops)) = checkpoint_file d" for k
    unfolding ops using Cons.prems(2-4) \<open>?w \<notin> set xs\<close> by (intro replace_prefix) auto
  have full: "disk_consistent H ls ?d" "checkpoint_file ?d = checkpoint_file d"
    using pre [of "length ?ops"] by simp_all
  have IH: "(\<forall>k. disk_consistent H ls (run_ops ?d (take k (flush_tiles ?d s keys))) \<and>
         readable_for (run_ops ?d (take k (flush_tiles ?d s keys))) ?f \<and>
         checkpoint_file (run_ops ?d (take k (flush_tiles ?d s keys))) = checkpoint_file ?d) \<and>
    readable_for (run_ops ?d (flush_tiles ?d s keys)) (\<lambda>k. if k \<in> set keys then widths c k else ?f k)"
    using Cons.prems by (intro Cons.IH full(1) pre [THEN conjunct2, THEN conjunct2, THEN conjunct1]) auto
  have "disk_consistent H ls (run_ops d (take k (flush_tiles d s (key # keys)))) \<and>
      readable_for (run_ops d (take k (flush_tiles d s (key # keys)))) f \<and>
      checkpoint_file (run_ops d (take k (flush_tiles d s (key # keys)))) = checkpoint_file d" for k
  proof (cases "k \<le> length ?ops")
    case True
    then show ?thesis
      using pre [of k] by (simp add: key Let_def)
  next
    case False
    then show ?thesis
      using IH full Cons.prems(4) readable_for_mono [of _ ?f f] by (simp add: key Let_def)
  qed
  moreover have "readable_for (run_ops d (flush_tiles d s (key # keys)))
      (\<lambda>k. if k \<in> set (key # keys) then widths c k else f k)"
    using IH by (auto simp: key Let_def elim!: readable_for_mono)
  ultimately show ?case by blast
qed

section \<open>Reading back\<close>

lemma take_bytes_to_hashes: "n * 32 \<le> length bs \<Longrightarrow> take n (bytes_to_hashes bs) = bytes_to_hashes (take (n * 32) bs)"
proof (induction n arbitrary: bs)
  case 0
  then show ?case by (simp add: bytes_to_hashes.simps HASH_LEN_def)
next
  case (Suc n)
  then have "take n (bytes_to_hashes (drop 32 bs)) = bytes_to_hashes (take (n * 32) (drop 32 bs))"
    by (intro Suc.IH) simp
  moreover have "bytes_to_hashes bs = from_bytes (take 32 bs) # bytes_to_hashes (drop 32 bs)"
    using Suc.prems by (subst bytes_to_hashes.simps) (simp add: HASH_LEN_def)
  moreover have "bytes_to_hashes (take (Suc n * 32) bs) =
      from_bytes (take 32 bs) # bytes_to_hashes (take (n * 32) (drop 32 bs))"
    using Suc.prems by (subst bytes_to_hashes.simps) (simp add: HASH_LEN_def drop_take min_def)
  ultimately show ?case by simp
qed

lemma row_leaves: "b \<le> length ls \<Longrightarrow> row H ls 0 a b = slice ls a b"
proof (rule nth_equalityI)
  assume b: "b \<le> length ls"
  then show "length (row H ls 0 a b) = length (slice ls a b)"
    by (simp add: length_slice)
  fix i assume i: "i < length (row H ls 0 a b)"
  then have "stored H ls 0 (a + i) = ls ! (a + i)"
    using b by (simp add: stored_def slice_def Cons_nth_drop_Suc [symmetric] tlog.mth_single)
  then show "row H ls 0 a b ! i = slice ls a b ! i"
    using i b by (simp add: slice_def)
qed

lemma read_tile_hashes_ok:
  assumes "disk_consistent H ls d" "disk_readable d m" "m \<le> length ls"
    and "w = width_of m n" "0 < w"
  shows "read_tile_hashes d 0 n w = Inr (slice ls (n * 256) (n * 256 + w))"
proof -
  obtain v where "w \<le> v" "tile_files d (0, n, v) \<noteq> None"
    using assms(2,4,5) unfolding disk_readable_def by (metis div_by_1 power_0 zero_less_numeral)
  from read_tile_ok [OF assms(1) this assms(5)] obtain bs where bs: "read_tile_at_least d 0 n w = Inr bs"
      "w * 32 \<le> length bs" "take (w * 32) bs = flat (row H ls 0 (n * 256) (n * 256 + w))"
    by blast
  have "n * 256 + w \<le> length ls"
    using assms(3,4,5) by (auto simp: width_of_def)
  then show ?thesis
    using bs take_bytes_to_hashes [OF bs(2)] by (simp add: read_tile_hashes_def HASH_LEN_def row_leaves)
qed

section \<open>The canonical layout\<close>

text \<open>The files of a log of \<open>n\<close> leaves that no interrupted append has touched.\<close>

definition canonical :: "(bytes \<Rightarrow> hash32) \<Rightarrow> hash32 list \<Rightarrow> nat \<Rightarrow> nat \<times> nat \<times> nat \<Rightarrow> bytes option" where
  "canonical H ls n = (\<lambda>(L, t, v). let w = width_of (n div 256 ^ L) t in
     if L < 9 \<and> 0 < w \<and> v = w then Some (flat (row H ls L (t * 256) (t * 256 + w))) else None)"

lemma canonical_consistent: "tile_files d = canonical H ls n \<Longrightarrow> disk_consistent H ls d \<and> disk_readable d n"
  by (auto simp: disk_consistent_def disk_readable_def canonical_def Let_def width_of_def split: if_splits)

lemma replace_canonical:
  assumes old: "\<And>v. tile_files d (L, t, v) = canonical H ls m (L, t, v)"
    and mn: "m div 256 ^ L \<le> n div 256 ^ L" and L: "L < 9"
    and w: "w = width_of (n div 256 ^ L) t" "0 < w"
  defines "wr \<equiv> WriteTile (L, t, w) (flat (row H ls L (t * 256) (t * 256 + w)))"
  shows "tile_files (run_ops d (wr # prune_partial_variants (run_op d wr) L t (if w = 256 then None else Some w))) =
    (\<lambda>(M, u, v). if M = L \<and> u = t then canonical H ls n (L, t, v) else tile_files d (M, u, v))"
proof -
  have le: "width_of (m div 256 ^ L) t \<le> w" "w \<le> 256"
    using mn by (auto simp: w(1) width_of_def)
  have new: "canonical H ls n (L, t, v) =
      (if v = w then Some (flat (row H ls L (t * 256) (t * 256 + w))) else None)" for v
    using w L by (simp add: canonical_def)
  have gone: "tile_files d (L, t, v) = None" if "256 \<le> v" "v \<noteq> w" for v
    using that le old [of v] by (auto simp: canonical_def Let_def)
  have mem: "(M, u, v) \<in> (\<lambda>x. (L, t, x)) ` S \<longleftrightarrow> M = L \<and> u = t \<and> v \<in> S" for M u v and S :: "nat set"
    by auto
  have "tile_files (run_ops d (wr # prune_partial_variants (run_op d wr) L t (if w = 256 then None else Some w))) (M, u, v) =
      (if M = L \<and> u = t then canonical H ls n (L, t, v) else tile_files d (M, u, v))" for M u v
    unfolding wr_def run_ops_simps(2) prune_partial_variants_def run_removes
    using gone [of v] le(2) by (cases "v < 256") (auto simp: new mem TILE_WIDTH_def not_less)
  then show ?thesis
    by (simp add: fun_eq_iff)
qed

lemma flush_tiles_canonical:
  assumes s: "session_ok H ls m (\<lambda>L. n div 256 ^ L) s" and mn: "m \<le> n"
  shows "set keys \<subseteq> set (s_dirty s) \<Longrightarrow> distinct keys \<Longrightarrow>
    (\<And>L t v. (L, t) \<in> set keys \<Longrightarrow> tile_files d (L, t, v) = canonical H ls m (L, t, v)) \<Longrightarrow>
    tile_files (run_ops d (flush_tiles d s keys)) =
      (\<lambda>(M, u, v). if (M, u) \<in> set keys then canonical H ls n (M, u, v) else tile_files d (M, u, v))"
proof (induction keys arbitrary: d)
  case Nil
  then show ?case by (simp add: fun_eq_iff)
next
  case (Cons key keys)
  obtain L t where key: "key = (L, t)" by (cases key)
  let ?d = "run_ops d (flush_tile d s (L, t))"
  have dirty: "(L, t) \<in> set (s_dirty s)" using Cons.prems(1) key by simp
  have L: "L < 9" and pos: "0 < width_of (n div 256 ^ L) t"
    using session_dirty(1,2) [OF s dirty] by (auto simp: widths_def)
  have one: "tile_files ?d =
      (\<lambda>(M, u, v). if M = L \<and> u = t then canonical H ls n (L, t, v) else tile_files d (M, u, v))"
    unfolding session_dirty(3) [OF s dirty] unfolding widths_def fst_conv snd_conv
    using Cons.prems(3) mn L pos by (intro replace_canonical) (auto simp: key div_le_mono)
  then have "tile_files (run_ops ?d (flush_tiles ?d s keys)) =
      (\<lambda>(M, u, v). if (M, u) \<in> set keys then canonical H ls n (M, u, v) else tile_files ?d (M, u, v))"
    using Cons.prems key by (intro Cons.IH) auto
  then show ?case
    unfolding key by (auto simp: one fun_eq_iff Let_def)
qed

section \<open>The whole-tree builder\<close>

lemma write_tile_canonical:
  assumes old: "\<And>v. tile_files d (L, t, v) = canonical H ls m (L, t, v)"
    and mn: "m \<le> length ls" and L: "L < 9" and pos: "0 < width_of (length ls div 256 ^ L) t"
  shows "tile_files (run_ops d (write_tile H d L t (t * 256) (width_of (length ls div 256 ^ L) t) (256 ^ L) ls)) =
    (\<lambda>(M, u, v). if M = L \<and> u = t then canonical H ls (length ls) (L, t, v) else tile_files d (M, u, v))"
proof -
  let ?w = "width_of (length ls div 256 ^ L) t"
  have le: "m div 256 ^ L \<le> length ls div 256 ^ L"
    using mn by (rule div_le_mono)
  show ?thesis
  proof (cases "?w = 256 \<and> tile_files d (L, t, ?w) \<noteq> None")
    case True
    then have w: "width_of (m div 256 ^ L) t = 256"
      using old [of 256] by (auto simp: canonical_def Let_def split: if_splits)
    have "canonical H ls m (L, t, v) = canonical H ls (length ls) (L, t, v)" for v
      using True w by (simp add: canonical_def)
    then show ?thesis
      using True old by (auto simp: write_tile_def TILE_WIDTH_def Let_def fun_eq_iff)
  next
    case False
    have "concat (map (\<lambda>i. let start = (t * 256 + i) * 256 ^ L in as_bytes (mth H (slice ls start (start + 256 ^ L)))) [0..<?w])
        = flat (row H ls L (t * 256) (t * 256 + ?w))"
    proof -
      have "row H ls L (t * 256) (t * 256 + ?w) = map (\<lambda>i. stored H ls L (t * 256 + i)) [0..<?w]"
        by (intro nth_equalityI) simp_all
      then show ?thesis
        by (simp add: flat_def stored_def comp_def Let_def add.commute add.left_commute)
    qed
    then have e: "write_tile H d L t (t * 256) ?w (256 ^ L) ls =
        (let wr = WriteTile (L, t, ?w) (flat (row H ls L (t * 256) (t * 256 + ?w)))
         in wr # prune_partial_variants (run_op d wr) L t (if ?w = 256 then None else Some ?w))"
      using False by (simp add: write_tile_def TILE_WIDTH_def Let_def)
    show ?thesis
      unfolding e Let_def by (rule replace_canonical [OF old le L refl pos])
  qed
qed

lemma write_level_canonical:
  assumes mn: "m \<le> length ls" and L: "L < 9"
  shows "distinct ts \<Longrightarrow> (\<And>t. t \<in> set ts \<Longrightarrow> 0 < width_of (length ls div 256 ^ L) t) \<Longrightarrow>
    (\<And>t v. t \<in> set ts \<Longrightarrow> tile_files d (L, t, v) = canonical H ls m (L, t, v)) \<Longrightarrow>
    tile_files (run_ops d (write_level H d L (length ls div 256 ^ L) (256 ^ L) ls ts)) =
      (\<lambda>(M, u, v). if M = L \<and> u \<in> set ts then canonical H ls (length ls) (L, u, v) else tile_files d (M, u, v))"
proof (induction ts arbitrary: d)
  case Nil
  then show ?case by (simp add: fun_eq_iff)
next
  case (Cons t ts)
  let ?d = "run_ops d (write_tile H d L t (t * 256) (width_of (length ls div 256 ^ L) t) (256 ^ L) ls)"
  have one: "tile_files ?d =
      (\<lambda>(M, u, v). if M = L \<and> u = t then canonical H ls (length ls) (L, t, v) else tile_files d (M, u, v))"
    using Cons.prems mn L by (intro write_tile_canonical) auto
  then have "tile_files (run_ops ?d (write_level H ?d L (length ls div 256 ^ L) (256 ^ L) ls ts)) =
      (\<lambda>(M, u, v). if M = L \<and> u \<in> set ts then canonical H ls (length ls) (L, u, v) else tile_files ?d (M, u, v))"
    using Cons.prems by (intro Cons.IH) auto
  moreover have "min TILE_WIDTH (length ls div 256 ^ L - t * TILE_WIDTH) = width_of (length ls div 256 ^ L) t"
    by (simp add: width_of_def TILE_WIDTH_def)
  ultimately show ?case
    by (auto simp: one fun_eq_iff Let_def TILE_WIDTH_def)
qed

lemma canonical_empty_level: "n div 256 ^ L = 0 \<Longrightarrow> canonical H ls n (L, t, v) = None"
  by (simp add: canonical_def width_of_def)

lemma pow256_mono: "K \<le> L \<Longrightarrow> n div 256 ^ K = 0 \<Longrightarrow> n div 256 ^ L = (0 :: nat)"
  using power_increasing [of K L "256 :: nat"] by (auto simp: div_eq_0_iff intro: less_le_trans)

lemma less_exp_256: "K < (256 :: nat) ^ K"
  using less_exp [of K] power_mono [of 2 "256 :: nat" K] by linarith

lemma tile_count: "t < (255 + a) div 256 \<longleftrightarrow> 0 < width_of a t"
  by (auto simp: width_of_def)

lemma write_levels_canonical:
  assumes mn: "m \<le> length ls" and small: "length ls < u64_max"
  shows "K < 9 \<Longrightarrow> (\<And>L t v. K \<le> L \<Longrightarrow> tile_files d (L, t, v) = canonical H ls m (L, t, v)) \<Longrightarrow>
    tile_files (run_ops d (write_levels H d K ls)) =
      (\<lambda>(L, t, v). if K \<le> L then canonical H ls (length ls) (L, t, v) else tile_files d (L, t, v))"
proof (induction "9 - K" arbitrary: K d)
  case 0
  then show ?case by simp
next
  case (Suc x)
  let ?n = "length ls"
  let ?sub = "if 64 \<le> 8 * K then u64_max else 2 ^ (8 * K)"
  have avail: "(if ?sub > ?n then 0 else ?n div ?sub) = ?n div 256 ^ K"
  proof (cases "K = 8")
    case True
    then show ?thesis using small by simp
  next
    case False
    then have "?sub = 256 ^ K"
      using Suc.prems(1) by (simp add: power_mult)
    then show ?thesis by simp
  qed
  show ?case
  proof (cases "?n div 256 ^ K = 0")
    case True
    then have "write_levels H d K ls = []"
      by (subst write_levels.simps) (simp only: Let_def TILE_HEIGHT_BITS_def avail simp_thms if_True)
    moreover have "canonical H ls m (L, t, v) = canonical H ls ?n (L, t, v)" if "K \<le> L" for L t v
      using that True mn pow256_mono [OF that True] div_le_mono [OF mn, of "256 ^ L"]
      by (simp add: canonical_empty_level)
    ultimately show ?thesis
      using Suc.prems(2) by (auto simp: fun_eq_iff)
  next
    case False
    then have K8: "K < 8"
      using small Suc.prems(1) by (cases "K = 8") auto
    have "K < 256 ^ K"
      by (rule less_exp_256)
    also have "256 ^ K \<le> ?n"
      using False by (simp add: div_eq_0_iff)
    finally have "\<not> K > ?n" by simp
    let ?ts = "[0..<(?n div 256 ^ K + TILE_WIDTH - 1) div TILE_WIDTH]"
    let ?ops = "write_level H d K (?n div 256 ^ K) (256 ^ K) ls ?ts"
    have ts: "t \<in> set ?ts \<longleftrightarrow> 0 < width_of (?n div 256 ^ K) t" for t
      using tile_count [of t "?n div 256 ^ K"] by (simp add: TILE_WIDTH_def)
    have e: "write_levels H d K ls = ?ops @ write_levels H (run_ops d ?ops) (Suc K) ls"
      using False \<open>\<not> K > ?n\<close> avail K8
      by (subst write_levels.simps) (simp add: Let_def TILE_HEIGHT_BITS_def power_mult)
    have one: "tile_files (run_ops d ?ops) = (\<lambda>(M, u, v). if M = K \<and> u \<in> set ?ts
        then canonical H ls ?n (K, u, v) else tile_files d (M, u, v))"
      using Suc.prems ts mn by (intro write_level_canonical) auto
    have rest: "tile_files d (K, u, v) = canonical H ls ?n (K, u, v)" if "u \<notin> set ?ts" for u v
    proof -
      have "width_of (?n div 256 ^ K) u = 0" using ts that by auto
      moreover have "width_of (m div 256 ^ K) u \<le> width_of (?n div 256 ^ K) u"
        using div_le_mono [OF mn, of "256 ^ K"] by (auto simp: width_of_def)
      ultimately show ?thesis
        using Suc.prems(2) [of K] by (simp add: canonical_def)
    qed
    have "tile_files (run_ops (run_ops d ?ops) (write_levels H (run_ops d ?ops) (Suc K) ls)) =
        (\<lambda>(L, t, v). if Suc K \<le> L then canonical H ls ?n (L, t, v) else tile_files (run_ops d ?ops) (L, t, v))"
      using Suc.hyps Suc.prems K8 one by (intro Suc.hyps(1)) auto
    then show ?thesis
      unfolding e run_ops_simps using one rest by (auto simp: fun_eq_iff le_Suc_eq not_less_eq_eq)
  qed
qed

lemma materialize_canonical:
  assumes "tile_files d = canonical H ls m" and "m \<le> length ls" and "length ls < u64_max"
  shows "tile_files (run_ops d (snd (materialize H origin d ls))) = canonical H ls (length ls)"
proof (cases "length ls = 0")
  case True
  then show ?thesis
    using assms by (simp add: materialize_def Let_def)
next
  case False
  have "tile_files (run_ops d (write_levels H d 0 ls)) = canonical H ls (length ls)"
    using write_levels_canonical [OF assms(2,3), of 0 d H] assms(1) by (auto simp: fun_eq_iff)
  then show ?thesis
    using False by (simp add: materialize_def Let_def)
qed

section \<open>Properties\<close>

lemma append_session:
  assumes d: "disk_consistent H ls d" "disk_readable d (log_size d)"
    and n: "log_size d \<le> n" "n \<le> length ls" "n < 2 ^ 64"
  obtains s where "append_leaf_hashes H origin d (slice ls (log_size d) n) =
      Inr (\<lparr>cp_origin = origin, cp_size = n, cp_root = mth H (take n ls)\<rparr>,
        session_flush d s @ [WriteCheckpoint \<lparr>cp_origin = origin, cp_size = n, cp_root = mth H (take n ls)\<rparr>])"
    and "session_ok H ls (log_size d) (\<lambda>L. n div 256 ^ L) s"
proof -
  let ?m = "log_size d"
  obtain s1 where s1: "push_leaves H d (session_open ?m) ?m (slice ls ?m n) = Inr (s1, n)"
      "session_ok H ls ?m (\<lambda>L. n div 256 ^ L) s1"
    using push_leaves_ok [OF d n(2) order_refl n(1) session_open_ok] n by auto
  obtain s2 where s2: "(if n = 0 then Inr (s1, empty_root H) else tree_head H d s1 n) = Inr (s2, mth H (take n ls))"
      "session_ok H ls ?m (\<lambda>L. n div 256 ^ L) s2"
  proof (cases "n = 0")
    case True
    then show thesis
      using that s1(2) by (simp add: mth.simps)
  next
    case False
    then show thesis
      using that tree_head_ok [OF d s1(2) _ n(2,3)] by auto
  qed
  have "append_leaf_hashes H origin d (slice ls ?m n) =
      Inr (\<lparr>cp_origin = origin, cp_size = n, cp_root = mth H (take n ls)\<rparr>,
        session_flush d s2 @ [WriteCheckpoint \<lparr>cp_origin = origin, cp_size = n, cp_root = mth H (take n ls)\<rparr>])"
    using s1(1) s2(1) by (simp add: append_leaf_hashes_def Let_def)
  then show thesis
    using that s2(2) by blast
qed

lemma flush_readable:
  assumes s: "session_ok H ls m (\<lambda>L. n div 256 ^ L) s" and d: "disk_consistent H ls d" "disk_readable d m"
  shows "disk_consistent H ls (run_ops d (take k (session_flush d s))) \<and>
    disk_readable (run_ops d (take k (session_flush d s))) m \<and>
    checkpoint_file (run_ops d (take k (session_flush d s))) = checkpoint_file d"
    and "disk_consistent H ls (run_ops d (session_flush d s)) \<and> disk_readable (run_ops d (session_flush d s)) n"
proof -
  let ?c = "\<lambda>L. n div 256 ^ L" and ?f = "widths (\<lambda>L. m div 256 ^ L)"
  have le: "m div 256 ^ L \<le> n div 256 ^ L" if "L < 9" for L
    using s that by (simp add: session_ok_def)
  let ?g = "\<lambda>k. if fst k < 9 then ?f k else 0"
  have r: "readable_for d ?g"
    using d(2) unfolding disk_readable_for by (rule readable_for_mono) simp
  have g: "?g k \<le> widths ?c k" for k
    using le [of "fst k"] by (auto simp: widths_def width_of_def intro: min.mono diff_le_mono)
  have same: "disk_readable d' m \<longleftrightarrow> readable_for d' ?g" for d'
    by (auto simp: disk_readable_for readable_for_def)
  have fl: "(\<forall>k. disk_consistent H ls (run_ops d (take k (session_flush d s))) \<and>
        readable_for (run_ops d (take k (session_flush d s))) ?g \<and>
        checkpoint_file (run_ops d (take k (session_flush d s))) = checkpoint_file d) \<and>
      readable_for (run_ops d (session_flush d s))
        (\<lambda>k. if k \<in> set (sort (s_dirty s)) then widths ?c k else ?g k)"
    unfolding session_flush_def by (rule flush_tiles_ok [OF s _ d(1) r g]) simp
  show "disk_consistent H ls (run_ops d (take k (session_flush d s))) \<and>
    disk_readable (run_ops d (take k (session_flush d s))) m \<and>
    checkpoint_file (run_ops d (take k (session_flush d s))) = checkpoint_file d"
    unfolding same by (rule spec [OF conjunct1 [OF fl]])
  have "readable_for (run_ops d (session_flush d s)) (\<lambda>k. if k \<in> set (s_dirty s) then widths ?c k else ?g k)"
    using conjunct2 [OF fl] unfolding set_sort .
  moreover have "(if (L, t) \<in> set (s_dirty s) then widths ?c (L, t) else ?g (L, t)) = widths ?c (L, t)"
    if "L < 9" for L t
    using that session_dirty_iff [OF s, of L t] g [of "(L, t)"] by (simp add: widths_def)
  ultimately have "disk_readable (run_ops d (session_flush d s)) n"
    unfolding disk_readable_for by (subst (asm) readable_for_cong)
  moreover have "disk_consistent H ls (run_ops d (session_flush d s))"
    using spec [OF conjunct1 [OF fl], of "length (session_flush d s)"] unfolding take_all [OF order_refl] by (rule conjunct1)
  ultimately show "disk_consistent H ls (run_ops d (session_flush d s)) \<and> disk_readable (run_ops d (session_flush d s)) n"
    by blast
qed

text \<open>C5: Appending the next leaves of the authoritative sequence to a tile log succeeds and
  returns the checkpoint of the longer log with its RFC 6962 root. However many of its file
  operations a crash lets through, the tiles are runs of the authoritative rows, the committed
  leaves stay readable, and the committed size is the old or the new one.\<close>

theorem append_crash_safe:
  assumes "disk_consistent H ls d" and "disk_readable d (log_size d)"
    and "log_size d \<le> n" and "n \<le> length ls" and "n < 2 ^ 64"
  shows "\<exists>ops. append_leaf_hashes H origin d (slice ls (log_size d) n) =
      Inr (\<lparr>cp_origin = origin, cp_size = n, cp_root = mth H (take n ls)\<rparr>, ops) \<and>
    log_size (run_ops d ops) = n \<and>
    (\<forall>k. let d' = run_ops d (take k ops) in
       disk_consistent H ls d' \<and> disk_readable d' (log_size d') \<and> (log_size d' = log_size d \<or> log_size d' = n))"
proof -
  let ?cp = "\<lparr>cp_origin = origin, cp_size = n, cp_root = mth H (take n ls)\<rparr>"
  obtain s where a: "append_leaf_hashes H origin d (slice ls (log_size d) n) =
        Inr (?cp, session_flush d s @ [WriteCheckpoint ?cp])"
      and s: "session_ok H ls (log_size d) (\<lambda>L. n div 256 ^ L) s"
    using append_session [OF assms] by metis
  let ?fl = "session_flush d s"
  let ?ops = "?fl @ [WriteCheckpoint ?cp]"
  note pre = flush_readable(1) [OF s assms(1,2)] and post = flush_readable(2) [OF s assms(1,2)]
  have fin: "log_size (run_ops d ?ops) = n" "disk_consistent H ls (run_ops d ?ops)" "disk_readable (run_ops d ?ops) n"
    using post by (simp_all add: log_size_def disk_consistent_def disk_readable_def)
  have "let d' = run_ops d (take k ?ops) in
       disk_consistent H ls d' \<and> disk_readable d' (log_size d') \<and> (log_size d' = log_size d \<or> log_size d' = n)" for k
  proof (cases "k \<le> length ?fl")
    case True
    then show ?thesis
      using pre [of k] by (simp add: log_size_def Let_def)
  next
    case False
    then have "take k ?ops = ?ops" by simp
    then show ?thesis
      using fin by (simp add: Let_def)
  qed
  with a fin(1) show ?thesis by blast
qed

definition fresh_dir :: log_dir where
  "fresh_dir = \<lparr>tile_files = (\<lambda>_. None), checkpoint_file = None\<rparr>"

lemma fresh_canonical: "tile_files fresh_dir = canonical H ls 0"
  by (simp add: fresh_dir_def canonical_def fun_eq_iff width_of_def)

lemma fresh_ok: "disk_consistent H ls fresh_dir" "disk_readable fresh_dir 0" "log_size fresh_dir = 0"
  using canonical_consistent [OF fresh_canonical] by (simp_all add: fresh_dir_def log_size_def)

theorem append_crash_safe_witness:
  "\<exists>ops. append_leaf_hashes toy_hash (mk_str []) fresh_dir [digest 1, digest 2] =
      Inr (\<lparr>cp_origin = mk_str [], cp_size = 2, cp_root = mth toy_hash [digest 1, digest 2]\<rparr>, ops) \<and>
    log_size (run_ops fresh_dir ops) = 2"
  using append_crash_safe [of toy_hash "[digest 1, digest 2]" fresh_dir 2 "mk_str []"] fresh_ok
  by (auto simp: slice_def)

text \<open>C7: A log whose tiles are readable for its committed size gives back the first leaves of
  the authoritative sequence, also after an interrupted append.\<close>

theorem load_leaves_committed:
  assumes "disk_consistent H ls d" and "disk_readable d (log_size d)" and "log_size d \<le> length ls"
  shows "load_leaves d = Inr (take (log_size d) ls)"
proof -
  let ?m = "log_size d"
  let ?full = "?m div 256" and ?rem = "?m mod 256"
  have full: "read_tile_hashes d 0 n TILE_WIDTH = Inr (slice ls (n * 256) ((n + 1) * 256))" if "n < ?full" for n
  proof -
    have "n * 256 + 256 \<le> ?m"
      using that by linarith
    then have "width_of ?m n = 256"
      by (simp add: width_of_def)
    then show ?thesis
      using read_tile_hashes_ok [OF assms, of 256 n] by (simp add: TILE_WIDTH_def add.commute)
  qed
  have "res_map (\<lambda>n. read_tile_hashes d 0 n TILE_WIDTH) [0..<?full] =
      Inr (map (\<lambda>n. slice ls (n * 256) ((n + 1) * 256)) [0..<?full])"
    using full by (auto simp: res_map_Inr_iff list_all2_conv_all_nth)
  moreover have "concat (map (\<lambda>n. slice ls (n * 256) ((n + 1) * 256)) [0..<?full]) = slice ls 0 (?full * 256)"
    using concat_slices [of 0 ?full ls 256] by simp
  moreover have "0 < ?rem \<Longrightarrow> read_tile_hashes d 0 ?full ?rem = Inr (slice ls (?full * 256) ?m)"
    using read_tile_hashes_ok [OF assms, of ?rem ?full] width_of_Suc(2) [of ?full ?m] by simp
  moreover have "slice ls 0 (?full * 256) @ slice ls (?full * 256) ?m = slice ls 0 ?m"
    by (rule slice_append) simp_all
  moreover have "?rem = 0 \<Longrightarrow> ?full * 256 = ?m"
    by (metis mod_0_imp_dvd dvd_div_mult_self)
  ultimately show ?thesis
    by (simp add: load_leaves_def TILE_WIDTH_def Let_def slice_def)
qed

theorem load_leaves_committed_witness:
  "load_leaves \<lparr>tile_files = canonical toy_hash [digest 1, digest 2, digest 3] 2,
      checkpoint_file = Some \<lparr>cp_origin = mk_str [], cp_size = 2, cp_root = digest 0\<rparr>\<rparr> = Inr [digest 1, digest 2]"
proof -
  let ?d = "\<lparr>tile_files = canonical toy_hash [digest 1, digest 2, digest 3] 2,
      checkpoint_file = Some \<lparr>cp_origin = mk_str [], cp_size = 2, cp_root = digest 0\<rparr>\<rparr>"
  have "disk_consistent toy_hash [digest 1, digest 2, digest 3] ?d \<and> disk_readable ?d 2"
    by (rule canonical_consistent) simp
  then show ?thesis
    using load_leaves_committed [of toy_hash "[digest 1, digest 2, digest 3]" ?d] by (simp add: log_size_def)
qed

text \<open>C6: The incremental writer and the whole-tree builder agree: appending to a log written
  without interruption gives the checkpoint and exactly the tile files that the builder writes
  for all leaves into an empty directory.\<close>

theorem append_equals_materialize:
  assumes "tile_files d = canonical H ls (log_size d)" and "log_size d \<le> length ls" and "length ls < u64_max"
  shows "\<exists>cp ops. append_leaf_hashes H origin d (drop (log_size d) ls) = Inr (cp, ops) \<and>
    cp = fst (materialize H origin fresh_dir ls) \<and>
    tile_files (run_ops d ops) = tile_files (run_ops fresh_dir (snd (materialize H origin fresh_dir ls)))"
proof -
  let ?n = "length ls" and ?m = "log_size d"
  let ?cp = "\<lparr>cp_origin = origin, cp_size = ?n, cp_root = mth H ls\<rparr>"
  have ok: "disk_consistent H ls d" "disk_readable d ?m"
    using canonical_consistent [OF assms(1)] by auto
  obtain s where a: "append_leaf_hashes H origin d (slice ls ?m ?n) =
        Inr (?cp, session_flush d s @ [WriteCheckpoint ?cp])"
      and s: "session_ok H ls ?m (\<lambda>L. ?n div 256 ^ L) s"
    using append_session [OF ok assms(2) order_refl, of origin] assms(3) by auto
  have dist: "distinct (s_dirty s)"
    using s by (simp add: session_ok_def)
  have "tile_files (run_ops d (session_flush d s)) =
      (\<lambda>(M, u, v). if (M, u) \<in> set (s_dirty s) then canonical H ls ?n (M, u, v) else tile_files d (M, u, v))"
    unfolding session_flush_def using flush_tiles_canonical [OF s assms(2), of "sort (s_dirty s)" d] assms(1) dist
    by simp
  also have "\<dots> = canonical H ls ?n"
  proof (rule ext, clarify)
    fix M u v
    show "(if (M, u) \<in> set (s_dirty s) then canonical H ls ?n (M, u, v) else tile_files d (M, u, v)) =
        canonical H ls ?n (M, u, v)"
    proof (cases "M < 9 \<and> (M, u) \<notin> set (s_dirty s)")
      case True
      then have "\<not> width_of (?m div 256 ^ M) u < width_of (?n div 256 ^ M) u"
        using session_dirty_iff [OF s] by blast
      moreover have "width_of (?m div 256 ^ M) u \<le> width_of (?n div 256 ^ M) u"
        using div_le_mono [OF assms(2), of "256 ^ M"] by (auto simp: width_of_def)
      ultimately show ?thesis
        using assms(1) by (simp add: canonical_def)
    next
      case False
      then show ?thesis
        using assms(1) by (auto simp: canonical_def)
    qed
  qed
  finally have "tile_files (run_ops d (session_flush d s)) = canonical H ls ?n" .
  moreover have "tile_files (run_ops fresh_dir (snd (materialize H origin fresh_dir ls))) = canonical H ls ?n"
    using assms(3) by (intro materialize_canonical [OF fresh_canonical]) simp_all
  moreover have "fst (materialize H origin fresh_dir ls) = ?cp"
    by (simp add: materialize_def Let_def mth.simps)
  moreover have "slice ls ?m ?n = drop ?m ls"
    by (simp add: slice_def)
  ultimately show ?thesis
    using a by simp
qed

theorem append_equals_materialize_witness:
  "\<exists>cp ops. append_leaf_hashes toy_hash (mk_str []) fresh_dir [digest 1, digest 2] = Inr (cp, ops) \<and>
    cp = fst (materialize toy_hash (mk_str []) fresh_dir [digest 1, digest 2]) \<and>
    tile_files (run_ops fresh_dir ops) =
      tile_files (run_ops fresh_dir (snd (materialize toy_hash (mk_str []) fresh_dir [digest 1, digest 2])))"
  using append_equals_materialize [of fresh_dir toy_hash "[digest 1, digest 2]" "mk_str []"] fresh_canonical fresh_ok(3)
  by simp

end
