(* ===== verification/SeriesMerkle.thy ===== *)
theory SeriesMerkle
  imports MerkleTree Cursor
begin

text \<open>
  The tree over the ordered leaf hashes of a logical series, \<open>content/series_merkle.rs\<close>: its
  root, the append frontier, and the range proofs with their wire format. BLAKE3 is the
  parameter \<open>H\<close>. Counts and positions are \<open>u64\<close> values, modelled as \<open>nat\<close> with the checked
  arithmetic of the source written out; the fields of a proof node are \<open>u64\<close> words.
\<close>

section \<open>Hashing and the reference root\<close>

definition MERKLE_DOMAIN :: bytes where "MERKLE_DOMAIN = ascii ''watertown.series-merkle.v1'' @ [10]"
definition TAG_EMPTY :: byte where "TAG_EMPTY = 0x00"
definition TAG_LEAF :: byte where "TAG_LEAF = 0x01"
definition TAG_NODE :: byte where "TAG_NODE = 0x02"
definition PROOF_MAGIC :: bytes where "PROOF_MAGIC = ascii ''watertown.series-range-proof.v1'' @ [10]"
definition PROOF_NODE_MIN_BYTES :: nat where "PROOF_NODE_MIN_BYTES = 8 + 8 + 32"

definition series_empty_root :: "(bytes \<Rightarrow> hash32) \<Rightarrow> hash32" where
  "series_empty_root H = H (MERKLE_DOMAIN @ [TAG_EMPTY])"

definition leaf_node_hash :: "(bytes \<Rightarrow> hash32) \<Rightarrow> hash32 \<Rightarrow> hash32" where
  "leaf_node_hash H leaf = H (MERKLE_DOMAIN @ [TAG_LEAF] @ as_bytes leaf)"

definition interior_hash :: "(bytes \<Rightarrow> hash32) \<Rightarrow> hash32 \<Rightarrow> hash32 \<Rightarrow> hash32" where
  "interior_hash H left right = H (MERKLE_DOMAIN @ [TAG_NODE] @ as_bytes left @ as_bytes right)"

text \<open>\<open>63 - x.leading_zeros()\<close>, the index of the highest set bit of \<open>x\<close>.\<close>

definition highest_bit :: "nat \<Rightarrow> nat" where
  "highest_bit x = bit_length x - 1"

definition series_split_point :: "nat \<Rightarrow> nat" where
  "series_split_point n = 2 ^ highest_bit (n - 1)"

lemma series_split_point_eq: "series_split_point n = pow2_below n"
  by (simp add: series_split_point_def pow2_below_def highest_bit_def)

function subtree_hash :: "(bytes \<Rightarrow> hash32) \<Rightarrow> hash32 list \<Rightarrow> hash32" where
  "subtree_hash H leaves =
    (if length leaves = 0 then series_empty_root H
     else if length leaves = 1 then leaf_node_hash H (leaves ! 0)
     else let k = series_split_point (length leaves) in
       interior_hash H (subtree_hash H (take k leaves)) (subtree_hash H (drop k leaves)))"
  by auto
termination
proof (relation "measure (\<lambda>(H, leaves). length leaves)")
  fix H k and leaves :: "hash32 list"
  assume "length leaves \<noteq> 0" "length leaves \<noteq> 1" and k: "k = series_split_point (length leaves)"
  then have "1 < length leaves" by linarith
  from pow2_below_bounds [OF this] show
    "((H, take k leaves), (H, leaves)) \<in> measure (\<lambda>(H, leaves). length leaves)"
    "((H, drop k leaves), (H, leaves)) \<in> measure (\<lambda>(H, leaves). length leaves)"
    by (auto simp: k series_split_point_eq)
qed simp

declare subtree_hash.simps [simp del]

interpretation series: rfc6962 "subtree_hash H" "leaf_node_hash H" "interior_hash H" for H
proof unfold_locales
  fix x
  show "subtree_hash H [x] = leaf_node_hash H x"
    by (simp add: subtree_hash.simps)
next
  fix xs :: "hash32 list"
  assume "1 < length xs"
  then show "subtree_hash H xs = interior_hash H (subtree_hash H (take (pow2_below (length xs)) xs))
      (subtree_hash H (drop (pow2_below (length xs)) xs))"
    by (subst subtree_hash.simps) (auto simp: series_split_point_eq Let_def)
qed

section \<open>The append frontier\<close>

record frontier_peak =
  fp_count :: nat
  fp_hash :: hash32

record merkle_frontier =
  leaf_count :: nat
  peaks :: "frontier_peak list"

definition frontier_empty :: merkle_frontier where
  "frontier_empty = \<lparr>leaf_count = 0, peaks = []\<rparr>"

text \<open>The loop of \<open>append\<close>: pop the trailing peaks of the size of the carry.\<close>

function merge_peaks ::
    "(bytes \<Rightarrow> hash32) \<Rightarrow> frontier_peak list \<Rightarrow> frontier_peak \<Rightarrow> error + frontier_peak list" where
  "merge_peaks H ps carry =
    (if ps \<noteq> [] \<and> fp_count (last ps) = fp_count carry then
       res_bind (require (fp_count carry * 2 \<le> u64_max) (Reject ''series Merkle frontier peak size overflow''))
         (\<lambda>_. merge_peaks H (butlast ps)
           \<lparr>fp_count = fp_count carry * 2, fp_hash = interior_hash H (fp_hash (last ps)) (fp_hash carry)\<rparr>)
     else Inr (ps @ [carry]))"
  by auto
termination
  by (relation "measure (\<lambda>(H, ps, carry). length ps)") auto

declare merge_peaks.simps [simp del]

definition frontier_append :: "(bytes \<Rightarrow> hash32) \<Rightarrow> merkle_frontier \<Rightarrow> hash32 \<Rightarrow> error + merkle_frontier" where
  "frontier_append H f leaf =
    res_bind (require (leaf_count f + 1 \<le> u64_max) (Reject ''series Merkle frontier leaf count overflow''))
      (\<lambda>_. res_bind (merge_peaks H (peaks f) \<lparr>fp_count = 1, fp_hash = leaf_node_hash H leaf\<rparr>)
        (\<lambda>ps. Inr \<lparr>leaf_count = leaf_count f + 1, peaks = ps\<rparr>))"

fun extended :: "(bytes \<Rightarrow> hash32) \<Rightarrow> merkle_frontier \<Rightarrow> hash32 list \<Rightarrow> error + merkle_frontier" where
  "extended H f [] = Inr f"
| "extended H f (leaf # leaves) = res_bind (frontier_append H f leaf) (\<lambda>f. extended H f leaves)"

text \<open>\<open>from_leaves\<close> unwraps every append: an error there is a panic.\<close>

definition from_leaves :: "(bytes \<Rightarrow> hash32) \<Rightarrow> hash32 list \<Rightarrow> error + merkle_frontier" where
  "from_leaves H leaves =
    (case extended H frontier_empty leaves of
       Inl e \<Rightarrow> Inl (Panic ''a slice length always fits in u64 on supported platforms'')
     | Inr f \<Rightarrow> Inr f)"

function frontier_peak_counts :: "nat \<Rightarrow> nat list" where
  "frontier_peak_counts n =
    (if n = 0 then [] else let c = 2 ^ highest_bit n in c # frontier_peak_counts (n - c))"
  by auto
termination
  by (relation "measure id") auto

declare frontier_peak_counts.simps [simp del]

definition from_peak_hashes :: "nat \<Rightarrow> hash32 list \<Rightarrow> error + merkle_frontier" where
  "from_peak_hashes n hashes =
    (let counts = frontier_peak_counts n in
     if length counts \<noteq> length hashes
     then Inl (Reject ''series Merkle frontier for the leaves needs another number of peaks'')
     else Inr \<lparr>leaf_count = n,
       peaks = map (\<lambda>(c, h). \<lparr>fp_count = c, fp_hash = h\<rparr>) (zip counts hashes)\<rparr>)"

definition peak_hashes :: "merkle_frontier \<Rightarrow> hash32 list" where
  "peak_hashes f = map fp_hash (peaks f)"

definition frontier_root :: "(bytes \<Rightarrow> hash32) \<Rightarrow> merkle_frontier \<Rightarrow> hash32" where
  "frontier_root H f =
    (if peaks f = [] then series_empty_root H
     else fold (\<lambda>peak root. interior_hash H (fp_hash peak) root) (rev (butlast (peaks f)))
       (fp_hash (last (peaks f))))"

definition merkle_root :: "(bytes \<Rightarrow> hash32) \<Rightarrow> hash32 list \<Rightarrow> error + hash32" where
  "merkle_root H leaves = res_bind (from_leaves H leaves) (\<lambda>f. Inr (frontier_root H f))"

section \<open>Frontier correctness\<close>

text \<open>The frontier of a list of leaves: its perfect subtrees, the largest first.\<close>

definition peak_of :: "(bytes \<Rightarrow> hash32) \<Rightarrow> hash32 list \<Rightarrow> frontier_peak" where
  "peak_of H c = \<lparr>fp_count = length c, fp_hash = subtree_hash H c\<rparr>"

definition shaped :: "nat list \<Rightarrow> 'a list list \<Rightarrow> bool" where
  "shaped es cs \<longleftrightarrow> sorted_wrt (>) es \<and> map length cs = map (\<lambda>e. 2 ^ e) es"

definition represents :: "(bytes \<Rightarrow> hash32) \<Rightarrow> merkle_frontier \<Rightarrow> hash32 list \<Rightarrow> bool" where
  "represents H f xs \<longleftrightarrow> leaf_count f = length xs \<and> length xs \<le> u64_max \<and>
     (\<exists>es cs. shaped es cs \<and> concat cs = xs \<and> peaks f = map (peak_of H) cs)"

lemma shaped_Nil [simp]: "shaped es [] \<longleftrightarrow> es = []" "shaped [] cs \<longleftrightarrow> cs = []"
  by (auto simp: shaped_def)

lemma shaped_Cons:
  "shaped (e # es) (c # cs) \<longleftrightarrow> length c = 2 ^ e \<and> (\<forall>x \<in> set es. x < e) \<and> shaped es cs"
  by (auto simp: shaped_def)

lemma shaped_snoc:
  "shaped (es @ [e]) (cs @ [c]) \<longleftrightarrow> length c = 2 ^ e \<and> (\<forall>x \<in> set es. e < x) \<and> shaped es cs"
  by (auto simp: shaped_def sorted_wrt_append)

lemma shaped_length: "shaped es cs \<Longrightarrow> length es = length cs"
  by (auto simp: shaped_def dest: map_eq_imp_length_eq)

lemma shaped_frontier: "shaped es cs \<Longrightarrow> \<forall>e \<in> set es. e < b \<Longrightarrow> frontier b cs"
proof (induction cs arbitrary: es b)
  case (Cons c cs)
  obtain e es' where es: "es = e # es'"
    using shaped_length [OF Cons.prems(1)] by (cases es) auto
  with Cons.prems have "length c = 2 ^ e" "e < b" "frontier e cs"
    using Cons.IH [of es' e] by (auto simp: shaped_Cons)
  then show ?case by auto
qed simp

lemma shaped_frontier_ex: "shaped es cs \<Longrightarrow> \<exists>b. frontier b cs"
proof -
  assume "shaped es cs"
  moreover have "\<forall>e \<in> set es. e < Suc (Max (set es))"
    by (auto simp: le_imp_less_Suc)
  ultimately show ?thesis
    using shaped_frontier by blast
qed

lemma merge_peaks_shaped:
  "shaped es cs \<Longrightarrow> \<forall>e \<in> set es. j \<le> e \<Longrightarrow> length c = 2 ^ j \<Longrightarrow> length (concat cs) + 2 ^ j \<le> u64_max \<Longrightarrow>
    \<exists>es' cs'. merge_peaks H (map (peak_of H) cs) (peak_of H c) = Inr (map (peak_of H) cs') \<and>
      shaped es' cs' \<and> concat cs' = concat cs @ c"
proof (induction es arbitrary: cs c j rule: rev_induct)
  case Nil
  then show ?case
    by (intro exI [of _ "[j]"] exI [of _ "[c]"]) (simp add: merge_peaks.simps shaped_Cons)
next
  case (snoc e es)
  obtain ds d where cs: "cs = ds @ [d]"
    using shaped_length [OF snoc.prems(1)] by (cases cs rule: rev_cases) auto
  have d: "length d = 2 ^ e" "\<forall>x \<in> set es. e < x" "shaped es ds"
    using snoc.prems(1) by (auto simp: cs shaped_snoc)
  show ?case
  proof (cases "e = j")
    case True
    have h: "peak_of H (d @ c) =
        \<lparr>fp_count = 2 ^ j * 2, fp_hash = interior_hash H (subtree_hash H d) (subtree_hash H c)\<rparr>"
      using d(1) True snoc.prems(3) by (simp add: peak_of_def series.mth_append [of d j c])
    have fit: "2 ^ j * 2 \<le> u64_max"
      using snoc.prems(4) d(1) True by (simp add: cs)
    have "\<exists>es' cs'. merge_peaks H (map (peak_of H) ds) (peak_of H (d @ c)) = Inr (map (peak_of H) cs') \<and>
        shaped es' cs' \<and> concat cs' = concat ds @ d @ c"
      using d True snoc.prems(3,4) by (intro snoc.IH [of ds "Suc j"]) (auto simp: cs)
    moreover have "merge_peaks H (map (peak_of H) cs) (peak_of H c) =
        merge_peaks H (map (peak_of H) ds) (peak_of H (d @ c))"
      using d(1) True snoc.prems(3) fit
      by (subst merge_peaks.simps) (simp add: cs h, simp add: peak_of_def)
    ultimately show ?thesis
      by (simp add: cs)
  next
    case False
    then have "merge_peaks H (map (peak_of H) cs) (peak_of H c) = Inr (map (peak_of H) (cs @ [c]))"
      using d(1) snoc.prems(3) by (subst merge_peaks.simps) (simp add: cs peak_of_def)
    moreover have "shaped ((es @ [e]) @ [j]) (cs @ [c])"
      using snoc.prems(1,2,3) d(2) False by (subst shaped_snoc) auto
    ultimately show ?thesis
      by (intro exI [of _ "(es @ [e]) @ [j]"] exI [of _ "cs @ [c]"]) simp
  qed
qed

lemma frontier_append_represents:
  assumes "represents H f xs"
  shows "if length xs < u64_max then \<exists>f'. frontier_append H f x = Inr f' \<and> represents H f' (xs @ [x])
    else frontier_append H f x = Inl (Reject ''series Merkle frontier leaf count overflow'')"
proof (cases "length xs < u64_max")
  case True
  obtain es cs where cs: "shaped es cs" "concat cs = xs" "peaks f = map (peak_of H) cs"
    using assms by (auto simp: represents_def)
  have "peak_of H [x] = \<lparr>fp_count = 1, fp_hash = leaf_node_hash H x\<rparr>"
    by (simp add: peak_of_def series.mth_single)
  with merge_peaks_shaped [OF cs(1), of 0 "[x]" H] obtain es' cs' where
      "merge_peaks H (peaks f) \<lparr>fp_count = 1, fp_hash = leaf_node_hash H x\<rparr> = Inr (map (peak_of H) cs')"
      "shaped es' cs'" "concat cs' = xs @ [x]"
    using cs True by auto
  moreover have "leaf_count f = length xs"
    using assms by (simp add: represents_def)
  ultimately have "frontier_append H f x = Inr \<lparr>leaf_count = length xs + 1, peaks = map (peak_of H) cs'\<rparr>"
      "represents H \<lparr>leaf_count = length xs + 1, peaks = map (peak_of H) cs'\<rparr> (xs @ [x])"
    using True by (auto simp: frontier_append_def represents_def)
  then show ?thesis
    using True by auto
next
  case False
  then show ?thesis
    using assms by (simp add: frontier_append_def represents_def)
qed

lemma represents_empty: "represents H frontier_empty []"
  by (auto simp: represents_def frontier_empty_def intro: exI [of _ "[]"])

lemma extended_represents:
  "represents H f xs \<Longrightarrow> length xs + length ys \<le> u64_max \<Longrightarrow>
    \<exists>f'. extended H f ys = Inr f' \<and> represents H f' (xs @ ys)"
proof (induction ys arbitrary: f xs)
  case (Cons y ys)
  then obtain f' where "frontier_append H f y = Inr f'" "represents H f' (xs @ [y])"
    using frontier_append_represents [OF Cons.prems(1), of y] by auto
  with Cons.IH [of f' "xs @ [y]"] Cons.prems(2) show ?case by simp
qed simp

lemma represents_root: "represents H f xs \<Longrightarrow> frontier_root H f = subtree_hash H xs"
proof -
  assume "represents H f xs"
  then obtain es cs where cs: "shaped es cs" "concat cs = xs" "peaks f = map (peak_of H) cs"
    by (auto simp: represents_def)
  show ?thesis
  proof (cases "cs = []")
    case True
    then show ?thesis
      using cs by (auto simp: frontier_root_def subtree_hash.simps)
  next
    case False
    obtain b where "frontier b cs"
      using shaped_frontier_ex [OF cs(1)] by blast
    have "frontier_root H f = fold (\<lambda>c. interior_hash H (subtree_hash H c)) (rev (butlast cs)) (subtree_hash H (last cs))"
      using False by (simp add: frontier_root_def cs(3) last_map peak_of_def map_butlast [symmetric]
          rev_map fold_map comp_def)
    also have "\<dots> = foldr (interior_hash H) (map (subtree_hash H) (butlast cs)) (subtree_hash H (last cs))"
      by (simp add: foldr_conv_fold rev_map fold_map comp_def)
    finally show ?thesis
      using series.mth_frontier [OF \<open>frontier b cs\<close> False, of H] cs(2) by simp
  qed
qed

lemma shaped_counts: "shaped es cs \<Longrightarrow> map length cs = frontier_peak_counts (length (concat cs))"
proof (induction cs arbitrary: es)
  case Nil
  then show ?case by (simp add: frontier_peak_counts.simps)
next
  case (Cons c cs)
  obtain e es' where es: "es = e # es'"
    using shaped_length [OF Cons.prems] by (cases es) auto
  have c: "length c = 2 ^ e" "shaped es' cs" "\<forall>x \<in> set es'. x < e"
    using Cons.prems by (auto simp: es shaped_Cons)
  have lt: "length (concat cs) < 2 ^ e"
    using frontier_length [OF shaped_frontier [OF c(2,3)]] .
  have "bit_length (2 ^ e + length (concat cs)) = Suc e"
    using lt by (intro bit_length_unique) auto
  then have "frontier_peak_counts (length (concat (c # cs))) = 2 ^ e # frontier_peak_counts (length (concat cs))"
    using c(1) by (subst frontier_peak_counts.simps) (simp add: highest_bit_def Let_def)
  then show ?case
    using Cons.IH [OF c(2)] c(1) by simp
qed

lemma represents_counts: "represents H f xs \<Longrightarrow> map fp_count (peaks f) = frontier_peak_counts (leaf_count f)"
  by (auto simp: represents_def peak_of_def comp_def dest: shaped_counts)

lemma represents_rebuild: "represents H f xs \<Longrightarrow> from_peak_hashes (leaf_count f) (peak_hashes f) = Inr f"
proof -
  assume "represents H f xs"
  note c = represents_counts [OF this, symmetric]
  have "map (\<lambda>(c, h). \<lparr>fp_count = c, fp_hash = h\<rparr>) (zip (map fp_count ps) (map fp_hash ps)) = ps"
    for ps :: "frontier_peak list"
    by (induction ps) auto
  then show ?thesis
    by (simp add: from_peak_hashes_def peak_hashes_def c Let_def)
qed

section \<open>Range proofs\<close>

record proof_node =
  pn_start :: u64
  pn_count :: u64
  pn_hash :: hash32

record range_proof =
  rp_nodes :: "proof_node list"

text \<open>
  The recursion over the canonical nodes. A single leaf is never cut by a boundary, so the
  third branch is the failed assertion of the source and is never taken.
\<close>

function collect_positions :: "nat \<Rightarrow> nat \<Rightarrow> nat \<Rightarrow> nat \<Rightarrow> (nat \<times> nat) list" where
  "collect_positions node_start node_count start end =
    (let node_end = node_start + node_count in
     if node_end \<le> start \<or> node_start \<ge> end then [(node_start, node_count)]
     else if node_start \<ge> start \<and> node_end \<le> end then []
     else if node_count \<le> 1 then []
     else let k = series_split_point node_count in
       collect_positions node_start k start end
       @ collect_positions (node_start + k) (node_count - k) start end)"
  by auto
termination
  by (relation "measure (\<lambda>(a, n, s, e). n)") (simp_all add: not_le series_split_point_eq)

definition expected_positions :: "nat \<Rightarrow> nat \<Rightarrow> nat \<Rightarrow> (nat \<times> nat) list" where
  "expected_positions tot start end = collect_positions 0 tot start end"

function generate_node :: "(bytes \<Rightarrow> hash32) \<Rightarrow> nat \<Rightarrow> nat \<Rightarrow> nat \<Rightarrow> nat \<Rightarrow> hash32 list \<Rightarrow> hash32 \<times> proof_node list" where
  "generate_node H node_start node_count start end leaves =
    (let node_end = node_start + node_count; sl = slice leaves node_start node_end in
     if node_end \<le> start \<or> node_start \<ge> end then
       (let hash = subtree_hash H sl in
        (hash, [\<lparr>pn_start = of_nat node_start, pn_count = of_nat node_count, pn_hash = hash\<rparr>]))
     else if node_start \<ge> start \<and> node_end \<le> end then (subtree_hash H sl, [])
     else if node_count \<le> 1 then (subtree_hash H sl, [])
     else let k = series_split_point node_count;
              (left, out1) = generate_node H node_start k start end leaves;
              (right, out2) = generate_node H (node_start + k) (node_count - k) start end leaves
          in (interior_hash H left right, out1 @ out2))"
  by auto
termination
  by (relation "measure (\<lambda>(H, a, n, s, e, l). n)") (simp_all add: not_le series_split_point_eq)

definition generate_range_proof :: "(bytes \<Rightarrow> hash32) \<Rightarrow> hash32 list \<Rightarrow> nat \<Rightarrow> nat \<Rightarrow> error + range_proof" where
  "generate_range_proof H leaves start end =
    (let tot = length leaves in
     res_bind (require (start < end) (Reject ''range must be nonempty'')) (\<lambda>_.
     res_bind (require (end \<le> tot) (Reject ''range end exceeds total leaf count'')) (\<lambda>_.
     Inr \<lparr>rp_nodes = snd (generate_node H 0 tot start end leaves)\<rparr>)))"

definition validate_range_proof_shape :: "range_proof \<Rightarrow> nat \<Rightarrow> nat \<Rightarrow> nat \<Rightarrow> error + unit" where
  "validate_range_proof_shape pf tot start end =
    (let expected = expected_positions tot start end in
     res_bind (require (length expected = length (rp_nodes pf)) (Reject ''wrong number of proof nodes'')) (\<lambda>_.
     require (list_all2 (\<lambda>ex got. fst ex = unat (pn_start got) \<and> snd ex = unat (pn_count got))
         expected (rp_nodes pf))
       (Reject ''proof node out of place'')))"

fun peak_nodes :: "nat \<Rightarrow> frontier_peak list \<Rightarrow> proof_node list" where
  "peak_nodes start [] = []"
| "peak_nodes start (p # ps) =
    \<lparr>pn_start = of_nat start, pn_count = of_nat (fp_count p), pn_hash = fp_hash p\<rparr>
    # peak_nodes (start + fp_count p) ps"

definition generate_append_range_proof :: "merkle_frontier \<Rightarrow> nat \<Rightarrow> error + range_proof" where
  "generate_append_range_proof prefix suffix_leaf_count =
    (let tot = leaf_count prefix + suffix_leaf_count; pf = \<lparr>rp_nodes = peak_nodes 0 (peaks prefix)\<rparr> in
     res_bind (require (suffix_leaf_count \<noteq> 0) (Reject ''append range must contain at least one leaf'')) (\<lambda>_.
     res_bind (require (suffix_leaf_count \<le> u64_max) (Reject ''append suffix leaf count exceeds u64::MAX'')) (\<lambda>_.
     res_bind (require (tot \<le> u64_max) (Reject ''append range total leaf count overflow'')) (\<lambda>_.
     res_bind (validate_range_proof_shape pf tot (leaf_count prefix) tot) (\<lambda>_.
     Inr pf)))))"

function fold_node :: "(bytes \<Rightarrow> hash32) \<Rightarrow> nat \<Rightarrow> nat \<Rightarrow> nat \<Rightarrow> nat \<Rightarrow> nat \<Rightarrow> hash32 list \<Rightarrow>
    proof_node list \<Rightarrow> error + hash32 \<times> proof_node list" where
  "fold_node H node_start node_count start end range_offset range_leaves iter =
    (let node_end = node_start + node_count in
     if node_end \<le> start \<or> node_start \<ge> end then
       (case iter of
          [] \<Rightarrow> Inl (Reject ''missing proof node'')
        | node # iter \<Rightarrow>
            if unat (pn_start node) \<noteq> node_start \<or> unat (pn_count node) \<noteq> node_count
            then Inl (Reject ''proof node mismatch'')
            else Inr (pn_hash node, iter))
     else if node_start \<ge> start \<and> node_end \<le> end then
       Inr (subtree_hash H (slice range_leaves (node_start - range_offset) (node_end - range_offset)), iter)
     else if node_count \<le> 1 then Inl (Panic ''a single leaf cannot straddle a boundary'')
     else let k = series_split_point node_count in
       res_bind (fold_node H node_start k start end range_offset range_leaves iter) (\<lambda>(left, iter).
       res_bind (fold_node H (node_start + k) (node_count - k) start end range_offset range_leaves iter)
         (\<lambda>(right, iter). Inr (interior_hash H left right, iter))))"
  by pat_completeness auto
termination
  by (relation "measure (\<lambda>(H, a, n, _). n)") (simp_all add: not_le series_split_point_eq)

declare collect_positions.simps [simp del] generate_node.simps [simp del] fold_node.simps [simp del]

definition verify_range_proof :: "(bytes \<Rightarrow> hash32) \<Rightarrow> nat \<Rightarrow> nat \<Rightarrow> nat \<Rightarrow> hash32 list \<Rightarrow> range_proof \<Rightarrow> error + hash32" where
  "verify_range_proof H tot start end range_leaves pf =
    res_bind (require (start < end) (Reject ''range must be nonempty'')) (\<lambda>_.
    res_bind (require (end \<le> tot) (Reject ''range end exceeds total leaf count'')) (\<lambda>_.
    res_bind (require (length range_leaves = end - start) (Reject ''wrong number of leaf hashes for range'')) (\<lambda>_.
    res_bind (validate_range_proof_shape pf tot start end) (\<lambda>_.
    res_bind (fold_node H 0 tot start end start range_leaves (rp_nodes pf)) (\<lambda>(root, iter).
    res_bind (require (iter = []) (Reject ''trailing proof node(s) after verification'')) (\<lambda>_.
    Inr root))))))"

text \<open>The wire format of a proof.\<close>

definition push_proof_node :: "proof_node \<Rightarrow> error + bytes" where
  "push_proof_node node = pushes
     [Inr (le64 (pn_start node)), Inr (le64 (pn_count node)), Inr (as_bytes (pn_hash node))]"

definition encode_range_proof :: "range_proof \<Rightarrow> error + bytes" where
  "encode_range_proof pf = pushes
     [Inr PROOF_MAGIC, pushes [push_count (length (rp_nodes pf)), pushes (map push_proof_node (rp_nodes pf))]]"

definition take_proof_node :: "proof_node dec" where
  "take_proof_node =
     dec_bind take_u64 (\<lambda>node_start.
     dec_bind take_u64 (\<lambda>node_count.
     dec_bind take_hash (\<lambda>hash.
       dec_return \<lparr>pn_start = node_start, pn_count = node_count, pn_hash = hash\<rparr>)))"

definition decode_range_proof :: "bytes \<Rightarrow> nat \<Rightarrow> nat \<Rightarrow> nat \<Rightarrow> error + range_proof" where
  "decode_range_proof bs tot start end =
    res_bind (require (start < end) (Reject ''range must be nonempty'')) (\<lambda>_.
    res_bind (require (end \<le> tot) (Reject ''range end exceeds total leaf count'')) (\<lambda>_.
    res_bind (run_dec
      (dec_bind (expect_tag PROOF_MAGIC) (\<lambda>_.
       dec_bind (dec_bind take_u32 (\<lambda>n. take_times (unat n) take_proof_node)) (\<lambda>nodes.
       dec_bind expect_end (\<lambda>_. dec_return nodes)))) bs) (\<lambda>nodes.
    let pf = \<lparr>rp_nodes = nodes\<rparr> in
    res_bind (validate_range_proof_shape pf tot start end) (\<lambda>_. Inr pf))))"

text \<open>The three cases of the recursion, as rules.\<close>

lemma node_cases:
  fixes a n s e :: nat
  obtains "a + n \<le> s \<or> e \<le> a"
  | "\<not> (a + n \<le> s \<or> e \<le> a)" "s \<le> a" "a + n \<le> e"
  | "\<not> (a + n \<le> s \<or> e \<le> a)" "\<not> (s \<le> a \<and> a + n \<le> e)" "1 < n"
  by (cases "a + n \<le> s \<or> e \<le> a"; cases "s \<le> a \<and> a + n \<le> e"; cases "1 < n") (auto simp: not_le)

lemma subtree_hash_split:
  assumes "1 < n" and "a + n \<le> length xs"
  shows "subtree_hash H (slice xs a (a + n)) =
    interior_hash H (subtree_hash H (slice xs a (a + pow2_below n)))
      (subtree_hash H (slice xs (a + pow2_below n) (a + n)))"
proof -
  have len: "length (slice xs a (a + n)) = n"
    using assms(2) by (simp add: length_slice)
  show ?thesis
    using series.mth_split [of "slice xs a (a + n)" H] assms(1) pow2_below_bounds [OF assms(1)]
    unfolding len by (simp add: take_slice drop_slice)
qed

lemma generate_node_correct:
  "a + n \<le> length xs \<Longrightarrow> n \<noteq> 0 \<Longrightarrow> generate_node H a n s e xs =
    (subtree_hash H (slice xs a (a + n)),
     map (\<lambda>(b, c). \<lparr>pn_start = of_nat b, pn_count = of_nat c, pn_hash = subtree_hash H (slice xs b (b + c))\<rparr>)
       (collect_positions a n s e))"
proof (induction n arbitrary: a rule: less_induct)
  case (less n)
  show ?case
  proof (cases rule: node_cases [of a n s e])
    case 3
    let ?k = "pow2_below n"
    note k = pow2_below_bounds [OF 3(3)]
    show ?thesis
      using subtree_hash_split [OF 3(3) less.prems(1), of H]
        less.IH [of ?k a] less.IH [of "n - ?k" "a + ?k"] k less.prems 3
      by (auto simp: generate_node.simps [of H a n] collect_positions.simps [of a n]
          series_split_point_eq Let_def)
  qed (use less.prems in \<open>simp_all add: generate_node.simps collect_positions.simps Let_def\<close>)
qed


text \<open>What an honest proof holds at a list of positions.\<close>

definition nodes_at :: "(bytes \<Rightarrow> hash32) \<Rightarrow> hash32 list \<Rightarrow> (nat \<times> nat) list \<Rightarrow> proof_node list" where
  "nodes_at H xs ps =
    map (\<lambda>(b, c). \<lparr>pn_start = of_nat b, pn_count = of_nat c, pn_hash = subtree_hash H (slice xs b (b + c))\<rparr>) ps"

lemma nodes_at_append [simp]: "nodes_at H xs (ps @ qs) = nodes_at H xs ps @ nodes_at H xs qs"
  by (simp add: nodes_at_def)

lemma positions_bounded:
  "(b, c) \<in> set (collect_positions a n s e) \<Longrightarrow> a \<le> b \<and> b + c \<le> a + n"
proof (induction n arbitrary: a rule: less_induct)
  case (less n)
  show ?case
  proof (cases rule: node_cases [of a n s e])
    case 3
    note k = pow2_below_bounds [OF 3(3)]
    have "(b, c) \<in> set (collect_positions a (pow2_below n) s e) \<or>
        (b, c) \<in> set (collect_positions (a + pow2_below n) (n - pow2_below n) s e)"
      using less.prems 3 by (subst (asm) collect_positions.simps) (auto simp: series_split_point_eq Let_def)
    then show ?thesis
      using less.IH [of "pow2_below n" a] less.IH [of "n - pow2_below n" "a + pow2_below n"] k by auto
  qed (use less.prems in \<open>auto simp: collect_positions.simps Let_def\<close>)
qed

lemma fold_node_split:
  assumes "\<not> (a + n \<le> s \<or> e \<le> a)" "\<not> (s \<le> a \<and> a + n \<le> e)" "1 < n"
  shows "fold_node H a n s e off ls it =
    res_bind (fold_node H a (pow2_below n) s e off ls it) (\<lambda>(left, it).
    res_bind (fold_node H (a + pow2_below n) (n - pow2_below n) s e off ls it)
      (\<lambda>(right, it). Inr (interior_hash H left right, it)))"
  using assms by (subst fold_node.simps) (auto simp: series_split_point_eq Let_def)

lemma positions_split:
  assumes "\<not> (a + n \<le> s \<or> e \<le> a)" "\<not> (s \<le> a \<and> a + n \<le> e)" "1 < n"
  shows "collect_positions a n s e =
    collect_positions a (pow2_below n) s e @ collect_positions (a + pow2_below n) (n - pow2_below n) s e"
  using assms by (subst collect_positions.simps) (auto simp: series_split_point_eq Let_def)

lemma slice_slice:
  assumes "s \<le> a" and "b \<le> e"
  shows "slice (slice xs s e) (a - s) (b - s) = slice xs a b"
proof (cases "a \<le> b")
  case True
  have "slice (slice xs s e) (a - s) (b - s) = take (b - a) (slice xs (s + (a - s)) e)"
    using assms True by (simp add: slice_def [of "slice xs s e"] drop_slice)
  also have "\<dots> = slice xs a (a + (b - a))"
    using assms True by (simp add: take_slice)
  finally show ?thesis
    using True by simp
qed (simp add: slice_def)

lemma fold_node_complete:
  "a + n \<le> length xs \<Longrightarrow> a + n \<le> u64_max \<Longrightarrow>
    fold_node H a n s e s (slice xs s e) (nodes_at H xs (collect_positions a n s e) @ tl_nodes) =
      Inr (subtree_hash H (slice xs a (a + n)), tl_nodes)"
proof (induction n arbitrary: a tl_nodes rule: less_induct)
  case (less n)
  show ?case
  proof (cases rule: node_cases [of a n s e])
    case 1
    then show ?thesis
      using less.prems by (simp add: fold_node.simps collect_positions.simps nodes_at_def Let_def unat_of_nat)
  next
    case 2
    then show ?thesis
      using less.prems by (simp add: fold_node.simps collect_positions.simps nodes_at_def Let_def slice_slice)
  next
    case 3
    note k = pow2_below_bounds [OF 3(3)]
    show ?thesis
      using less.IH [of "pow2_below n" a] less.IH [of "n - pow2_below n" "a + pow2_below n"] k less.prems
      by (simp add: fold_node_split [OF 3] positions_split [OF 3] subtree_hash_split [OF 3(3)])
  qed
qed

text \<open>The child pairs that \<open>fold_node\<close> hashes.\<close>

function fold_pairs :: "(bytes \<Rightarrow> hash32) \<Rightarrow> nat \<Rightarrow> nat \<Rightarrow> nat \<Rightarrow> nat \<Rightarrow> nat \<Rightarrow> hash32 list \<Rightarrow>
    proof_node list \<Rightarrow> (hash32 \<times> hash32) list" where
  "fold_pairs H a n s e off ls it =
    (if a + n \<le> s \<or> e \<le> a then []
     else if s \<le> a \<and> a + n \<le> e then tree_pairs (subtree_hash H) (slice ls (a - off) (a + n - off))
     else if n \<le> 1 then []
     else case fold_node H a (pow2_below n) s e off ls it of
       Inl _ \<Rightarrow> []
     | Inr (left, it1) \<Rightarrow>
         (case fold_node H (a + pow2_below n) (n - pow2_below n) s e off ls it1 of
            Inl _ \<Rightarrow> []
          | Inr (right, it2) \<Rightarrow> (left, right) # fold_pairs H a (pow2_below n) s e off ls it
              @ fold_pairs H (a + pow2_below n) (n - pow2_below n) s e off ls it1))"
  by pat_completeness auto
termination
  by (relation "measure (\<lambda>(H, a, n, _). n)") (simp_all add: not_le)

declare fold_pairs.simps [simp del]

lemma nth_slice: "i < b - a \<Longrightarrow> b \<le> length xs \<Longrightarrow> slice xs a b ! i = xs ! (a + i)"
  by (simp add: slice_def)

lemma set_slice: "set (slice xs a b) \<subseteq> set xs"
  by (auto simp: slice_def dest: in_set_takeD in_set_dropD)

lemma tree_pairs_slice:
  assumes "1 < n" and "a + n \<le> length xs"
  shows "set (tree_pairs (subtree_hash H) (slice xs a (a + n))) =
    insert (subtree_hash H (slice xs a (a + pow2_below n)), subtree_hash H (slice xs (a + pow2_below n) (a + n)))
      (set (tree_pairs (subtree_hash H) (slice xs a (a + pow2_below n))) \<union>
       set (tree_pairs (subtree_hash H) (slice xs (a + pow2_below n) (a + n))))"
proof -
  have len: "length (slice xs a (a + n)) = n"
    using assms(2) by (simp add: length_slice)
  show ?thesis
    using assms(1) pow2_below_bounds [OF assms(1)]
    by (subst tree_pairs.simps) (simp add: len take_slice drop_slice Let_def)
qed

lemma fold_node_sound:
  assumes "fold_node H a n s e s ls it = Inr (subtree_hash H (slice xs a (a + n)), it')"
    and "a + n \<le> length xs" and "e \<le> length xs" and "length ls = e - s"
    and "inj_on (\<lambda>(l, r). interior_hash H l r)
      (set (tree_pairs (subtree_hash H) (slice xs a (a + n))) \<union> set (fold_pairs H a n s e s ls it))"
    and "inj_on (leaf_node_hash H) (set xs \<union> set ls)"
  shows "it = nodes_at H xs (collect_positions a n s e) @ it' \<and>
    (\<forall>i. a \<le> i \<and> i < a + n \<and> s \<le> i \<and> i < e \<longrightarrow> ls ! (i - s) = xs ! i)"
  using assms
proof (induction n arbitrary: a it it' rule: less_induct)
  case (less n)
  show ?case
  proof (cases rule: node_cases [of a n s e])
    case 1
    then show ?thesis
      using less.prems(1)
      by (auto simp: fold_node.simps collect_positions.simps nodes_at_def Let_def split: list.splits if_splits)
  next
    case 2
    have it: "it = it'" "subtree_hash H (slice ls (a - s) (a + n - s)) = subtree_hash H (slice xs a (a + n))"
      using less.prems(1) 2 by (auto simp: fold_node.simps Let_def)
    have len: "length (slice ls (a - s) (a + n - s)) = n" "length (slice xs a (a + n)) = n"
      using 2 less.prems(2,4) by (simp_all add: length_slice)
    have "slice ls (a - s) (a + n - s) = slice xs a (a + n)" if "n \<noteq> 0"
    proof (rule series.mth_inj [OF _ _ _ _ it(2)])
      show "slice ls (a - s) (a + n - s) \<noteq> []"
        using len(1) that by auto
      show "inj_on (leaf_node_hash H) (set (slice ls (a - s) (a + n - s)) \<union> set (slice xs a (a + n)))"
        using less.prems(6) by (rule inj_on_subset) (auto dest: set_slice [THEN subsetD])
      show "inj_on (\<lambda>(l, r). interior_hash H l r)
          (set (tree_pairs (subtree_hash H) (slice ls (a - s) (a + n - s))) \<union>
           set (tree_pairs (subtree_hash H) (slice xs a (a + n))))"
        using less.prems(5) 2 by (simp add: fold_pairs.simps Un_commute)
    qed (simp add: len)
    then have "ls ! (i - s) = xs ! i" if "a \<le> i" "i < a + n" for i
      using that 2 less.prems(2,4) nth_slice [of "i - a" "a + n" a xs]
        nth_slice [of "i - a" "a + n - s" "a - s" ls] by simp
    then show ?thesis
      using it(1) 2 by (simp add: collect_positions.simps nodes_at_def Let_def)
  next
    case 3
    let ?k = "pow2_below n"
    let ?L = "subtree_hash H (slice xs a (a + ?k))" and ?R = "subtree_hash H (slice xs (a + ?k) (a + n))"
    note k = pow2_below_bounds [OF 3(3)]
    obtain l r it1 where l: "fold_node H a ?k s e s ls it = Inr (l, it1)"
        and r: "fold_node H (a + ?k) (n - ?k) s e s ls it1 = Inr (r, it')"
        and h: "interior_hash H l r = subtree_hash H (slice xs a (a + n))"
      using less.prems(1) by (auto simp: fold_node_split [OF 3])
    have px: "set (tree_pairs (subtree_hash H) (slice xs a (a + n))) = insert (?L, ?R)
        (set (tree_pairs (subtree_hash H) (slice xs a (a + ?k))) \<union>
         set (tree_pairs (subtree_hash H) (slice xs (a + ?k) (a + n))))"
      by (rule tree_pairs_slice [OF 3(3) less.prems(2)])
    have pp: "set (fold_pairs H a n s e s ls it) = insert (l, r)
        (set (fold_pairs H a ?k s e s ls it) \<union> set (fold_pairs H (a + ?k) (n - ?k) s e s ls it1))"
      using 3 l r by (subst fold_pairs.simps) auto
    have "(l, r) = (?L, ?R)"
      using h subtree_hash_split [OF 3(3) less.prems(2), of H] px pp
      by (intro inj_onD [OF less.prems(5)]) auto
    then have lr: "l = ?L" "r = ?R" by auto
    have "it = nodes_at H xs (collect_positions a ?k s e) @ it1 \<and>
        (\<forall>i. a \<le> i \<and> i < a + ?k \<and> s \<le> i \<and> i < e \<longrightarrow> ls ! (i - s) = xs ! i)"
      using l lr k less.prems px pp by (intro less.IH) (auto elim!: inj_on_subset)
    moreover have "it1 = nodes_at H xs (collect_positions (a + ?k) (n - ?k) s e) @ it' \<and>
        (\<forall>i. a + ?k \<le> i \<and> i < a + ?k + (n - ?k) \<and> s \<le> i \<and> i < e \<longrightarrow> ls ! (i - s) = xs ! i)"
      using r lr k less.prems px pp by (intro less.IH) (auto elim!: inj_on_subset)
    ultimately show ?thesis
      using k by (auto simp: positions_split [OF 3]) (metis leI)
  qed
qed

section \<open>Appending\<close>

fun peak_positions :: "nat \<Rightarrow> nat list \<Rightarrow> (nat \<times> nat) list" where
  "peak_positions a [] = []"
| "peak_positions a (c # cs) = (a, c) # peak_positions (a + c) cs"

text \<open>The nodes outside a range that reaches the end are the peaks of the prefix.\<close>

lemma append_positions:
  "r < n \<Longrightarrow> a + n \<le> e \<Longrightarrow> collect_positions a n (a + r) e = peak_positions a (frontier_peak_counts r)"
proof (induction n arbitrary: a r rule: less_induct)
  case (less n)
  show ?case
  proof (cases "r = 0")
    case True
    then show ?thesis
      using less.prems by (simp add: collect_positions.simps frontier_peak_counts.simps Let_def)
  next
    case False
    then have c: "\<not> (a + n \<le> a + r \<or> e \<le> a)" "\<not> (a + r \<le> a \<and> a + n \<le> e)" "1 < n"
      using less.prems by auto
    obtain t where t: "pow2_below n = 2 ^ t" "n \<le> 2 ^ Suc t"
      using c(3) by (rule pow2_below_exists)
    note k = pow2_below_bounds [OF c(3)]
    show ?thesis
    proof (cases "r < 2 ^ t")
      case True
      then have "collect_positions (a + 2 ^ t) (n - 2 ^ t) (a + r) e = []"
        using k less.prems t(1) by (subst collect_positions.simps) (simp add: Let_def)
      with less.IH [of "2 ^ t" r a] True k less.prems t(1) show ?thesis
        by (simp add: positions_split [OF c])
    next
      case False
      have "bit_length r = Suc t"
        using False less.prems(1) t(2) by (intro bit_length_unique) auto
      then have "frontier_peak_counts r = 2 ^ t # frontier_peak_counts (r - 2 ^ t)"
        using \<open>r \<noteq> 0\<close> by (subst frontier_peak_counts.simps) (simp add: highest_bit_def Let_def)
      moreover have "collect_positions a (2 ^ t) (a + r) e = [(a, 2 ^ t)]"
        using False by (subst collect_positions.simps) (simp add: Let_def)
      ultimately show ?thesis
        using less.IH [of "n - 2 ^ t" "r - 2 ^ t" "a + 2 ^ t"] False k less.prems t(1)
        by (simp add: positions_split [OF c])
    qed
  qed
qed

lemma peak_nodes_at:
  "slice xs a (a + length (concat cs)) = concat cs \<Longrightarrow> a + length (concat cs) \<le> length xs \<Longrightarrow>
    peak_nodes a (map (peak_of H) cs) = nodes_at H xs (peak_positions a (map length cs))"
proof (induction cs arbitrary: a)
  case (Cons c cs)
  have "slice xs a (a + length c) = c"
    using take_slice [of "length c" "a + length (concat (c # cs))" a xs] Cons.prems(1) by simp
  moreover have "slice xs (a + length c) (a + length c + length (concat cs)) = concat cs"
    using drop_slice [of "length c" xs a "a + length (concat (c # cs))"] Cons.prems(1) by (simp add: add.assoc)
  ultimately show ?case
    using Cons.IH [of "a + length c"] Cons.prems(2) by (simp add: peak_of_def nodes_at_def add.assoc)
qed (simp add: nodes_at_def)

lemma validate_nodes_at:
  assumes "tot \<le> u64_max"
  shows "validate_range_proof_shape \<lparr>rp_nodes = nodes_at H xs (collect_positions 0 tot s e)\<rparr> tot s e = Inr ()"
proof -
  have "list_all2 (\<lambda>ex got. fst ex = unat (pn_start got) \<and> snd ex = unat (pn_count got)) ps (nodes_at H xs ps)"
    if "\<forall>(b, c) \<in> set ps. b + c \<le> u64_max" for ps
    using that by (induction ps) (auto simp: nodes_at_def unat_of_nat)
  moreover have "\<forall>(b, c) \<in> set (collect_positions 0 tot s e). b + c \<le> u64_max"
    using positions_bounded [of _ _ 0 tot s e] assms by fastforce
  ultimately show ?thesis
    by (simp add: validate_range_proof_shape_def expected_positions_def Let_def nodes_at_def)
qed

lemma generate_range_proof_nodes:
  assumes "s < e" and "e \<le> length xs"
  shows "generate_range_proof H xs s e = Inr \<lparr>rp_nodes = nodes_at H xs (collect_positions 0 (length xs) s e)\<rparr>"
  using assms generate_node_correct [of 0 "length xs" xs H s e]
  by (cases "xs = []") (simp_all add: generate_range_proof_def nodes_at_def Let_def)

section \<open>The wire format meets its contract\<close>

interpretation proof_node: codec push_proof_node take_proof_node
proof
  fix c c' and n :: proof_node
  obtain a b h where n: "n = \<lparr>pn_start = a, pn_count = b, pn_hash = h\<rparr>"
    by (cases n)
  show "take_proof_node c = Inr (n, c') \<longleftrightarrow> writes (push_proof_node n) c c'"
    unfolding take_proof_node_def push_proof_node_def n proof_node.select_convs
      dec_bind_iff dec_return_iff take_hash_iff take_words_iff proof_node.ext_inject writes_simps
    by (rule iffI, (clarify, intro exI conjI, (assumption | rule refl)+)+)
qed

interpretation proof_nodes: codec "\<lambda>ns. pushes [push_count (length ns), pushes (map push_proof_node ns)]"
    "dec_bind take_u32 (\<lambda>n. take_times (unat n) take_proof_node)"
  by unfold_locales (rule proof_node.counted_iff)

lemma decode_range_proof_iff:
  "decode_range_proof bs tot s e = Inr pf \<longleftrightarrow>
    s < e \<and> e \<le> tot \<and> validate_range_proof_shape pf tot s e = Inr () \<and> encode_range_proof pf = Inr bs"
proof -
  have "(\<exists>u. validate_range_proof_shape pf tot s e = Inr u) \<longleftrightarrow> validate_range_proof_shape pf tot s e = Inr ()"
    by auto
  then show ?thesis
    by (cases pf) (auto simp: decode_range_proof_def encode_range_proof_def proof_nodes.strict_iff Let_def
        simp del: pushes_Cons_iff)
qed

lemma range_proof_verifies:
  assumes "s < e" and "e \<le> length xs" and "length xs \<le> u64_max"
  shows "\<exists>pf. generate_range_proof H xs s e = Inr pf \<and> validate_range_proof_shape pf (length xs) s e = Inr () \<and>
    verify_range_proof H (length xs) s e (slice xs s e) pf = Inr (subtree_hash H xs)"
  using assms fold_node_complete [of 0 "length xs" xs H s e "[]"]
  by (simp add: generate_range_proof_nodes verify_range_proof_def validate_nodes_at length_slice)

lemma verify_range_sound:
  assumes "verify_range_proof H (length xs) s e ls pf = Inr (subtree_hash H xs)"
    and "inj_on (\<lambda>(l, r). interior_hash H l r)
      (set (tree_pairs (subtree_hash H) xs) \<union> set (fold_pairs H 0 (length xs) s e s ls (rp_nodes pf)))"
    and "inj_on (leaf_node_hash H) (set xs \<union> set ls)"
  shows "ls = slice xs s e \<and> generate_range_proof H xs s e = Inr pf"
proof -
  have v: "s < e" "e \<le> length xs" "length ls = e - s"
      "fold_node H 0 (length xs) s e s ls (rp_nodes pf) = Inr (subtree_hash H xs, [])"
    using assms(1) by (auto simp: verify_range_proof_def)
  have f: "rp_nodes pf = nodes_at H xs (collect_positions 0 (length xs) s e) @ [] \<and>
      (\<forall>i. 0 \<le> i \<and> i < 0 + length xs \<and> s \<le> i \<and> i < e \<longrightarrow> ls ! (i - s) = xs ! i)"
    using v assms(2,3) by (intro fold_node_sound) auto
  have "ls = slice xs s e"
  proof (rule nth_equalityI)
    show "length ls = length (slice xs s e)"
      using v by (simp add: length_slice)
    fix i assume "i < length ls"
    then show "ls ! i = slice xs s e ! i"
      using f v nth_slice [of i e s xs] by (metis add_diff_cancel_left' add.commute le_add1 less_diff_conv
          less_le_trans zero_le add_0)
  qed
  moreover have "generate_range_proof H xs s e = Inr pf"
    using generate_range_proof_nodes [OF v(1,2), of H] f by (cases pf) simp
  ultimately show ?thesis by blast
qed

section \<open>Properties\<close>

text \<open>C17: Extending a frontier by leaves whose total number fits 64 bits never fails; the
  result is the frontier of the longer series, its root is the recursive root of all leaves,
  its peak sizes are the set bits of the leaf count, and the peak hashes alone rebuild it.\<close>

theorem frontier_extend_correct:
  assumes "represents H f xs" and "length xs + length ys \<le> u64_max"
  shows "\<exists>f'. extended H f ys = Inr f' \<and> represents H f' (xs @ ys) \<and>
    frontier_root H f' = subtree_hash H (xs @ ys) \<and>
    map fp_count (peaks f') = frontier_peak_counts (leaf_count f') \<and>
    from_peak_hashes (leaf_count f') (peak_hashes f') = Inr f'"
proof -
  obtain f' where "extended H f ys = Inr f'" and r: "represents H f' (xs @ ys)"
    using extended_represents [OF assms] by blast
  then show ?thesis
    using represents_root [OF r] represents_counts [OF r] represents_rebuild [OF r] by blast
qed

theorem frontier_extend_correct_witness:
  "\<exists>f'. extended toy_hash frontier_empty [digest 1, digest 2, digest 3] = Inr f' \<and>
    frontier_root toy_hash f' = subtree_hash toy_hash [digest 1, digest 2, digest 3]"
  using frontier_extend_correct [OF represents_empty, of "[digest 1, digest 2, digest 3]" toy_hash]
  by auto

text \<open>The root computed through the frontier is the recursive RFC 6962 root, and appending
  to a full frontier is an error that leaves nothing half done.\<close>

theorem merkle_root_reference:
  "merkle_root H xs = (if length xs \<le> u64_max then Inr (subtree_hash H xs)
     else Inl (Panic ''a slice length always fits in u64 on supported platforms''))"
proof (cases "length xs \<le> u64_max")
  case True
  then obtain f where f: "extended H frontier_empty xs = Inr f" "represents H f xs"
    using extended_represents [OF represents_empty, of xs H] by auto
  then show ?thesis
    using True represents_root [OF f(2)] by (simp add: merkle_root_def from_leaves_def)
next
  case False
  have "\<exists>e. extended H f ys = Inl e" if "represents H f zs" "u64_max < length zs + length ys" for f zs ys
    using that
  proof (induction ys arbitrary: f zs)
    case Nil
    then show ?case by (simp add: represents_def)
  next
    case (Cons y ys)
    show ?case
    proof (cases "length zs < u64_max")
      case True
      then obtain f' where "frontier_append H f y = Inr f'" "represents H f' (zs @ [y])"
        using frontier_append_represents [OF Cons.prems(1), of y] by auto
      with Cons.IH [of f' "zs @ [y]"] Cons.prems(2) show ?thesis by simp
    next
      case False
      then show ?thesis
        using frontier_append_represents [OF Cons.prems(1), of y] by simp
    qed
  qed
  from this [OF represents_empty, of xs] obtain e where "extended H frontier_empty xs = Inl e"
    using False by auto
  then show ?thesis
    using False by (simp add: merkle_root_def from_leaves_def)
qed

text \<open>C16: The range proof generated for a non-empty range of a series is accepted with the
  leaves of that range, and the verifier returns the root of the whole series.\<close>

theorem range_proof_complete:
  assumes "s < e" and "e \<le> length xs" and "length xs \<le> u64_max"
  shows "\<exists>pf. generate_range_proof H xs s e = Inr pf \<and>
    verify_range_proof H (length xs) s e (slice xs s e) pf = Inr (subtree_hash H xs)"
  using range_proof_verifies [OF assms, of H] by blast

theorem range_proof_complete_witness:
  "\<exists>pf. generate_range_proof toy_hash [digest 1, digest 2, digest 3] 1 3 = Inr pf \<and>
    verify_range_proof toy_hash 3 1 3 [digest 2, digest 3] pf = Inr (subtree_hash toy_hash [digest 1, digest 2, digest 3])"
  using range_proof_complete [of 1 3 "[digest 1, digest 2, digest 3]" toy_hash]
  by (simp add: slice_def numeral_3_eq_3)

text \<open>C15: When the verifier returns the root of a series, the range leaves it was given are the
  leaves of that range and the proof is the generated one, unless two of the values hashed by
  the series and by the verifier collide.\<close>

theorem range_proof_sound:
  assumes "verify_range_proof H (length xs) s e ls pf = Inr (subtree_hash H xs)"
    and "inj_on (\<lambda>(l, r). interior_hash H l r)
      (set (tree_pairs (subtree_hash H) xs) \<union> set (fold_pairs H 0 (length xs) s e s ls (rp_nodes pf)))"
    and "inj_on (leaf_node_hash H) (set xs \<union> set ls)"
  shows "ls = slice xs s e \<and> generate_range_proof H xs s e = Inr pf"
  using assms by (rule verify_range_sound)

theorem range_proof_sound_witness:
  "\<exists>pf. verify_range_proof toy_hash 2 1 2 [digest 2] pf = Inr (subtree_hash toy_hash [digest 1, digest 2]) \<and>
    generate_range_proof toy_hash [digest 1, digest 2] 1 2 = Inr pf"
proof -
  let ?xs = "[digest 1, digest 2]"
  let ?L = "leaf_node_hash toy_hash (digest 1)" and ?R = "leaf_node_hash toy_hash (digest 2)"
  let ?pf = "\<lparr>rp_nodes = [\<lparr>pn_start = 0, pn_count = 1, pn_hash = ?L\<rparr>]\<rparr>"
  have p: "pow2_below 2 = 1"
    using pow2_below_unique [of 0 2] by simp
  have m: "subtree_hash toy_hash ?xs = interior_hash toy_hash ?L ?R"
    using series.mth_append [of "[digest 1]" 0 "[digest 2]" toy_hash] by (simp add: series.mth_single)
  have f: "fold_node toy_hash 0 2 1 2 1 [digest 2] (rp_nodes ?pf) = Inr (subtree_hash toy_hash ?xs, [])"
    unfolding m by (simp add: fold_node.simps series_split_point_eq p Let_def slice_def series.mth_single)
  have "expected_positions 2 1 2 = [(0, 1)]"
    by (simp add: expected_positions_def collect_positions.simps series_split_point_eq p Let_def)
  with f have v: "verify_range_proof toy_hash (length ?xs) 1 2 [digest 2] ?pf = Inr (subtree_hash toy_hash ?xs)"
    by (simp add: verify_range_proof_def validate_range_proof_shape_def numeral_2_eq_2 [symmetric])
  have t: "set (tree_pairs (subtree_hash toy_hash) ?xs) = {(?L, ?R)}"
    by (simp add: tree_pairs.simps p series.mth_single Let_def numeral_2_eq_2 [symmetric])
  have q: "set (fold_pairs toy_hash 0 2 1 2 1 [digest 2] (rp_nodes ?pf)) = {(?L, ?R)}"
    by (simp add: fold_pairs.simps fold_node.simps p Let_def slice_def series.mth_single tree_pairs.simps)
  have "inj_on (leaf_node_hash toy_hash) (set ?xs \<union> set [digest 2])"
    by (auto simp: inj_on_def leaf_node_hash_def toy_hash_def)
  with range_proof_sound [OF v] v t q show ?thesis
    by (auto simp: numeral_2_eq_2 [symmetric])
qed

text \<open>C18: The proof for appended leaves that is read off the frontier of the old series is the
  proof that the full list of leaves generates.\<close>

theorem append_range_proof_equiv:
  assumes "represents H f xs" and "ys \<noteq> []" and "length xs + length ys \<le> u64_max"
  shows "generate_append_range_proof f (length ys) =
    generate_range_proof H (xs @ ys) (length xs) (length xs + length ys)"
proof -
  obtain es cs where cs: "shaped es cs" "concat cs = xs" "peaks f = map (peak_of H) cs"
    using assms(1) by (auto simp: represents_def)
  have lc: "leaf_count f = length xs"
    using assms(1) by (simp add: represents_def)
  have "collect_positions 0 (length (xs @ ys)) (length xs) (length xs + length ys) =
      peak_positions 0 (map length cs)"
    using append_positions [of "length xs" "length (xs @ ys)" 0] assms(2) shaped_counts [OF cs(1)] cs(2) by simp
  moreover have "peak_nodes 0 (peaks f) = nodes_at H (xs @ ys) (peak_positions 0 (map length cs))"
    using peak_nodes_at [of "xs @ ys" 0 cs H] cs by (simp add: slice_def)
  ultimately show ?thesis
    using assms(2,3) lc generate_range_proof_nodes [of "length xs" "length xs + length ys" "xs @ ys" H]
      validate_nodes_at [of "length xs + length ys" H "xs @ ys" "length xs" "length xs + length ys"]
    by (simp add: generate_append_range_proof_def)
qed

theorem append_range_proof_equiv_witness:
  "generate_append_range_proof frontier_empty 1 = generate_range_proof toy_hash [digest 1] 0 1"
  using append_range_proof_equiv [OF represents_empty, of "[digest 1]" toy_hash] by simp

text \<open>Decoding a range proof for a range succeeds exactly on the encoding of a proof whose
  nodes sit at the expected positions of that range, so decoding and encoding are inverse.\<close>

theorem range_proof_codec:
  "decode_range_proof bs tot s e = Inr pf \<longleftrightarrow> s < e \<and> e \<le> tot \<and> encode_range_proof pf = Inr bs \<and>
    map (\<lambda>n. (unat (pn_start n), unat (pn_count n))) (rp_nodes pf) = expected_positions tot s e"
proof -
  have "validate_range_proof_shape pf tot s e = Inr () \<longleftrightarrow>
      list_all2 (\<lambda>ex got. fst ex = unat (pn_start got) \<and> snd ex = unat (pn_count got))
        (expected_positions tot s e) (rp_nodes pf)"
    by (auto simp: validate_range_proof_shape_def Let_def dest: list_all2_lengthD)
  also have "\<dots> \<longleftrightarrow> map (\<lambda>n. (unat (pn_start n), unat (pn_count n))) (rp_nodes pf) = expected_positions tot s e"
    by (auto simp: list_all2_conv_all_nth list_eq_iff_nth_eq prod_eq_iff)
  finally show ?thesis
    unfolding decode_range_proof_iff by blast
qed

end
