(* ===== verification/ManifestRecord.thy ===== *)
theory ManifestRecord
  imports ContentTree "HOL-Library.Product_Lexorder"
begin

text \<open>
  Node identity records and their net changes, from \<open>sync-store/src/content/manifest.rs\<close> and
  the record part of \<open>sync-store/src/content/manifest_map.rs\<close>: the constructors with their
  checks, the wire forms, and the canonical order of a change list. The Patricia map that
  stores the records is in \<open>ManifestMap\<close>.
\<close>

definition CHANGE_MAGIC :: bytes where "CHANGE_MAGIC = ascii ''watertown.manifest-change.v2'' @ [10]"

record manifest_entry =
  me_node_id :: rstring
  me_parent_node_id :: rstring
  me_name :: rstring
  me_entry_type :: entry_type
  me_child_hash :: hash32
  me_versions :: "version_meta list"

record manifest_record_child =
  mc_node_id :: rstring
  mc_name :: rstring
  mc_entry_type :: entry_type

record manifest_record =
  mr_entry :: manifest_entry
  mr_children :: "manifest_record_child list"

record manifest_change =
  ch_before :: "manifest_record option"
  ch_after :: "manifest_record option"

definition manifest_entry_bare :: "rstring \<Rightarrow> rstring \<Rightarrow> rstring \<Rightarrow> entry_type \<Rightarrow> hash32 \<Rightarrow> manifest_entry" where
  "manifest_entry_bare i p n t h = \<lparr>me_node_id = i, me_parent_node_id = p, me_name = n,
     me_entry_type = t, me_child_hash = h, me_versions = []\<rparr>"

definition str_empty :: "rstring \<Rightarrow> bool" where
  "str_empty s \<longleftrightarrow> str_bytes s = []"

section \<open>Records\<close>

text \<open>The comparison of \<open>children.sort_by\<close>: node id, then name, then type discriminant.\<close>

definition child_key :: "manifest_record_child \<Rightarrow> bytes \<times> bytes \<times> byte" where
  "child_key c = (str_bytes (mc_node_id c), str_bytes (mc_name c), entry_type_u8 (mc_entry_type c))"

text \<open>The loop over the sorted children, with the set of names seen so far.\<close>

fun check_children :: "rstring list \<Rightarrow> manifest_record_child list \<Rightarrow> error + unit" where
  "check_children names [] = Inr ()"
| "check_children names (c # cs) =
     (if str_empty (mc_node_id c) \<or> str_empty (mc_name c)
      then Inl (Reject ''manifest directory has an empty child identity or name'')
      else if mc_name c \<in> set names
      then Inl (Reject ''manifest directory repeats child name'')
      else check_children (mc_name c # names) cs)"

definition manifest_record_new :: "manifest_entry \<Rightarrow> manifest_record_child list \<Rightarrow> error + manifest_record" where
  "manifest_record_new entry children =
     (let sorted = sort_key child_key children in
      res_bind (require (windows2 (\<lambda>a b. mc_node_id a \<noteq> mc_node_id b) sorted)
        (Reject ''manifest directory repeats child node'')) (\<lambda>_.
      res_bind (check_children [] sorted) (\<lambda>_.
      res_bind (require (\<not> (me_entry_type entry \<noteq> DirectoryPhysical \<and> sorted \<noteq> []))
        (Reject ''non-directory manifest node carries children'')) (\<lambda>_.
      res_bind (require (\<not> str_empty (me_node_id entry)) (Reject ''manifest node_id is empty'')) (\<lambda>_.
        Inr \<lparr>mr_entry = entry, mr_children = sorted\<rparr>)))))"

definition mr_node_id :: "manifest_record \<Rightarrow> rstring" where
  "mr_node_id r = me_node_id (mr_entry r)"

definition push_record_child :: "manifest_record_child \<Rightarrow> error + bytes" where
  "push_record_child c = pushes
     [push_len_prefixed (str_bytes (mc_node_id c)),
      push_len_prefixed (str_bytes (mc_name c)),
      Inr [entry_type_u8 (mc_entry_type c)]]"

definition encode_record :: "manifest_record \<Rightarrow> error + bytes" where
  "encode_record r = pushes
     [push_len_prefixed (str_bytes (me_node_id (mr_entry r))),
      push_len_prefixed (str_bytes (me_parent_node_id (mr_entry r))),
      push_len_prefixed (str_bytes (me_name (mr_entry r))),
      Inr [entry_type_u8 (me_entry_type (mr_entry r))],
      Inr (as_bytes (me_child_hash (mr_entry r))),
      push_version_metas (me_versions (mr_entry r)),
      pushes [push_count (length (mr_children r)), pushes (map push_record_child (mr_children r))]]"

definition take_entry_type :: "entry_type dec" where
  "take_entry_type = dec_bind take_u8 (\<lambda>b. dec_lift (entry_type_try_from b))"

definition take_record_child :: "manifest_record_child dec" where
  "take_record_child =
     dec_bind take_len_prefixed_string (\<lambda>i.
     dec_bind take_len_prefixed_string (\<lambda>n.
     dec_bind take_entry_type (\<lambda>t.
       dec_return \<lparr>mc_node_id = i, mc_name = n, mc_entry_type = t\<rparr>)))"

definition take_record_children :: "manifest_record_child list dec" where
  "take_record_children = dec_bind take_u32 (\<lambda>n. take_times (unat n) take_record_child)"

text \<open>The fields of \<open>decode_record_from\<close>, before its call of \<open>ManifestRecord::new\<close>.\<close>

definition take_record_fields :: "manifest_record dec" where
  "take_record_fields =
     dec_bind take_len_prefixed_string (\<lambda>i.
     dec_bind take_len_prefixed_string (\<lambda>p.
     dec_bind take_len_prefixed_string (\<lambda>n.
     dec_bind take_entry_type (\<lambda>t.
     dec_bind take_hash (\<lambda>h.
     dec_bind take_version_metas (\<lambda>vs.
     dec_bind take_record_children (\<lambda>cs.
       dec_return \<lparr>mr_entry = \<lparr>me_node_id = i, me_parent_node_id = p, me_name = n,
           me_entry_type = t, me_child_hash = h, me_versions = vs\<rparr>, mr_children = cs\<rparr>)))))))"

definition record_renew :: "manifest_record \<Rightarrow> error + manifest_record" where
  "record_renew r = manifest_record_new (mr_entry r) (mr_children r)"

definition decode_record_from :: "manifest_record dec" where
  "decode_record_from = dec_bind take_record_fields (\<lambda>r. dec_lift (record_renew r))"

definition decode_record :: "bytes \<Rightarrow> error + manifest_record" where
  "decode_record bs =
     res_bind (run_dec (dec_bind decode_record_from (\<lambda>r. dec_bind expect_end (\<lambda>_. dec_return r))) bs)
       (canonical_check encode_record ''manifest record is not canonically encoded'' bs)"

section \<open>Changes\<close>

definition manifest_change_new :: "manifest_record option \<Rightarrow> manifest_record option \<Rightarrow> error + manifest_change" where
  "manifest_change_new before after =
     (if before = None \<and> after = None
      then Inl (Reject ''manifest change has neither before nor after'')
      else case (before, after) of
        (Some b, Some a) \<Rightarrow>
          if mr_node_id b \<noteq> mr_node_id a then Inl (Reject ''manifest change crosses node ids'')
          else if b = a then Inl (Reject ''manifest change is a no-op'')
          else Inr \<lparr>ch_before = before, ch_after = after\<rparr>
      | _ \<Rightarrow> Inr \<lparr>ch_before = before, ch_after = after\<rparr>)"

definition change_node_id :: "manifest_change \<Rightarrow> error + rstring" where
  "change_node_id ch =
     (case ch_after ch of
        Some r \<Rightarrow> Inr (mr_node_id r)
      | None \<Rightarrow> (case ch_before ch of
          Some r \<Rightarrow> Inr (mr_node_id r)
        | None \<Rightarrow> Inl (Panic ''validated manifest change'')))"

definition change_renew :: "manifest_change \<Rightarrow> error + manifest_change" where
  "change_renew ch = manifest_change_new (ch_before ch) (ch_after ch)"

text \<open>
  \<open>sort_by\<close> compares every element of a list of two or more at least once, so a change
  without a node id panics there; a shorter list is not compared. The sort itself is on the
  node ids, which are then all defined.
\<close>

definition change_key :: "manifest_change \<Rightarrow> bytes" where
  "change_key ch = (case change_node_id ch of Inr i \<Rightarrow> str_bytes i | Inl _ \<Rightarrow> [])"

definition sort_changes :: "manifest_change list \<Rightarrow> error + manifest_change list" where
  "sort_changes chs =
     (if length chs < 2 then Inr chs
      else res_bind (res_map change_node_id chs) (\<lambda>_. Inr (sort_key change_key chs)))"

definition canonicalize :: "manifest_change list \<Rightarrow> error + manifest_change list" where
  "canonicalize changes =
     res_bind (sort_changes changes) (\<lambda>sorted.
     res_bind (res_map change_renew sorted) (\<lambda>_.
     res_bind (require (windows2 (\<lambda>a b. change_node_id a \<noteq> change_node_id b) sorted)
       (Reject ''manifest changes repeat node id'')) (\<lambda>_. Inr sorted)))"

definition encode_manifest_change :: "manifest_change \<Rightarrow> error + bytes" where
  "encode_manifest_change ch = pushes
     [Inr CHANGE_MAGIC,
      push_flagged (push_nested encode_record) (ch_before ch),
      push_flagged (push_nested encode_record) (ch_after ch)]"

definition take_change_fields :: "manifest_change dec" where
  "take_change_fields =
     dec_bind (take_flagged ''invalid manifest-change before flag'' (take_nested decode_record)) (\<lambda>b.
     dec_bind (take_flagged ''invalid manifest-change after flag'' (take_nested decode_record)) (\<lambda>a.
       dec_return \<lparr>ch_before = b, ch_after = a\<rparr>))"

definition decode_manifest_change :: "bytes \<Rightarrow> error + manifest_change" where
  "decode_manifest_change bs =
     res_bind (run_dec (dec_bind (expect_tag CHANGE_MAGIC) (\<lambda>_. dec_bind take_change_fields (\<lambda>ch.
         dec_bind expect_end (\<lambda>_. dec_return ch)))) bs) (\<lambda>ch.
     res_bind (change_renew ch)
       (canonical_check encode_manifest_change ''manifest change is not canonically encoded'' bs))"

section \<open>The record codec\<close>

lemma take_entry_type_iff' [simp]: "take_entry_type c = Inr (t, c') \<longleftrightarrow> eats c [entry_type_u8 t] c'"
  unfolding take_entry_type_def by (rule take_entry_type_iff)

interpretation record_child: codec push_record_child take_record_child
proof
  fix c c' and v :: manifest_record_child
  obtain i n t where v: "v = \<lparr>mc_node_id = i, mc_name = n, mc_entry_type = t\<rparr>" by (cases v)
  show "take_record_child c = Inr (v, c') \<longleftrightarrow> writes (push_record_child v) c c'"
    unfolding take_record_child_def push_record_child_def v manifest_record_child.select_convs
      dec_bind_iff dec_return_iff take_len_prefixed_string_iff take_entry_type_iff'
      manifest_record_child.ext_inject writes_simps
    by (rule iffI, (clarify, intro exI conjI, (assumption | rule refl)+)+)
qed

lemma take_record_children_iff:
  "take_record_children c = Inr (cs, c') \<longleftrightarrow>
     writes (pushes [push_count (length cs), pushes (map push_record_child cs)]) c c'"
  unfolding take_record_children_def by (rule record_child.counted_iff)

interpretation record_fields: codec encode_record take_record_fields
proof
  fix c c' and v :: manifest_record
  obtain i p n t h vs cs where v: "v = \<lparr>mr_entry = \<lparr>me_node_id = i, me_parent_node_id = p, me_name = n,
      me_entry_type = t, me_child_hash = h, me_versions = vs\<rparr>, mr_children = cs\<rparr>"
    by (metis manifest_entry.cases manifest_record.cases)
  show "take_record_fields c = Inr (v, c') \<longleftrightarrow> writes (encode_record v) c c'"
    unfolding take_record_fields_def encode_record_def v manifest_record.select_convs
      manifest_entry.select_convs dec_bind_iff dec_return_iff take_len_prefixed_string_iff take_entry_type_iff'
      take_hash_iff take_version_metas_iff take_record_children_iff
      manifest_record.ext_inject manifest_entry.ext_inject writes_simps
    by (rule iffI, (clarify, intro exI conjI, (assumption | rule refl)+)+)
qed

lemma decode_record_from_iff:
  "decode_record_from c = Inr (r, c') \<longleftrightarrow> (\<exists>r0. writes (encode_record r0) c c' \<and> record_renew r0 = Inr r)"
  by (auto simp: decode_record_from_def record_fields.dec_iff)

section \<open>What the record constructor accepts\<close>

text \<open>
  The validity of a directory listing in any order, and the invariant of a constructed
  record: a valid listing in canonical order.
\<close>

definition children_ok :: "manifest_entry \<Rightarrow> manifest_record_child list \<Rightarrow> bool" where
  "children_ok e cs \<longleftrightarrow>
     distinct (map mc_node_id cs) \<and> distinct (map mc_name cs)
     \<and> list_all (\<lambda>c. \<not> str_empty (mc_node_id c) \<and> \<not> str_empty (mc_name c)) cs
     \<and> (me_entry_type e = DirectoryPhysical \<or> cs = []) \<and> \<not> str_empty (me_node_id e)"

definition record_ok :: "manifest_record \<Rightarrow> bool" where
  "record_ok r \<longleftrightarrow> children_ok (mr_entry r) (mr_children r) \<and> sorted (map child_key (mr_children r))"

lemma check_children_iff [simp]:
  "check_children names cs = Inr u \<longleftrightarrow>
     list_all (\<lambda>c. \<not> str_empty (mc_node_id c) \<and> \<not> str_empty (mc_name c)) cs
     \<and> distinct (map mc_name cs) \<and> set names \<inter> mc_name ` set cs = {}"
  by (induction names cs rule: check_children.induct) auto

lemma sorted_child_ids:
  "sorted (map child_key cs) \<Longrightarrow> sorted (map (\<lambda>c. str_bytes (mc_node_id c)) cs)"
  by (induction cs) (force simp: child_key_def less_eq_prod_def)+

lemma windows2_child_ids:
  "windows2 (\<lambda>a b. mc_node_id a \<noteq> mc_node_id b) (sort_key child_key cs) \<longleftrightarrow> distinct (map mc_node_id cs)"
proof -
  let ?s = "sort_key child_key cs"
  have "windows2 (\<lambda>a b. str_bytes (mc_node_id a) \<noteq> str_bytes (mc_node_id b)) ?s \<longleftrightarrow>
      distinct (map (\<lambda>c. str_bytes (mc_node_id c)) ?s)"
    by (rule windows2_distinct_sorted) (simp add: sorted_child_ids)
  also have "\<dots> \<longleftrightarrow> distinct (map (\<lambda>c. str_bytes (mc_node_id c)) cs)"
    by (rule mset_eq_imp_distinct_iff) simp
  also have "\<dots> \<longleftrightarrow> distinct (map mc_node_id cs)"
    by (auto simp: distinct_map inj_on_def)
  finally show ?thesis by simp
qed

lemma children_ok_mset: "mset cs = mset ds \<Longrightarrow> children_ok e cs \<longleftrightarrow> children_ok e ds"
proof -
  assume m: "mset cs = mset ds"
  have d: "distinct (map f cs) \<longleftrightarrow> distinct (map f ds)" for f :: "manifest_record_child \<Rightarrow> rstring"
    using m by (intro mset_eq_imp_distinct_iff) simp
  have "set cs = set ds" using m by (metis set_mset_mset)
  moreover have "cs = [] \<longleftrightarrow> ds = []" using m by (metis mset_zero_iff)
  ultimately show ?thesis
    by (simp add: children_ok_def d list_all_iff)
qed

lemma manifest_record_new_iff:
  "manifest_record_new e cs = Inr r \<longleftrightarrow>
     children_ok e cs \<and> r = \<lparr>mr_entry = e, mr_children = sort_key child_key cs\<rparr>"
proof -
  have "distinct (map mc_name (sort_key child_key cs)) \<longleftrightarrow> distinct (map mc_name cs)"
    by (rule mset_eq_imp_distinct_iff) simp
  moreover have "sort_key child_key cs = [] \<longleftrightarrow> cs = []"
    by (metis mset_sort mset_zero_iff)
  ultimately show ?thesis
    by (auto simp: manifest_record_new_def Let_def windows2_child_ids children_ok_def list_all_iff)
qed

lemma sort_key_id: "sorted (map f xs) \<Longrightarrow> sort_key f xs = xs"
  by (rule sort_key_id_if_sorted)

lemma record_renew_iff: "record_renew r = Inr r' \<longleftrightarrow>
    children_ok (mr_entry r) (mr_children r) \<and> r' = r\<lparr>mr_children := sort_key child_key (mr_children r)\<rparr>"
  by (cases r) (simp add: record_renew_def manifest_record_new_iff)

lemma record_renew_fixed [simp]: "record_renew r = Inr r \<longleftrightarrow> record_ok r"
proof -
  have "r = r\<lparr>mr_children := cs\<rparr> \<longleftrightarrow> cs = mr_children r" for cs by (cases r) auto
  moreover have "sort_key child_key cs = cs \<longleftrightarrow> sorted (map child_key cs)" for cs
    by (metis sort_key_id sorted_sort_key)
  ultimately show ?thesis
    unfolding record_renew_iff record_ok_def by metis
qed

lemma manifest_record_new_ok: "manifest_record_new e cs = Inr r \<Longrightarrow> record_ok r"
  using children_ok_mset [of cs "sort_key child_key cs" e]
  by (auto simp: manifest_record_new_iff record_ok_def)

lemma children_keys_distinct: "distinct (map mc_node_id cs) \<Longrightarrow> distinct (map child_key cs)"
  by (auto simp: distinct_map inj_on_def child_key_def)

lemma decode_record_iff: "decode_record bs = Inr r \<longleftrightarrow> guarded record_ok encode_record r = Inr bs"
proof -
  have eq: "run_dec (dec_bind decode_record_from (\<lambda>r. dec_bind expect_end (\<lambda>_. dec_return r))) bs = Inr r \<longleftrightarrow>
      (\<exists>r0. encode_record r0 = Inr bs \<and> record_renew r0 = Inr r)" for r
    unfolding writes_all [symmetric] by (auto simp: run_dec_iff decode_record_from_iff)
  have "decode_record bs = Inr r \<longleftrightarrow> encode_record r = Inr bs \<and> record_renew r = Inr r"
    unfolding decode_record_def by (auto simp: eq simp del: record_renew_fixed dest: record_fields.enc_inj)
  then show ?thesis by auto
qed

interpretation nested_record: codec "push_nested (guarded record_ok encode_record)" "take_nested decode_record"
  by unfold_locales (simp add: take_nested_iff decode_record_iff del: writes_nested_guarded)

section \<open>The change codec\<close>

definition change_ok :: "manifest_change \<Rightarrow> bool" where
  "change_ok ch \<longleftrightarrow> (case (ch_before ch, ch_after ch) of
      (None, None) \<Rightarrow> False
    | (Some b, Some a) \<Rightarrow> mr_node_id b = mr_node_id a \<and> b \<noteq> a
    | _ \<Rightarrow> True)"

definition change_records_ok :: "manifest_change \<Rightarrow> bool" where
  "change_records_ok ch \<longleftrightarrow> pred_option record_ok (ch_before ch) \<and> pred_option record_ok (ch_after ch)"

lemma manifest_change_new_iff:
  "manifest_change_new b a = Inr ch \<longleftrightarrow> ch = \<lparr>ch_before = b, ch_after = a\<rparr> \<and> change_ok ch"
  by (cases b; cases a) (auto simp: manifest_change_new_def change_ok_def)

lemma change_renew_iff [simp]: "change_renew ch = Inr ch' \<longleftrightarrow> ch' = ch \<and> change_ok ch"
  by (cases ch) (auto simp: change_renew_def manifest_change_new_iff)

lemma take_change_fields_iff:
  "take_change_fields c = Inr (ch, c') \<longleftrightarrow> change_records_ok ch \<and>
     writes (pushes [push_flagged (push_nested encode_record) (ch_before ch),
                     push_flagged (push_nested encode_record) (ch_after ch)]) c c'"
  by (cases ch) (auto simp: take_change_fields_def nested_record.flagged_iff
      writes_flagged_guarded [OF writes_nested_guarded] change_records_ok_def)

lemma decode_manifest_change_iff:
  "decode_manifest_change bs = Inr ch \<longleftrightarrow>
     encode_manifest_change ch = Inr bs \<and> change_ok ch \<and> change_records_ok ch"
proof -
  let ?body = "\<lambda>ch. pushes [push_flagged (push_nested encode_record) (ch_before ch),
      push_flagged (push_nested encode_record) (ch_after ch)]"
  have "run_dec (dec_bind (expect_tag CHANGE_MAGIC) (\<lambda>_. dec_bind take_change_fields (\<lambda>ch.
         dec_bind expect_end (\<lambda>_. dec_return ch)))) bs = Inr ch \<longleftrightarrow>
     change_records_ok ch \<and> (\<exists>c'. writes (pushes (Inr CHANGE_MAGIC # [?body ch])) (cursor_new bs) c' \<and> rest c' = [])" for ch
    by (auto simp: run_dec_iff take_change_fields_iff simp del: writes_simps(3))
       (auto)
  then show ?thesis
    unfolding decode_manifest_change_def writes_all
    by (auto simp: encode_manifest_change_def)
qed

definition change_valid :: "manifest_change \<Rightarrow> bool" where
  "change_valid ch \<longleftrightarrow> change_ok ch \<and> change_records_ok ch"

interpretation nested_change: codec "push_nested (guarded change_valid encode_manifest_change)"
    "take_nested decode_manifest_change"
proof
  fix c c' v
  have "decode_manifest_change bs = Inr w \<longleftrightarrow> guarded change_valid encode_manifest_change w = Inr bs" for bs w
    by (auto simp: decode_manifest_change_iff change_valid_def)
  then show "take_nested decode_manifest_change c = Inr (v, c') \<longleftrightarrow>
      writes (push_nested (guarded change_valid encode_manifest_change) v) c c'"
    by (rule take_nested_iff)
qed

text \<open>The counted change list of commits and publication records.\<close>

definition push_changes :: "manifest_change list \<Rightarrow> error + bytes" where
  "push_changes chs =
     pushes [push_count (length chs), pushes (map (push_nested encode_manifest_change) chs)]"

definition take_changes :: "manifest_change list dec" where
  "take_changes = dec_bind take_u32 (\<lambda>n. take_times (unat n) (take_nested decode_manifest_change))"

lemma take_changes_iff:
  "take_changes c = Inr (chs, c') \<longleftrightarrow> list_all change_valid chs \<and> writes (push_changes chs) c c'"
proof -
  have "writes (pushes (map (push_nested (guarded change_valid encode_manifest_change)) chs)) c c' \<longleftrightarrow>
      list_all change_valid chs \<and> writes (pushes (map (push_nested encode_manifest_change) chs)) c c'" for c c'
    by (rule writes_map_guarded) simp
  then show ?thesis
    unfolding take_changes_def nested_change.counted_iff push_changes_def by auto
qed

section \<open>Canonical change lists\<close>

lemma change_ok_node_id: "change_ok ch \<Longrightarrow> \<exists>i. change_node_id ch = Inr i"
  by (auto simp: change_ok_def change_node_id_def split: option.splits)

lemma change_key_eq_iff:
  "change_ok a \<Longrightarrow> change_ok b \<Longrightarrow> change_key a = change_key b \<longleftrightarrow> change_node_id a = change_node_id b"
  by (auto simp: change_key_def dest!: change_ok_node_id)

lemma res_map_ok_iff: "(\<exists>ys. res_map f xs = Inr ys) \<longleftrightarrow> (\<forall>x \<in> set xs. \<exists>y. f x = Inr y)"
  by (induction xs) auto

lemma res_map_renew: "(\<exists>ys. res_map change_renew chs = Inr ys) \<longleftrightarrow> (\<forall>ch \<in> set chs. change_ok ch)"
  by (simp add: res_map_ok_iff)

lemma windows2_cong:
  "(\<And>x y. x \<in> set xs \<Longrightarrow> y \<in> set xs \<Longrightarrow> P x y \<longleftrightarrow> Q x y) \<Longrightarrow> windows2 P xs \<longleftrightarrow> windows2 Q xs"
  by (induction P xs rule: windows2.induct) auto

lemma windows2_change_ids:
  assumes "\<forall>ch \<in> set chs. change_ok ch"
  shows "windows2 (\<lambda>a b. change_node_id a \<noteq> change_node_id b) (sort_key change_key chs) \<longleftrightarrow>
    distinct (map change_key chs)"
proof -
  let ?s = "sort_key change_key chs"
  have "windows2 (\<lambda>a b. change_node_id a \<noteq> change_node_id b) ?s \<longleftrightarrow>
      windows2 (\<lambda>a b. change_key a \<noteq> change_key b) ?s"
    by (rule windows2_cong) (use assms change_key_eq_iff in auto)
  also have "\<dots> \<longleftrightarrow> distinct (map change_key ?s)"
    by (rule windows2_distinct_sorted) simp
  also have "\<dots> \<longleftrightarrow> distinct (map change_key chs)"
    by (rule mset_eq_imp_distinct_iff) simp
  finally show ?thesis .
qed

lemma sort_changes_iff:
  assumes "\<forall>ch \<in> set chs. change_ok ch"
  shows "sort_changes chs = Inr (sort_key change_key chs)"
proof (cases "length chs < 2")
  case True
  then have "chs = [] \<or> (\<exists>x. chs = [x])" by (cases chs; cases "tl chs"; auto)
  then show ?thesis by (auto simp: sort_changes_def)
next
  case False
  have "\<exists>ys. res_map change_node_id chs = Inr ys"
    using assms change_ok_node_id by (auto simp: res_map_ok_iff)
  with False show ?thesis by (auto simp: sort_changes_def)
qed

lemma set_sort_changes: "sort_changes chs = Inr s \<Longrightarrow> set s = set chs"
  by (auto simp: sort_changes_def split: if_splits)

lemma canonicalize_iff:
  "canonicalize chs = Inr out \<longleftrightarrow>
     (\<forall>ch \<in> set chs. change_ok ch) \<and> distinct (map change_key chs) \<and> out = sort_key change_key chs"
proof (cases "\<forall>ch \<in> set chs. change_ok ch")
  case True
  have "\<exists>ys. res_map change_renew (sort_key change_key chs) = Inr ys"
    using True by (simp add: res_map_renew)
  then show ?thesis
    using True by (auto simp: canonicalize_def sort_changes_iff windows2_change_ids)
next
  case False
  have "canonicalize chs \<noteq> Inr out"
  proof
    assume "canonicalize chs = Inr out"
    then obtain s where "sort_changes chs = Inr s" "\<exists>ys. res_map change_renew s = Inr ys"
      by (auto simp: canonicalize_def)
    then show False
      using False set_sort_changes by (auto simp: res_map_renew)
  qed
  with False show ?thesis by blast
qed

lemma canonicalize_fixed: "canonicalize chs = Inr chs \<longleftrightarrow>
    (\<forall>ch \<in> set chs. change_ok ch) \<and> distinct (map change_key chs) \<and> sorted (map change_key chs)"
  unfolding canonicalize_iff by (metis sort_key_id sorted_sort_key)

lemma canonicalize_idem: "canonicalize chs = Inr out \<Longrightarrow> canonicalize out = Inr out"
proof -
  assume h: "canonicalize chs = Inr out"
  have "distinct (map change_key (sort_key change_key chs)) \<longleftrightarrow> distinct (map change_key chs)"
    by (rule mset_eq_imp_distinct_iff) simp
  with h show ?thesis by (auto simp: canonicalize_fixed canonicalize_iff)
qed

lemma canonicalize_mset:
  assumes "canonicalize chs = Inr out" and "mset chs = mset chs'"
  shows "canonicalize chs' = Inr out"
proof -
  have "set chs' = set chs"
    using assms(2) by (metis set_mset_mset)
  moreover have "distinct (map change_key chs') \<longleftrightarrow> distinct (map change_key chs)"
    using assms(2) by (intro mset_eq_imp_distinct_iff) simp
  moreover have "sort_key change_key chs = sort_key change_key chs'"
    using assms by (intro sort_key_perm_eq) (auto simp: canonicalize_iff)
  ultimately show ?thesis
    using assms(1) by (auto simp: canonicalize_iff)
qed

section \<open>Properties of records and changes\<close>

text \<open>C38: A manifest record is built from a directory listing exactly when the listing repeats
  no node id and no name, has no empty one, and belongs to a physical directory with a node
  id; the record holds the listing in canonical order. A listing in another order gives the
  same record or the same error.\<close>

theorem manifest_record_canonical:
  assumes "mset cs = mset ds"
  shows "manifest_record_new e cs = manifest_record_new e ds
    \<and> (manifest_record_new e cs = Inr r \<longleftrightarrow>
        children_ok e cs \<and> r = \<lparr>mr_entry = e, mr_children = sort_key child_key cs\<rparr>)"
proof (cases "distinct (map mc_node_id cs)")
  case True
  then have "sort_key child_key cs = sort_key child_key ds"
    using assms by (intro sort_key_perm_eq children_keys_distinct)
  then have "manifest_record_new e cs = manifest_record_new e ds"
    by (simp add: manifest_record_new_def)
  then show ?thesis using manifest_record_new_iff [of e cs r] by blast
next
  case False
  moreover have "\<not> distinct (map mc_node_id ds)"
    using False mset_eq_imp_distinct_iff [of "map mc_node_id cs" "map mc_node_id ds"] assms by simp
  ultimately have "manifest_record_new e cs = manifest_record_new e ds"
    by (simp add: manifest_record_new_def Let_def windows2_child_ids)
  then show ?thesis using manifest_record_new_iff [of e cs r] by blast
qed

definition ex_children :: "manifest_record_child list" where
  "ex_children = [\<lparr>mc_node_id = mk_str [50], mc_name = mk_str [97], mc_entry_type = Symlink\<rparr>,
     \<lparr>mc_node_id = mk_str [49], mc_name = mk_str [98], mc_entry_type = FileDynamic\<rparr>]"

definition ex_entry :: manifest_entry where
  "ex_entry = manifest_entry_bare (mk_str [48]) (mk_str []) (mk_str []) DirectoryPhysical (digest 7)"

lemma ex_children_ok: "children_ok ex_entry ex_children"
  by (simp add: children_ok_def ex_entry_def ex_children_def manifest_entry_bare_def str_empty_def)

theorem manifest_record_canonical_witness:
  "manifest_record_new ex_entry ex_children = manifest_record_new ex_entry (rev ex_children)
   \<and> manifest_record_new ex_entry ex_children
      = Inr \<lparr>mr_entry = ex_entry, mr_children = rev ex_children\<rparr>"
proof -
  have "sort_key child_key ex_children = rev ex_children"
    by (simp add: ex_children_def child_key_def)
  moreover have "mset ex_children = mset (rev ex_children)" by simp
  note manifest_record_canonical [OF this, of ex_entry "\<lparr>mr_entry = ex_entry, mr_children = rev ex_children\<rparr>"]
  ultimately show ?thesis
    using ex_children_ok by metis
qed

text \<open>The decoder of a manifest record accepts exactly the bytes the encoder produces from a
  canonical record: every other byte string, a reordered listing included, is an error.\<close>

theorem manifest_record_codec:
  "decode_record bs = Inr r \<longleftrightarrow> encode_record r = Inr bs \<and> record_ok r"
  by (auto simp: decode_record_iff)

text \<open>The decoder of a manifest change accepts exactly the encodings of changes that have a
  side, keep the node id, are not no-ops, and whose records are canonical.\<close>

theorem manifest_change_codec:
  "decode_manifest_change bs = Inr ch \<longleftrightarrow>
     encode_manifest_change ch = Inr bs \<and> change_ok ch \<and> change_records_ok ch"
  by (rule decode_manifest_change_iff)

text \<open>C37: Canonicalising a change list gives its changes sorted by node id, and succeeds exactly
  when every change is well formed and no node id is changed twice; a canonical list is left
  as it is.\<close>

theorem canonicalize_spec:
  "(canonicalize chs = Inr out \<longleftrightarrow>
     list_all change_ok chs \<and> distinct (map change_key chs) \<and> out = sort_key change_key chs)
   \<and> res_bind (canonicalize chs) canonicalize = canonicalize chs"
proof -
  have "res_bind (canonicalize chs) canonicalize = canonicalize chs"
    using canonicalize_idem by (cases "canonicalize chs") auto
  then show ?thesis
    by (simp add: canonicalize_iff list_all_iff)
qed

end
