(* ===== verification/Protocol.thy ===== *)
theory Protocol
  imports ManifestRecord
begin

text \<open>
  Publication records, object descriptors and receipts, from
  \<open>sync-store/src/content/protocol.rs\<close>. The \<open>uuid\<close> of a pond is its 16 bytes; \<open>blake3\<close> is a
  parameter.
\<close>

definition NATIVE_FORMAT_V2 :: rstring where "NATIVE_FORMAT_V2 = mk_str (ascii ''watertown.native.v2'')"
definition PUBLICATION_MAGIC :: bytes where "PUBLICATION_MAGIC = ascii ''watertown.publication.v2'' @ [10]"
definition RECEIPT_MAGIC :: bytes where "RECEIPT_MAGIC = ascii ''watertown.object-receipt.v3'' @ [10]"
definition RECEIPT_AUTH_DOMAIN :: bytes where
  "RECEIPT_AUTH_DOMAIN = ascii ''watertown.object-receipt-auth.v3'' @ [10]"

typedef uuid = "{bs :: bytes. length bs = 16}"
  morphisms uuid_bytes uuid_from_bytes
  by (rule exI [of _ "replicate 16 0"]) simp

lemma length_uuid_bytes [simp]: "length (uuid_bytes u) = 16"
  using uuid_bytes [of u] by simp

lemma uuid_from_bytes_uuid_bytes [simp]: "uuid_from_bytes (uuid_bytes u) = u"
  by (rule uuid_bytes_inverse)

lemma uuid_bytes_uuid_from_bytes [simp]: "length bs = 16 \<Longrightarrow> uuid_bytes (uuid_from_bytes bs) = bs"
  by (rule uuid_from_bytes_inverse) simp

section \<open>Object kinds and descriptors\<close>

datatype content_object_kind = RawBlob | Tree | ManifestNode | SeriesManifest | Commit | Recipe

fun kind_to_wire :: "content_object_kind \<Rightarrow> byte" where
  "kind_to_wire RawBlob = 0"
| "kind_to_wire Tree = 1"
| "kind_to_wire ManifestNode = 2"
| "kind_to_wire SeriesManifest = 3"
| "kind_to_wire Commit = 4"
| "kind_to_wire Recipe = 5"

definition kind_from_wire :: "byte \<Rightarrow> error + content_object_kind" where
  "kind_from_wire v =
     (if v = 0 then Inr RawBlob
      else if v = 1 then Inr Tree
      else if v = 2 then Inr ManifestNode
      else if v = 3 then Inr SeriesManifest
      else if v = 4 then Inr Commit
      else if v = 5 then Inr Recipe
      else Inl (Reject ''unknown content object kind byte''))"

fun kind_as_str :: "content_object_kind \<Rightarrow> string" where
  "kind_as_str RawBlob = ''raw_blob''"
| "kind_as_str Tree = ''tree''"
| "kind_as_str ManifestNode = ''manifest_node''"
| "kind_as_str SeriesManifest = ''series_manifest''"
| "kind_as_str Commit = ''commit''"
| "kind_as_str Recipe = ''recipe''"

lemma kind_to_wire_inject [simp]: "kind_to_wire a = kind_to_wire b \<longleftrightarrow> a = b"
  by (cases a; cases b; simp)

lemma kind_from_wire_iff [simp]: "kind_from_wire v = Inr k \<longleftrightarrow> v = kind_to_wire k"
  by (cases k) (auto simp: kind_from_wire_def)

lemma kind_as_str_inj: "kind_as_str a = kind_as_str b \<Longrightarrow> a = b"
  by (cases a; cases b; simp)

text \<open>The derived order of the enum is the order of its wire bytes.\<close>

instantiation content_object_kind :: linorder
begin

definition "less_eq_content_object_kind a b = (kind_to_wire a \<le> kind_to_wire b)"
definition "less_content_object_kind a b = (kind_to_wire a < kind_to_wire b)"

instance
  by standard (auto simp: less_eq_content_object_kind_def less_content_object_kind_def
      dest: kind_to_wire_inject [THEN iffD1, OF order_antisym])

end

record object_descriptor =
  od_hash :: hash32
  od_kind :: content_object_kind

record pack_descriptor =
  pd_series_hash :: hash32
  pd_pack_hash :: hash32

text \<open>\<open>sort_unstable\<close> on the derived lexicographic orders, then \<open>dedup\<close>.\<close>

definition od_key :: "object_descriptor \<Rightarrow> hash32 \<times> content_object_kind" where
  "od_key d = (od_hash d, od_kind d)"

definition pd_key :: "pack_descriptor \<Rightarrow> hash32 \<times> hash32" where
  "pd_key d = (pd_series_hash d, pd_pack_hash d)"

definition sort_dedup_objects :: "object_descriptor list \<Rightarrow> object_descriptor list" where
  "sort_dedup_objects ds = remdups_adj (sort_key od_key ds)"

definition sort_dedup_packs :: "pack_descriptor list \<Rightarrow> pack_descriptor list" where
  "sort_dedup_packs ds = remdups_adj (sort_key pd_key ds)"

definition push_object_descriptor :: "object_descriptor \<Rightarrow> error + bytes" where
  "push_object_descriptor d = pushes [Inr (as_bytes (od_hash d)), Inr [kind_to_wire (od_kind d)]]"

definition push_pack_descriptor :: "pack_descriptor \<Rightarrow> error + bytes" where
  "push_pack_descriptor d = pushes [Inr (as_bytes (pd_series_hash d)), Inr (as_bytes (pd_pack_hash d))]"

definition push_objects :: "object_descriptor list \<Rightarrow> error + bytes" where
  "push_objects ds = pushes [push_count (length ds), pushes (map push_object_descriptor ds)]"

definition push_packs :: "pack_descriptor list \<Rightarrow> error + bytes" where
  "push_packs ds = pushes [push_count (length ds), pushes (map push_pack_descriptor ds)]"

definition take_object_descriptor :: "object_descriptor dec" where
  "take_object_descriptor =
     dec_bind take_hash (\<lambda>h. dec_bind take_u8 (\<lambda>b. dec_bind (dec_lift (kind_from_wire b)) (\<lambda>k.
       dec_return \<lparr>od_hash = h, od_kind = k\<rparr>)))"

definition take_pack_descriptor :: "pack_descriptor dec" where
  "take_pack_descriptor =
     dec_bind take_hash (\<lambda>s. dec_bind take_hash (\<lambda>p.
       dec_return \<lparr>pd_series_hash = s, pd_pack_hash = p\<rparr>))"

definition take_objects :: "object_descriptor list dec" where
  "take_objects = dec_bind take_u32 (\<lambda>n. take_times (unat n) take_object_descriptor)"

definition take_packs :: "pack_descriptor list dec" where
  "take_packs = dec_bind take_u32 (\<lambda>n. take_times (unat n) take_pack_descriptor)"

definition push_hash :: "hash32 \<Rightarrow> error + bytes" where
  "push_hash h = Inr (as_bytes h)"

section \<open>Publication records\<close>

record publication_record =
  pr_format :: rstring
  pr_pond_id :: uuid
  pr_ref_name :: rstring
  pr_snapshot_tip :: hash32
  pr_manifest_root :: hash32
  pr_parent :: "hash32 option"
  pr_objects :: "object_descriptor list"
  pr_packs :: "pack_descriptor list"
  pr_changes :: "manifest_change list"

definition publication_new :: "uuid \<Rightarrow> rstring \<Rightarrow> hash32 \<Rightarrow> hash32 \<Rightarrow> hash32 option \<Rightarrow>
    object_descriptor list \<Rightarrow> pack_descriptor list \<Rightarrow> manifest_change list \<Rightarrow> error + publication_record" where
  "publication_new pond_id ref_name tip root parent objects packs changes =
     res_bind (require (\<not> str_empty ref_name) (Reject ''publication ref name is empty'')) (\<lambda>_.
     res_bind (canonicalize changes) (\<lambda>changes'.
       Inr \<lparr>pr_format = NATIVE_FORMAT_V2, pr_pond_id = pond_id, pr_ref_name = ref_name,
            pr_snapshot_tip = tip, pr_manifest_root = root, pr_parent = parent,
            pr_objects = sort_dedup_objects objects, pr_packs = sort_dedup_packs packs,
            pr_changes = changes'\<rparr>))"

definition encode_publication :: "publication_record \<Rightarrow> error + bytes" where
  "encode_publication p = pushes
     [Inr PUBLICATION_MAGIC,
      push_len_prefixed (str_bytes (pr_format p)),
      Inr (uuid_bytes (pr_pond_id p)),
      push_len_prefixed (str_bytes (pr_ref_name p)),
      Inr (as_bytes (pr_snapshot_tip p)),
      Inr (as_bytes (pr_manifest_root p)),
      push_flagged push_hash (pr_parent p),
      push_objects (pr_objects p),
      push_packs (pr_packs p),
      push_changes (pr_changes p)]"

definition publication_hash :: "(bytes \<Rightarrow> hash32) \<Rightarrow> publication_record \<Rightarrow> error + hash32" where
  "publication_hash blake3 p = res_bind (encode_publication p) (\<lambda>bs. Inr (blake3 bs))"

definition take_uuid :: "uuid dec" where
  "take_uuid = dec_bind (take_array 16) (\<lambda>bs. dec_return (uuid_from_bytes bs))"

definition take_publication_fields :: "publication_record dec" where
  "take_publication_fields =
     dec_bind (expect_tag PUBLICATION_MAGIC) (\<lambda>_.
     dec_bind take_len_prefixed_string (\<lambda>format.
     dec_bind (dec_lift (require (format = NATIVE_FORMAT_V2) (Reject ''unsupported publication format''))) (\<lambda>_.
     dec_bind take_uuid (\<lambda>pond_id.
     dec_bind take_len_prefixed_string (\<lambda>ref_name.
     dec_bind take_hash (\<lambda>tip.
     dec_bind take_hash (\<lambda>root.
     dec_bind (take_flagged ''invalid publication parent flag'' take_hash) (\<lambda>parent.
     dec_bind take_objects (\<lambda>objects.
     dec_bind take_packs (\<lambda>packs.
     dec_bind take_changes (\<lambda>changes.
       dec_return \<lparr>pr_format = format, pr_pond_id = pond_id, pr_ref_name = ref_name,
            pr_snapshot_tip = tip, pr_manifest_root = root, pr_parent = parent,
            pr_objects = objects, pr_packs = packs, pr_changes = changes\<rparr>)))))))))))"

definition publication_renew :: "publication_record \<Rightarrow> error + publication_record" where
  "publication_renew p = publication_new (pr_pond_id p) (pr_ref_name p) (pr_snapshot_tip p)
     (pr_manifest_root p) (pr_parent p) (pr_objects p) (pr_packs p) (pr_changes p)"

definition decode_publication :: "bytes \<Rightarrow> error + publication_record" where
  "decode_publication bs =
     res_bind (run_dec (dec_bind take_publication_fields (\<lambda>p. dec_bind expect_end (\<lambda>_. dec_return p))) bs) (\<lambda>p.
     res_bind (publication_renew p)
       (canonical_check encode_publication ''publication record is not canonically encoded'' bs))"

section \<open>Receipts\<close>

record object_receipt =
  or_payload_hash :: hash32
  or_byte_length :: u64
  or_e_tag :: "rstring option"
  or_version :: "rstring option"

definition receipt_new :: "hash32 \<Rightarrow> u64 \<Rightarrow> rstring option \<Rightarrow> rstring option \<Rightarrow> error + object_receipt" where
  "receipt_new h n e_tag version =
     res_bind (require (\<not> (case e_tag of Some s \<Rightarrow> str_empty s | None \<Rightarrow> False))
       (Reject ''receipt e_tag must be None rather than empty'')) (\<lambda>_.
     res_bind (require (\<not> (case version of Some s \<Rightarrow> str_empty s | None \<Rightarrow> False))
       (Reject ''receipt version must be None rather than empty'')) (\<lambda>_.
       Inr \<lparr>or_payload_hash = h, or_byte_length = n, or_e_tag = e_tag, or_version = version\<rparr>))"

definition encode_optional_string :: "rstring option \<Rightarrow> error + bytes" where
  "encode_optional_string v = (case v of Some s \<Rightarrow> push_len_prefixed (str_bytes s) | None \<Rightarrow> push_len_prefixed [])"

definition decode_optional_string :: "rstring option dec" where
  "decode_optional_string = dec_bind take_len_prefixed (\<lambda>bs.
     if bs = [] then dec_return None
     else dec_bind (dec_lift (from_utf8 bs)) (\<lambda>s. dec_return (Some s)))"

definition receipt_encode_body :: "object_receipt \<Rightarrow> error + bytes" where
  "receipt_encode_body r = pushes
     [Inr RECEIPT_MAGIC, Inr (as_bytes (or_payload_hash r)), Inr (le64 (or_byte_length r)),
      encode_optional_string (or_e_tag r), encode_optional_string (or_version r)]"

definition receipt_auth :: "(bytes \<Rightarrow> hash32) \<Rightarrow> bytes \<Rightarrow> bytes" where
  "receipt_auth blake3 body = as_bytes (blake3 (RECEIPT_AUTH_DOMAIN @ body))"

definition encode_receipt :: "(bytes \<Rightarrow> hash32) \<Rightarrow> object_receipt \<Rightarrow> error + bytes" where
  "encode_receipt blake3 r = res_bind (receipt_encode_body r) (\<lambda>body. Inr (body @ receipt_auth blake3 body))"

definition take_receipt_fields :: "object_receipt dec" where
  "take_receipt_fields =
     dec_bind (expect_tag RECEIPT_MAGIC) (\<lambda>_.
     dec_bind take_hash (\<lambda>h.
     dec_bind take_u64 (\<lambda>n.
     dec_bind decode_optional_string (\<lambda>e.
     dec_bind decode_optional_string (\<lambda>v.
       dec_return \<lparr>or_payload_hash = h, or_byte_length = n, or_e_tag = e, or_version = v\<rparr>)))))"

definition receipt_renew :: "object_receipt \<Rightarrow> error + object_receipt" where
  "receipt_renew r = receipt_new (or_payload_hash r) (or_byte_length r) (or_e_tag r) (or_version r)"

definition decode_receipt :: "(bytes \<Rightarrow> hash32) \<Rightarrow> bytes \<Rightarrow> error + object_receipt" where
  "decode_receipt blake3 bs =
     res_bind (require (\<not> length bs < length RECEIPT_MAGIC + 32 + 8 + 4 + 4 + 32)
       (Reject ''object receipt is truncated'')) (\<lambda>_.
     let body = take (length bs - 32) bs; authentication = drop (length bs - 32) bs in
     res_bind (require (receipt_auth blake3 body = authentication)
       (Reject ''object receipt authentication mismatch'')) (\<lambda>_.
     res_bind (run_dec (dec_bind take_receipt_fields (\<lambda>r. dec_bind expect_end (\<lambda>_. dec_return r))) body) (\<lambda>r.
     res_bind (receipt_renew r)
       (canonical_check (encode_receipt blake3) ''object receipt is not canonically encoded'' bs))))"

section \<open>The codecs meet their contract\<close>

interpretation object_descriptor: codec push_object_descriptor take_object_descriptor
proof
  fix c c' and v :: object_descriptor
  show "take_object_descriptor c = Inr (v, c') \<longleftrightarrow> writes (push_object_descriptor v) c c'"
    by (cases v) (auto simp: take_object_descriptor_def push_object_descriptor_def)
qed

interpretation pack_descriptor: codec push_pack_descriptor take_pack_descriptor
proof
  fix c c' and v :: pack_descriptor
  show "take_pack_descriptor c = Inr (v, c') \<longleftrightarrow> writes (push_pack_descriptor v) c c'"
    by (cases v) (auto simp: take_pack_descriptor_def push_pack_descriptor_def)
qed

lemma take_objects_iff: "take_objects c = Inr (ds, c') \<longleftrightarrow> writes (push_objects ds) c c'"
  unfolding take_objects_def push_objects_def by (rule object_descriptor.counted_iff)

lemma take_packs_iff: "take_packs c = Inr (ds, c') \<longleftrightarrow> writes (push_packs ds) c c'"
  unfolding take_packs_def push_packs_def by (rule pack_descriptor.counted_iff)

interpretation digest_codec: codec push_hash take_hash
  by unfold_locales (simp add: push_hash_def)

lemma take_uuid_iff: "take_uuid c = Inr (u, c') \<longleftrightarrow> writes (Inr (uuid_bytes u)) c c'"
  by (auto simp: take_uuid_def intro: exI [of _ "uuid_bytes u"])

lemma take_optional_string_iff:
  "decode_optional_string c = Inr (x, c') \<longleftrightarrow>
     pred_option (\<lambda>s. \<not> str_empty s) x \<and> writes (encode_optional_string x) c c'"
proof (cases x)
  case None
  then show ?thesis
    by (auto simp: decode_optional_string_def encode_optional_string_def split: if_splits)
next
  case (Some s)
  then show ?thesis
    by (auto simp: decode_optional_string_def encode_optional_string_def str_empty_def split: if_splits)
qed

lemmas codec_iffs = dec_bind_iff dec_return_iff dec_lift_iff require_eq_Inr expect_tag_iff
  take_hash_iff take_words_iff take_u8_iff take_len_prefixed_string_iff take_uuid_iff
  take_objects_iff take_packs_iff take_changes_iff digest_codec.flagged_iff

section \<open>Canonical publication records\<close>

lemma inj_keys: "inj od_key" "inj pd_key"
  by (auto simp: inj_def od_key_def pd_key_def)

definition objects_canonical :: "object_descriptor list \<Rightarrow> bool" where
  "objects_canonical ds \<longleftrightarrow> sorted (map od_key ds) \<and> distinct ds"

definition packs_canonical :: "pack_descriptor list \<Rightarrow> bool" where
  "packs_canonical ds \<longleftrightarrow> sorted (map pd_key ds) \<and> distinct ds"

definition changes_canonical :: "manifest_change list \<Rightarrow> bool" where
  "changes_canonical chs \<longleftrightarrow> list_all change_valid chs \<and> distinct (map change_key chs) \<and> sorted (map change_key chs)"

definition publication_ok :: "publication_record \<Rightarrow> bool" where
  "publication_ok p \<longleftrightarrow> pr_format p = NATIVE_FORMAT_V2 \<and> \<not> str_empty (pr_ref_name p)
     \<and> objects_canonical (pr_objects p) \<and> packs_canonical (pr_packs p) \<and> changes_canonical (pr_changes p)"

lemma sort_dedup_objects_fixed [simp]: "sort_dedup_objects ds = ds \<longleftrightarrow> objects_canonical ds"
  unfolding sort_dedup_objects_def objects_canonical_def by (rule sort_dedup_fixed) (rule inj_keys)

lemma sort_dedup_packs_fixed [simp]: "sort_dedup_packs ds = ds \<longleftrightarrow> packs_canonical ds"
  unfolding sort_dedup_packs_def packs_canonical_def by (rule sort_dedup_fixed) (rule inj_keys)

lemma sort_dedup_fixed_sym [simp]:
  "os = sort_dedup_objects os \<longleftrightarrow> objects_canonical os" "ps = sort_dedup_packs ps \<longleftrightarrow> packs_canonical ps"
  by (metis sort_dedup_objects_fixed, metis sort_dedup_packs_fixed)

lemma sort_dedup_objects_canonical: "objects_canonical (sort_dedup_objects ds)"
  unfolding sort_dedup_objects_fixed [symmetric]
  by (simp add: sort_dedup_objects_def sort_dedup_set_eq [OF inj_keys(1)])

lemma sort_dedup_packs_canonical: "packs_canonical (sort_dedup_packs ds)"
  unfolding sort_dedup_packs_fixed [symmetric]
  by (simp add: sort_dedup_packs_def sort_dedup_set_eq [OF inj_keys(2)])

lemma canonicalize_canonical:
  "list_all change_valid chs \<Longrightarrow> canonicalize chs = Inr chs \<longleftrightarrow> changes_canonical chs"
  by (auto simp: canonicalize_fixed changes_canonical_def list_all_iff change_valid_def)

lemma canonicalize_valid:
  "canonicalize chs = Inr out \<Longrightarrow> list_all change_valid chs \<Longrightarrow> changes_canonical out"
proof -
  assume h: "canonicalize chs = Inr out" "list_all change_valid chs"
  then have "list_all change_valid out"
    by (simp add: canonicalize_iff list_all_iff)
  then show ?thesis
    using canonicalize_idem [OF h(1)] canonicalize_canonical by blast
qed

lemma publication_new_iff:
  "publication_new u n t r q os ps chs = Inr p \<longleftrightarrow>
     \<not> str_empty n \<and> (\<exists>chs'. canonicalize chs = Inr chs' \<and>
       p = \<lparr>pr_format = NATIVE_FORMAT_V2, pr_pond_id = u, pr_ref_name = n, pr_snapshot_tip = t,
            pr_manifest_root = r, pr_parent = q, pr_objects = sort_dedup_objects os,
            pr_packs = sort_dedup_packs ps, pr_changes = chs'\<rparr>)"
  by (auto simp: publication_new_def)

definition publication_parsed :: "publication_record \<Rightarrow> bool" where
  "publication_parsed p \<longleftrightarrow> pr_format p = NATIVE_FORMAT_V2 \<and> list_all change_valid (pr_changes p)"

lemma publication_renew_fixed:
  "publication_parsed p \<and> publication_renew p = Inr p \<longleftrightarrow> publication_ok p"
proof -
  obtain f u n t r q os ps chs where p: "p = \<lparr>pr_format = f, pr_pond_id = u, pr_ref_name = n, pr_snapshot_tip = t,
            pr_manifest_root = r, pr_parent = q, pr_objects = os, pr_packs = ps, pr_changes = chs\<rparr>"
    by (cases p)
  show ?thesis
    unfolding p publication_parsed_def publication_renew_def publication_new_iff publication_ok_def
      publication_record.select_convs publication_record.ext_inject
    using canonicalize_canonical [of chs]
    by (auto simp: changes_canonical_def)
qed

lemma publication_renew_parsed:
  "publication_parsed p \<Longrightarrow> publication_renew p = Inr p' \<Longrightarrow> publication_parsed p'"
  by (auto simp: publication_parsed_def publication_renew_def publication_new_iff
      dest!: canonicalize_valid simp: changes_canonical_def)

lemma take_publication_iff:
  "take_publication_fields c = Inr (p, c') \<longleftrightarrow> publication_parsed p \<and> writes (encode_publication p) c c'"
proof -
  obtain f u n t r q os ps chs where p: "p = \<lparr>pr_format = f, pr_pond_id = u, pr_ref_name = n, pr_snapshot_tip = t,
            pr_manifest_root = r, pr_parent = q, pr_objects = os, pr_packs = ps, pr_changes = chs\<rparr>"
    by (cases p)
  show ?thesis
    unfolding take_publication_fields_def encode_publication_def publication_parsed_def p codec_iffs
      publication_record.select_convs publication_record.ext_inject writes_simps
    by (rule iffI, (clarify, intro exI conjI, (assumption | rule refl)+)+)
qed

lemma decode_publication_iff:
  "decode_publication bs = Inr p \<longleftrightarrow> encode_publication p = Inr bs \<and> publication_ok p"
proof -
  have raw: "run_dec (dec_bind take_publication_fields (\<lambda>p. dec_bind expect_end (\<lambda>_. dec_return p))) bs = Inr p \<longleftrightarrow>
      publication_parsed p \<and> encode_publication p = Inr bs" for p
    unfolding writes_all [symmetric] by (auto simp: run_dec_iff take_publication_iff)
  have "decode_publication bs = Inr p \<longleftrightarrow>
      publication_parsed p \<and> publication_renew p = Inr p \<and> encode_publication p = Inr bs"
    unfolding decode_publication_def
    by (rule canonical_decoder_iff [where P = publication_parsed, OF raw publication_renew_parsed])
  then show ?thesis
    using publication_renew_fixed [of p] by auto
qed

section \<open>Receipts\<close>

definition receipt_ok :: "object_receipt \<Rightarrow> bool" where
  "receipt_ok r \<longleftrightarrow> pred_option (\<lambda>s. \<not> str_empty s) (or_e_tag r) \<and> pred_option (\<lambda>s. \<not> str_empty s) (or_version r)"

lemma receipt_renew_iff: "receipt_renew r = Inr r' \<longleftrightarrow> receipt_ok r \<and> r' = r"
  by (cases r) (auto simp: receipt_renew_def receipt_new_def receipt_ok_def split: option.splits)

lemma take_receipt_iff:
  "take_receipt_fields c = Inr (r, c') \<longleftrightarrow> receipt_ok r \<and> writes (receipt_encode_body r) c c'"
proof -
  obtain h n e v where r: "r = \<lparr>or_payload_hash = h, or_byte_length = n, or_e_tag = e, or_version = v\<rparr>"
    by (cases r)
  show ?thesis
    unfolding take_receipt_fields_def receipt_encode_body_def receipt_ok_def r codec_iffs take_optional_string_iff
      object_receipt.select_convs object_receipt.ext_inject writes_simps
    by (rule iffI, (clarify, intro exI conjI, (assumption | rule refl)+)+)
qed

lemma receipt_body_length:
  "receipt_encode_body r = Inr body \<Longrightarrow> length RECEIPT_MAGIC + 32 + 8 + 4 + 4 \<le> length body"
  by (auto simp: receipt_encode_body_def encode_optional_string_def push_len_prefixed_def split: option.splits if_splits)

lemma decode_receipt_iff:
  "decode_receipt blake3 bs = Inr r \<longleftrightarrow> encode_receipt blake3 r = Inr bs \<and> receipt_ok r"
proof -
  have run: "run_dec (dec_bind take_receipt_fields (\<lambda>r. dec_bind expect_end (\<lambda>_. dec_return r))) b = Inr r \<longleftrightarrow>
      receipt_ok r \<and> receipt_encode_body r = Inr b" for b r
    unfolding writes_all [symmetric] by (auto simp: run_dec_iff take_receipt_iff)
  show ?thesis
  proof
    assume "decode_receipt blake3 bs = Inr r"
    then show "encode_receipt blake3 r = Inr bs \<and> receipt_ok r"
      by (auto simp: decode_receipt_def Let_def run receipt_renew_iff)
  next
    assume h: "encode_receipt blake3 r = Inr bs \<and> receipt_ok r"
    then obtain body where b: "receipt_encode_body r = Inr body" "bs = body @ receipt_auth blake3 body"
      by (auto simp: encode_receipt_def)
    have "length (receipt_auth blake3 body) = 32" by (simp add: receipt_auth_def)
    then show "decode_receipt blake3 bs = Inr r"
      using h b receipt_body_length [OF b(1)]
      by (auto simp: decode_receipt_def Let_def run receipt_renew_iff)
  qed
qed

section \<open>Properties of publications and receipts\<close>

text \<open>C36: The publication decoder accepts exactly the encodings of canonical publication records:
  the native format marker, a ref name, objects and packs sorted without repetition, and a
  canonical change list.\<close>

theorem publication_codec:
  "decode_publication bs = Inr p \<longleftrightarrow> encode_publication p = Inr bs \<and> publication_ok p"
  by (rule decode_publication_iff)

text \<open>A publication record built from its parts depends only on which objects and packs are
  introduced and on which nodes change, not on the order or repetition in which a push lists
  them, and it is canonical when the listed records are: so its hash identifies the push.\<close>

theorem publication_new_canonical:
  assumes "publication_new u n t r q os ps chs = Inr p"
    and "set os = set os'" and "set ps = set ps'" and "mset chs = mset chs'"
  shows "publication_new u n t r q os' ps' chs' = Inr p
    \<and> (list_all change_records_ok chs \<longrightarrow> publication_ok p)"
proof -
  obtain out where out: "canonicalize chs = Inr out" and n: "\<not> str_empty n"
    and p: "p = \<lparr>pr_format = NATIVE_FORMAT_V2, pr_pond_id = u, pr_ref_name = n, pr_snapshot_tip = t,
            pr_manifest_root = r, pr_parent = q, pr_objects = sort_dedup_objects os,
            pr_packs = sort_dedup_packs ps, pr_changes = out\<rparr>"
    using assms(1) by (auto simp: publication_new_iff)
  have "sort_dedup_objects os = sort_dedup_objects os'" "sort_dedup_packs ps = sort_dedup_packs ps'"
    using assms(2,3) by (simp_all add: sort_dedup_objects_def sort_dedup_packs_def sort_dedup_set_eq inj_keys)
  then have "publication_new u n t r q os' ps' chs' = Inr p"
    using canonicalize_mset [OF out assms(4)] n p by (auto simp: publication_new_iff)
  moreover have "list_all change_records_ok chs \<Longrightarrow> list_all change_valid chs"
    using out by (auto simp: canonicalize_iff list_all_iff change_valid_def)
  then have "list_all change_records_ok chs \<Longrightarrow> publication_ok p"
    using out n canonicalize_valid sort_dedup_objects_canonical sort_dedup_packs_canonical
    by (auto simp: publication_ok_def p)
  ultimately show ?thesis by blast
qed

theorem publication_new_canonical_witness:
  "let a = \<lparr>od_hash = digest 2, od_kind = Tree\<rparr>; b = \<lparr>od_hash = digest 1, od_kind = Recipe\<rparr>;
       u = uuid_from_bytes (replicate 16 0); n = mk_str [97] in
   \<exists>p. publication_new u n (digest 3) (digest 4) None [a, b] [] [] = Inr p
     \<and> publication_new u n (digest 3) (digest 4) None [b, a, b] [] [] = Inr p
     \<and> publication_ok p"
proof -
  let ?a = "\<lparr>od_hash = digest 2, od_kind = Tree\<rparr>" and ?b = "\<lparr>od_hash = digest 1, od_kind = Recipe\<rparr>"
  let ?u = "uuid_from_bytes (replicate 16 0)" and ?n = "mk_str [97]"
  obtain p where p: "publication_new ?u ?n (digest 3) (digest 4) None [?a, ?b] [] [] = Inr p"
    by (auto simp: publication_new_def str_empty_def canonicalize_def sort_changes_def)
  have "set [?a, ?b] = set [?b, ?a, ?b]" by auto
  from publication_new_canonical [OF p this refl refl] p show ?thesis
    unfolding Let_def by (intro exI [of _ p]) simp
qed

text \<open>The receipt decoder accepts exactly the authenticated encodings of receipts whose
  optional provider fields are absent rather than empty, whatever the hash function.\<close>

theorem receipt_codec:
  "decode_receipt blake3 bs = Inr r \<longleftrightarrow> encode_receipt blake3 r = Inr bs \<and> receipt_ok r"
  by (rule decode_receipt_iff)

end
