(* ===== verification/CommitObject.thy ===== *)
theory CommitObject
  imports Protocol
begin

text \<open>
  Commit objects, from \<open>sync-store/src/content/commit.rs\<close>: the snapshot root, the parent, the
  bounded change delta and the provenance, with the canonical wire form.
\<close>

definition COMMIT_MAGIC :: bytes where "COMMIT_MAGIC = ascii ''watertown.commit.v2'' @ [10]"

datatype content_model_version = PublicationV2

fun version_to_wire :: "content_model_version \<Rightarrow> byte" where
  "version_to_wire PublicationV2 = 1"

definition version_from_wire :: "byte \<Rightarrow> error + content_model_version" where
  "version_from_wire v =
     (if v = 1 then Inr PublicationV2 else Inl (Reject ''unknown content model version byte''))"

record provenance =
  pv_pond_id :: rstring
  pv_seq :: i64
  pv_time_micros :: i64
  pv_author :: rstring
  pv_request :: rstring

record commit =
  co_version :: content_model_version
  co_root_tree_hash :: hash32
  co_parent :: "hash32 option"
  co_manifest_root :: hash32
  co_changes :: "manifest_change list"
  co_objects :: "object_descriptor list"
  co_packs :: "pack_descriptor list"
  co_provenance :: provenance

definition commit_new :: "content_model_version \<Rightarrow> hash32 \<Rightarrow> hash32 option \<Rightarrow> hash32 \<Rightarrow> provenance \<Rightarrow> commit" where
  "commit_new v tree parent root pv =
     \<lparr>co_version = v, co_root_tree_hash = tree, co_parent = parent, co_manifest_root = root,
      co_changes = [], co_objects = [], co_packs = [], co_provenance = pv\<rparr>"

definition commit_new_with_delta :: "content_model_version \<Rightarrow> hash32 \<Rightarrow> hash32 option \<Rightarrow> hash32 \<Rightarrow>
    manifest_change list \<Rightarrow> object_descriptor list \<Rightarrow> pack_descriptor list \<Rightarrow> provenance \<Rightarrow> error + commit" where
  "commit_new_with_delta v tree parent root changes objects packs pv =
     res_bind (canonicalize changes) (\<lambda>changes'.
       Inr \<lparr>co_version = v, co_root_tree_hash = tree, co_parent = parent, co_manifest_root = root,
            co_changes = changes', co_objects = sort_dedup_objects objects,
            co_packs = sort_dedup_packs packs, co_provenance = pv\<rparr>)"

definition encode_commit :: "commit \<Rightarrow> error + bytes" where
  "encode_commit co = pushes
     [Inr COMMIT_MAGIC,
      Inr [version_to_wire (co_version co)],
      Inr (as_bytes (co_root_tree_hash co)),
      push_flagged push_hash (co_parent co),
      Inr (as_bytes (co_manifest_root co)),
      push_changes (co_changes co),
      push_objects (co_objects co),
      push_packs (co_packs co),
      push_len_prefixed (str_bytes (pv_pond_id (co_provenance co))),
      Inr (le64 (pv_seq (co_provenance co))),
      Inr (le64 (pv_time_micros (co_provenance co))),
      push_len_prefixed (str_bytes (pv_author (co_provenance co))),
      push_len_prefixed (str_bytes (pv_request (co_provenance co)))]"

definition commit_hash :: "(bytes \<Rightarrow> hash32) \<Rightarrow> commit \<Rightarrow> error + hash32" where
  "commit_hash blake3 co = res_bind (encode_commit co) (\<lambda>bs. Inr (blake3 bs))"

definition take_commit_fields :: "commit dec" where
  "take_commit_fields =
     dec_bind (expect_tag COMMIT_MAGIC) (\<lambda>_.
     dec_bind take_u8 (\<lambda>vb.
     dec_bind (dec_lift (version_from_wire vb)) (\<lambda>v.
     dec_bind take_hash (\<lambda>tree.
     dec_bind (take_flagged ''invalid parent flag'' take_hash) (\<lambda>parent.
     dec_bind take_hash (\<lambda>root.
     dec_bind take_changes (\<lambda>changes.
     dec_bind take_objects (\<lambda>objects.
     dec_bind take_packs (\<lambda>packs.
     dec_bind take_len_prefixed_string (\<lambda>pond.
     dec_bind take_i64 (\<lambda>sq.
     dec_bind take_i64 (\<lambda>tm.
     dec_bind take_len_prefixed_string (\<lambda>author.
     dec_bind take_len_prefixed_string (\<lambda>request.
       dec_return \<lparr>co_version = v, co_root_tree_hash = tree, co_parent = parent, co_manifest_root = root,
            co_changes = changes, co_objects = objects, co_packs = packs,
            co_provenance = \<lparr>pv_pond_id = pond, pv_seq = sq, pv_time_micros = tm,
              pv_author = author, pv_request = request\<rparr>\<rparr>))))))))))))))"

definition commit_renew :: "commit \<Rightarrow> error + commit" where
  "commit_renew co = commit_new_with_delta (co_version co) (co_root_tree_hash co) (co_parent co)
     (co_manifest_root co) (co_changes co) (co_objects co) (co_packs co) (co_provenance co)"

definition decode_commit :: "bytes \<Rightarrow> error + commit" where
  "decode_commit bs =
     res_bind (run_dec (dec_bind take_commit_fields (\<lambda>co. dec_bind expect_end (\<lambda>_. dec_return co))) bs) (\<lambda>co.
     res_bind (commit_renew co)
       (canonical_check encode_commit ''commit is not canonically encoded'' bs))"

section \<open>Canonical commits\<close>

lemma version_from_wire_iff [simp]: "version_from_wire b = Inr v \<longleftrightarrow> b = version_to_wire v"
  by (cases v) (simp add: version_from_wire_def)

definition commit_ok :: "commit \<Rightarrow> bool" where
  "commit_ok co \<longleftrightarrow> changes_canonical (co_changes co) \<and> objects_canonical (co_objects co)
     \<and> packs_canonical (co_packs co)"

abbreviation commit_parsed :: "commit \<Rightarrow> bool" where
  "commit_parsed co \<equiv> list_all change_valid (co_changes co)"

lemma commit_new_with_delta_iff:
  "commit_new_with_delta v t p r chs os ps pv = Inr co \<longleftrightarrow>
     (\<exists>chs'. canonicalize chs = Inr chs' \<and>
       co = \<lparr>co_version = v, co_root_tree_hash = t, co_parent = p, co_manifest_root = r,
            co_changes = chs', co_objects = sort_dedup_objects os,
            co_packs = sort_dedup_packs ps, co_provenance = pv\<rparr>)"
  by (auto simp: commit_new_with_delta_def)

lemma commit_renew_fixed: "commit_parsed co \<and> commit_renew co = Inr co \<longleftrightarrow> commit_ok co"
proof -
  obtain v t p r chs os ps pv where co: "co = \<lparr>co_version = v, co_root_tree_hash = t, co_parent = p,
      co_manifest_root = r, co_changes = chs, co_objects = os, co_packs = ps, co_provenance = pv\<rparr>"
    by (cases co)
  show ?thesis
    unfolding co commit_renew_def commit_new_with_delta_iff commit_ok_def
      commit.select_convs commit.ext_inject
    using canonicalize_canonical [of chs]
    by (auto simp: changes_canonical_def)
qed

lemma commit_renew_parsed: "commit_parsed co \<Longrightarrow> commit_renew co = Inr co' \<Longrightarrow> commit_parsed co'"
  by (auto simp: commit_renew_def commit_new_with_delta_iff changes_canonical_def dest!: canonicalize_valid)

lemma take_commit_iff:
  "take_commit_fields c = Inr (co, c') \<longleftrightarrow> commit_parsed co \<and> writes (encode_commit co) c c'"
proof -
  obtain v t p r chs os ps pond sq tm author request where co: "co = \<lparr>co_version = v, co_root_tree_hash = t, co_parent = p,
      co_manifest_root = r, co_changes = chs, co_objects = os, co_packs = ps,
      co_provenance = \<lparr>pv_pond_id = pond, pv_seq = sq, pv_time_micros = tm, pv_author = author, pv_request = request\<rparr>\<rparr>"
    by (metis commit.cases provenance.cases)
  show ?thesis
    unfolding take_commit_fields_def encode_commit_def co codec_iffs version_from_wire_iff
      commit.select_convs commit.ext_inject provenance.select_convs provenance.ext_inject writes_simps
    by (rule iffI, (clarify, intro exI conjI, (assumption | rule refl)+)+)
qed

lemma decode_commit_iff:
  "decode_commit bs = Inr co \<longleftrightarrow> encode_commit co = Inr bs \<and> commit_ok co"
proof -
  have raw: "run_dec (dec_bind take_commit_fields (\<lambda>co. dec_bind expect_end (\<lambda>_. dec_return co))) bs = Inr co \<longleftrightarrow>
      commit_parsed co \<and> encode_commit co = Inr bs" for co
    unfolding writes_all [symmetric] by (auto simp: run_dec_iff take_commit_iff)
  have "decode_commit bs = Inr co \<longleftrightarrow>
      commit_parsed co \<and> commit_renew co = Inr co \<and> encode_commit co = Inr bs"
    unfolding decode_commit_def
    by (rule canonical_decoder_iff [where P = "\<lambda>co. commit_parsed co", OF raw commit_renew_parsed])
  then show ?thesis
    using commit_renew_fixed [of co] by auto
qed

section \<open>Properties of commits\<close>

text \<open>C35: The commit decoder accepts exactly the encodings of commits whose change list, object
  list and pack list are canonical.\<close>

theorem commit_codec:
  "decode_commit bs = Inr co \<longleftrightarrow> encode_commit co = Inr bs \<and> commit_ok co"
  by (rule decode_commit_iff)

text \<open>Two different canonical commits have different addresses, under a hash function that
  does not collide on their two encodings: the roots, the parent, the delta and the provenance
  are all part of a commit's identity.\<close>

theorem commit_hash_identity:
  assumes "a \<noteq> b" and "commit_ok a" and "commit_ok b"
    and "commit_hash blake3 a = Inr h" and "commit_hash blake3 b = Inr k"
    and "inj_on blake3 {bs. encode_commit a = Inr bs \<or> encode_commit b = Inr bs}"
  shows "h \<noteq> k"
proof
  assume hk: "h = k"
  obtain x y where e: "encode_commit a = Inr x" "encode_commit b = Inr y" "blake3 x = h" "blake3 y = k"
    using assms(4,5) by (auto simp: commit_hash_def)
  then have "x = y"
    using assms(6) hk by (auto dest: inj_onD)
  then have "decode_commit x = Inr a" "decode_commit x = Inr b"
    using e assms(2,3) by (simp_all add: decode_commit_iff)
  then show False using assms(1) by simp
qed

definition ex_commit :: "byte \<Rightarrow> commit" where
  "ex_commit b = commit_new PublicationV2 (digest 1) None (digest 2)
     \<lparr>pv_pond_id = mk_str [], pv_seq = 1, pv_time_micros = 2, pv_author = mk_str [], pv_request = mk_str [b]\<rparr>"

lemma ex_commit_encode:
  assumes "b < 0x80"
  shows "\<exists>bs. encode_commit (ex_commit b) = Inr bs \<and> last bs = b"
  using assms
  by (simp add: encode_commit_def ex_commit_def commit_new_def push_changes_def push_objects_def push_packs_def
      push_len_prefixed_def push_flagged_def)

theorem commit_hash_identity_witness:
  "let f = (\<lambda>bs. digest (last bs)) in
   commit_hash f (ex_commit 1) = Inr (digest 1) \<and> commit_hash f (ex_commit 2) = Inr (digest 2)
     \<and> digest 1 \<noteq> digest 2"
proof -
  let ?f = "\<lambda>bs. digest (last bs)"
  obtain x y where x: "encode_commit (ex_commit 1) = Inr x" "last x = 1"
    and y: "encode_commit (ex_commit 2) = Inr y" "last y = 2"
    using ex_commit_encode [of 1] ex_commit_encode [of 2] by auto
  have h: "commit_hash ?f (ex_commit 1) = Inr (digest 1)" "commit_hash ?f (ex_commit 2) = Inr (digest 2)"
    using x y by (simp_all add: commit_hash_def)
  have ok: "commit_ok (ex_commit b)" for b
    by (simp add: commit_ok_def ex_commit_def commit_new_def changes_canonical_def objects_canonical_def packs_canonical_def)
  have "ex_commit 1 \<noteq> ex_commit 2" using x y by auto
  moreover have "inj_on ?f {bs. encode_commit (ex_commit 1) = Inr bs \<or> encode_commit (ex_commit 2) = Inr bs}"
    using x y by (auto simp: inj_on_def)
  ultimately have "digest 1 \<noteq> digest 2"
    using commit_hash_identity [OF _ ok ok h] by blast
  with h show ?thesis
    unfolding Let_def by blast
qed

end
