(* ===== verification/ManifestMap.thy ===== *)
theory ManifestMap
  imports ManifestRecord
begin

text \<open>
  The persistent Patricia map of node identity records, from
  \<open>sync-store/src/content/manifest_map.rs\<close>: the bit operations on keys, the encoded nodes
  with their strict decoder, the root pointer object, and the editor. \<open>blake3\<close> and the
  loader of immutable objects are parameters. The two maps of the editor are partial
  functions (\<open>HashMap\<close>) and association lists (\<open>BTreeMap\<close>).
\<close>

definition NODE_MAGIC :: bytes where "NODE_MAGIC = ascii ''watertown.manifest-map-node.v2'' @ [10]"
definition ROOT_MAGIC :: bytes where "ROOT_MAGIC = ascii ''watertown.manifest-root.v2'' @ [10]"
definition NODE_LEAF :: byte where "NODE_LEAF = 0"
definition NODE_BRANCH :: byte where "NODE_BRANCH = 1"

section \<open>Keys and their bits\<close>

definition manifest_key :: "(bytes \<Rightarrow> hash32) \<Rightarrow> rstring \<Rightarrow> hash32" where
  "manifest_key blake3 node_id = blake3 (str_bytes node_id)"

definition bit_at :: "hash32 \<Rightarrow> nat \<Rightarrow> byte" where
  "bit_at key i = drop_bit (7 - i mod 8) (as_bytes key ! (i div 8)) AND 1"

definition clear_bit :: "nat \<Rightarrow> bytes \<Rightarrow> bytes" where
  "clear_bit i bs = bs[i div 8 := bs ! (i div 8) AND NOT (push_bit (7 - i mod 8) 1)]"

definition canonical_prefix :: "hash32 \<Rightarrow> nat \<Rightarrow> hash32" where
  "canonical_prefix key i = from_bytes (fold clear_bit [i..<256] (as_bytes key))"

definition prefix_after_bit_is_nonzero :: "hash32 \<Rightarrow> nat \<Rightarrow> bool" where
  "prefix_after_bit_is_nonzero prefix i \<longleftrightarrow> list_ex (\<lambda>j. bit_at prefix j \<noteq> 0) [i..<256]"

definition prefix_matches :: "hash32 \<Rightarrow> nat \<Rightarrow> hash32 \<Rightarrow> bool" where
  "prefix_matches prefix i key \<longleftrightarrow> list_all (\<lambda>j. bit_at prefix j = bit_at key j) [0..<i]"

definition first_differing_bit :: "hash32 \<Rightarrow> hash32 \<Rightarrow> nat option" where
  "first_differing_bit a b = find (\<lambda>j. bit_at a j \<noteq> bit_at b j) [0..<256]"

definition first_differing_bit_before :: "hash32 \<Rightarrow> hash32 \<Rightarrow> nat \<Rightarrow> nat option" where
  "first_differing_bit_before prefix key limit = find (\<lambda>j. bit_at prefix j \<noteq> bit_at key j) [0..<limit]"

section \<open>Nodes\<close>

datatype manifest_map_node =
    Leaf hash32 manifest_record
  | Branch u16 hash32 hash32 hash32

definition encode_node :: "manifest_map_node \<Rightarrow> error + bytes" where
  "encode_node n = pushes
     [Inr NODE_MAGIC,
      (case n of
         Leaf key r \<Rightarrow> pushes [Inr [NODE_LEAF], Inr (as_bytes key), encode_record r]
       | Branch i prefix left right \<Rightarrow>
           pushes [Inr [NODE_BRANCH], Inr (le16 i), Inr (as_bytes prefix), Inr (as_bytes left), Inr (as_bytes right)])]"

definition node_hash :: "(bytes \<Rightarrow> hash32) \<Rightarrow> manifest_map_node \<Rightarrow> error + hash32" where
  "node_hash blake3 n = res_bind (encode_node n) (\<lambda>bs. Inr (blake3 bs))"

definition take_leaf :: "(bytes \<Rightarrow> hash32) \<Rightarrow> manifest_map_node dec" where
  "take_leaf blake3 =
     dec_bind take_hash (\<lambda>key.
     dec_bind decode_record_from (\<lambda>r.
     dec_bind (dec_lift (require (key = manifest_key blake3 (mr_node_id r))
       (Reject ''manifest leaf key does not match node id''))) (\<lambda>_.
       dec_return (Leaf key r))))"

definition take_branch :: "manifest_map_node dec" where
  "take_branch =
     dec_bind take_u16 (\<lambda>i.
     dec_bind (dec_lift (require (unat i < 256) (Reject ''manifest branch bit is out of range''))) (\<lambda>_.
     dec_bind take_hash (\<lambda>prefix.
     dec_bind (dec_lift (require (\<not> prefix_after_bit_is_nonzero prefix (unat i))
       (Reject ''manifest branch prefix has nonzero bits at or below bit''))) (\<lambda>_.
     dec_bind take_hash (\<lambda>left.
     dec_bind take_hash (\<lambda>right.
     dec_bind (dec_lift (require (left \<noteq> right) (Reject ''manifest branch has identical children''))) (\<lambda>_.
       dec_return (Branch i prefix left right))))))))"

definition take_node :: "(bytes \<Rightarrow> hash32) \<Rightarrow> manifest_map_node dec" where
  "take_node blake3 =
     dec_bind (expect_tag NODE_MAGIC) (\<lambda>_.
     dec_bind take_u8 (\<lambda>tag.
       if tag = NODE_LEAF then take_leaf blake3
       else if tag = NODE_BRANCH then take_branch
       else dec_lift (Inl (Reject ''unknown manifest map node tag''))))"

definition decode_node :: "(bytes \<Rightarrow> hash32) \<Rightarrow> bytes \<Rightarrow> error + manifest_map_node" where
  "decode_node blake3 bs =
     res_bind (run_dec (dec_bind (take_node blake3) (\<lambda>n. dec_bind expect_end (\<lambda>_. dec_return n))) bs)
       (canonical_check encode_node ''manifest map node is not canonically encoded'' bs)"

fun representative_key :: "manifest_map_node \<Rightarrow> hash32" where
  "representative_key (Leaf key _) = key"
| "representative_key (Branch _ prefix _ _) = prefix"

definition encode_manifest_root :: "hash32 \<Rightarrow> bytes" where
  "encode_manifest_root root = ROOT_MAGIC @ as_bytes root"

definition decode_manifest_root :: "bytes \<Rightarrow> error + hash32" where
  "decode_manifest_root bs = run_dec
     (dec_bind (expect_tag ROOT_MAGIC) (\<lambda>_. dec_bind take_hash (\<lambda>root.
      dec_bind expect_end (\<lambda>_. dec_return root)))) bs"

section \<open>The editor\<close>

record editor =
  ed_root :: "hash32 option"
  ed_loader :: "hash32 \<Rightarrow> error + bytes"
  ed_cache :: "hash32 \<rightharpoonup> manifest_map_node"
  ed_created :: "(hash32 \<times> bytes) list"

text \<open>
  A method takes \<open>&mut self\<close>: it returns its result, a value or an error, and the editor it
  leaves behind in both cases. The recursive methods follow hashes, so nothing in their
  arguments bounds the recursion; \<open>None\<close> is a call that does not return.
\<close>

type_synonym 'a call = "editor \<Rightarrow> (error + 'a) \<times> editor"
type_synonym 'a loop = "editor \<Rightarrow> ((error + 'a) \<times> editor) option"

definition editor_new :: "hash32 option \<Rightarrow> (hash32 \<Rightarrow> error + bytes) \<Rightarrow> editor" where
  "editor_new root loader = \<lparr>ed_root = root, ed_loader = loader, ed_cache = Map.empty, ed_created = []\<rparr>"

text \<open>\<open>if let Some(bytes) = self.created.get(&hash) { .. } else { (self.loader)(hash)? }\<close>.\<close>

definition object_bytes :: "editor \<Rightarrow> hash32 \<Rightarrow> error + bytes" where
  "object_bytes ed h = (case map_of (ed_created ed) h of Some bs \<Rightarrow> Inr bs | None \<Rightarrow> ed_loader ed h)"

definition load :: "(bytes \<Rightarrow> hash32) \<Rightarrow> hash32 \<Rightarrow> manifest_map_node call" where
  "load blake3 h ed =
     (case ed_cache ed h of
        Some n \<Rightarrow> (Inr n, ed)
      | None \<Rightarrow>
          (case res_bind (object_bytes ed h) (\<lambda>bs.
             res_bind (require (blake3 bs = h) (Reject ''manifest map object has mismatched bytes'')) (\<lambda>_.
               decode_node blake3 bs)) of
             Inl e \<Rightarrow> (Inl e, ed)
           | Inr n \<Rightarrow> (Inr n, ed\<lparr>ed_cache := (ed_cache ed)(h \<mapsto> n)\<rparr>)))"

definition or_insert :: "'a \<Rightarrow> 'b \<Rightarrow> ('a \<times> 'b) list \<Rightarrow> ('a \<times> 'b) list" where
  "or_insert k v m = (case map_of m k of Some _ \<Rightarrow> m | None \<Rightarrow> (k, v) # m)"

definition store :: "(bytes \<Rightarrow> hash32) \<Rightarrow> manifest_map_node \<Rightarrow> hash32 call" where
  "store blake3 n ed =
     (case encode_node n of
        Inl e \<Rightarrow> (Inl e, ed)
      | Inr bs \<Rightarrow> (let h = blake3 bs in
          (Inr h, ed\<lparr>ed_created := or_insert h bs (ed_created ed), ed_cache := (ed_cache ed)(h \<mapsto> n)\<rparr>)))"

definition and_then :: "'a call \<Rightarrow> ('a \<Rightarrow> 'b call) \<Rightarrow> 'b call" where
  "and_then m f ed = (case m ed of (Inl e, ed') \<Rightarrow> (Inl e, ed') | (Inr x, ed') \<Rightarrow> f x ed')"

partial_function (option) lookup_from :: "(bytes \<Rightarrow> hash32) \<Rightarrow> hash32 \<Rightarrow> hash32 \<Rightarrow> manifest_record option loop" where
  "lookup_from blake3 key cursor ed =
     (case load blake3 cursor ed of (res, ed1) \<Rightarrow>
       (case res of
          Inl e \<Rightarrow> Some (Inl e, ed1)
        | Inr n \<Rightarrow>
          (case n of
             Leaf leaf_key r \<Rightarrow> Some (Inr (if leaf_key = key then Some r else None), ed1)
           | Branch i prefix left right \<Rightarrow>
               if \<not> prefix_matches prefix (unat i) key then Some (Inr None, ed1)
               else lookup_from blake3 key (if bit_at key (unat i) = 0 then left else right) ed1)))"

definition lookup :: "(bytes \<Rightarrow> hash32) \<Rightarrow> rstring \<Rightarrow> manifest_record option loop" where
  "lookup blake3 node_id ed =
     (case ed_root ed of
        None \<Rightarrow> Some (Inr None, ed)
      | Some cursor \<Rightarrow> lookup_from blake3 (manifest_key blake3 node_id) cursor ed)"

definition make_branch :: "(bytes \<Rightarrow> hash32) \<Rightarrow> nat \<Rightarrow> hash32 \<Rightarrow> hash32 \<Rightarrow> hash32 \<Rightarrow> hash32 call" where
  "make_branch blake3 i new_key existing_hash new_hash =
     (let prefix = canonical_prefix new_key i;
          (left, right) = (if bit_at new_key i = 0 then (new_hash, existing_hash) else (existing_hash, new_hash))
      in store blake3 (Branch (of_nat i) prefix left right))"

partial_function (option) insert_at :: "(bytes \<Rightarrow> hash32) \<Rightarrow> hash32 \<Rightarrow> hash32 \<Rightarrow> manifest_record \<Rightarrow> hash32 loop" where
  "insert_at blake3 current_hash key r ed =
     (case load blake3 current_hash ed of (res, ed1) \<Rightarrow>
       (case res of
          Inl e \<Rightarrow> Some (Inl e, ed1)
        | Inr n \<Rightarrow>
          (case n of
             Leaf existing_key existing \<Rightarrow>
               if existing_key = key then
                 (if existing = r then Some (Inr current_hash, ed1) else Some (store blake3 (Leaf key r) ed1))
               else (case first_differing_bit existing_key key of
                   None \<Rightarrow> Some (Inl (Panic ''different keys have a differing bit''), ed1)
                 | Some differing \<Rightarrow>
                     Some (and_then (store blake3 (Leaf key r))
                       (\<lambda>new_leaf. make_branch blake3 differing key current_hash new_leaf) ed1))
           | Branch i prefix left right \<Rightarrow>
               (case first_differing_bit_before prefix key (unat i) of
                  Some differing \<Rightarrow>
                     Some (and_then (store blake3 (Leaf key r))
                       (\<lambda>new_leaf. make_branch blake3 differing key current_hash new_leaf) ed1)
                | None \<Rightarrow>
                    Option.bind (insert_at blake3 (if bit_at key (unat i) = 0 then left else right) key r ed1)
                      (\<lambda>(res2, ed2). Some (and_then (\<lambda>ed. (res2, ed))
                        (\<lambda>next. if bit_at key (unat i) = 0 then
                             (if next = left then (\<lambda>ed. (Inr current_hash, ed))
                              else store blake3 (Branch i prefix next right))
                           else if next = right then (\<lambda>ed. (Inr current_hash, ed))
                           else store blake3 (Branch i prefix left next)) ed2))))))"

definition upsert :: "(bytes \<Rightarrow> hash32) \<Rightarrow> manifest_record \<Rightarrow> unit loop" where
  "upsert blake3 r ed =
     (let key = manifest_key blake3 (mr_node_id r) in
      Option.bind (case ed_root ed of
          Some root \<Rightarrow> insert_at blake3 root key r ed
        | None \<Rightarrow> Some (store blake3 (Leaf key r) ed))
        (\<lambda>(res, ed'). case res of
            Inl e \<Rightarrow> Some (Inl e, ed')
          | Inr root \<Rightarrow> Some (Inr (), ed'\<lparr>ed_root := Some root\<rparr>)))"

partial_function (option) remove_at :: "(bytes \<Rightarrow> hash32) \<Rightarrow> hash32 \<Rightarrow> hash32 \<Rightarrow> (hash32 option \<times> bool) loop" where
  "remove_at blake3 current_hash key ed =
     (case load blake3 current_hash ed of (res, ed1) \<Rightarrow>
       (case res of
          Inl e \<Rightarrow> Some (Inl e, ed1)
        | Inr n \<Rightarrow>
          (case n of
             Leaf existing_key _ \<Rightarrow>
               Some (Inr (if existing_key = key then (None, True) else (Some current_hash, False)), ed1)
           | Branch i prefix left right \<Rightarrow>
               if \<not> prefix_matches prefix (unat i) key then Some (Inr (Some current_hash, False), ed1)
               else Option.bind (remove_at blake3 (if bit_at key (unat i) = 0 then left else right) key ed1)
                 (\<lambda>(res2, ed2). Some (and_then (\<lambda>ed. (res2, ed))
                   (\<lambda>(new_child, removed).
                      if \<not> removed then (\<lambda>ed. (Inr (Some current_hash, False), ed))
                      else (case new_child of
                          None \<Rightarrow> (\<lambda>ed. (Inr (Some (if bit_at key (unat i) = 0 then right else left), True), ed))
                        | Some child \<Rightarrow>
                            and_then (store blake3 (if bit_at key (unat i) = 0 then Branch i prefix child right
                                                    else Branch i prefix left child))
                              (\<lambda>h ed. (Inr (Some h, True), ed)))) ed2)))))"

definition remove :: "(bytes \<Rightarrow> hash32) \<Rightarrow> rstring \<Rightarrow> bool loop" where
  "remove blake3 node_id ed =
     (case ed_root ed of
        None \<Rightarrow> Some (Inr False, ed)
      | Some root \<Rightarrow>
          Option.bind (remove_at blake3 root (manifest_key blake3 node_id) ed)
            (\<lambda>(res, ed'). case res of
                Inl e \<Rightarrow> Some (Inl e, ed')
              | Inr (root', removed) \<Rightarrow> Some (Inr removed, ed'\<lparr>ed_root := root'\<rparr>)))"

lemma load_created [simp]: "load blake3 h ed = (res, ed1) \<Longrightarrow> ed_created ed1 = ed_created ed"
  by (auto simp: load_def split: option.splits sum.splits)

lemma unseen_less:
  assumes "map_of m h = Some bs" and "h \<notin> set seen"
  shows "card (fst ` set m - insert h (set seen)) < card (fst ` set m - set seen)"
proof -
  have "h \<in> fst ` set m - set seen"
    using assms by (metis DiffI domI dom_map_of_conv_image_fst)
  moreover have "fst ` set m - insert h (set seen) = (fst ` set m - set seen) - {h}" by blast
  ultimately show ?thesis
    by (metis card_Diff1_less finite_Diff finite_imageI finite_set)
qed

lemma unseen_same: "map_of m h = None \<Longrightarrow> fst ` set m - insert h S = fst ` set m - S"
  by (auto simp: map_of_eq_None_iff)

text \<open>
  The walk of \<open>finish\<close>: the stack (top first), the hashes seen and the objects collected.
\<close>

function finish_walk :: "(bytes \<Rightarrow> hash32) \<Rightarrow> hash32 list \<Rightarrow> hash32 list \<Rightarrow> (hash32 \<times> bytes) list \<Rightarrow>
    (hash32 \<times> bytes) list call" where
  "finish_walk blake3 stack seen acc ed =
     (case stack of
        [] \<Rightarrow> (Inr acc, ed)
      | h # stack' \<Rightarrow>
          if h \<in> set seen then finish_walk blake3 stack' seen acc ed
          else (case map_of (ed_created ed) h of
              None \<Rightarrow> finish_walk blake3 stack' (h # seen) acc ed
            | Some bs \<Rightarrow>
                (case load blake3 h ed of
                   (Inl e, ed1) \<Rightarrow> (Inl e, ed1)
                 | (Inr (Leaf _ _), ed1) \<Rightarrow> finish_walk blake3 stack' (h # seen) ((h, bs) # acc) ed1
                 | (Inr (Branch _ _ left right), ed1) \<Rightarrow>
                     finish_walk blake3 (left # right # stack') (h # seen) ((h, bs) # acc) ed1)))"
  by pat_completeness auto

termination
  by (relation "inv_image (less_than <*lex*> less_than)
    (\<lambda>(blake3, stack, seen, acc, ed). (card (fst ` set (ed_created ed) - set seen), length stack))")
    (auto simp: unseen_less unseen_same dest!: load_created [OF sym])

declare finish_walk.simps [simp del]

definition finish :: "(bytes \<Rightarrow> hash32) \<Rightarrow> (hash32 \<times> (hash32 \<times> bytes) list) call" where
  "finish blake3 ed =
     (case ed_root ed of
        None \<Rightarrow> (Inl (Reject ''manifest map cannot finish empty''), ed)
      | Some root \<Rightarrow> and_then (finish_walk blake3 [root] [] []) (\<lambda>objects ed. (Inr (root, objects), ed)) ed)"

definition record_id_key :: "manifest_record \<Rightarrow> bytes" where
  "record_id_key r = str_bytes (mr_node_id r)"

fun upsert_all :: "(bytes \<Rightarrow> hash32) \<Rightarrow> manifest_record list \<Rightarrow> unit loop" where
  "upsert_all blake3 [] ed = Some (Inr (), ed)"
| "upsert_all blake3 (r # rs) ed = Option.bind (upsert blake3 r ed)
     (\<lambda>(res, ed'). case res of Inl e \<Rightarrow> Some (Inl e, ed') | Inr _ \<Rightarrow> upsert_all blake3 rs ed')"

definition absent_loader :: "hash32 \<Rightarrow> error + bytes" where
  "absent_loader h = Inl (Reject ''manifest map builder attempted to load an absent object'')"

definition build_manifest_map :: "(bytes \<Rightarrow> hash32) \<Rightarrow> manifest_record list \<Rightarrow>
    (error + hash32 \<times> (hash32 \<times> bytes) list) option" where
  "build_manifest_map blake3 records =
     (let ordered = sort_key record_id_key records in
      if \<not> windows2 (\<lambda>a b. mr_node_id a \<noteq> mr_node_id b) ordered
      then Some (Inl (Reject ''duplicate manifest node id''))
      else Option.bind (upsert_all blake3 ordered (editor_new None absent_loader))
        (\<lambda>(res, ed). case res of Inl e \<Rightarrow> Some (Inl e) | Inr _ \<Rightarrow> Some (fst (finish blake3 ed))))"

section \<open>The node codec\<close>

definition node_ok :: "(bytes \<Rightarrow> hash32) \<Rightarrow> manifest_map_node \<Rightarrow> bool" where
  "node_ok blake3 n \<longleftrightarrow> (case n of
      Leaf key r \<Rightarrow> key = manifest_key blake3 (mr_node_id r) \<and> record_ok r
    | Branch i prefix left right \<Rightarrow>
        unat i < 256 \<and> \<not> prefix_after_bit_is_nonzero prefix (unat i) \<and> left \<noteq> right)"

lemma node_tags [simp]: "NODE_LEAF \<noteq> NODE_BRANCH" "NODE_BRANCH \<noteq> NODE_LEAF"
  by (simp_all add: NODE_LEAF_def NODE_BRANCH_def)

lemma take_leaf_iff:
  "take_leaf blake3 c = Inr (n, c') \<longleftrightarrow>
     (\<exists>key r0 r. n = Leaf key r \<and> writes (pushes [Inr (as_bytes key), encode_record r0]) c c'
        \<and> record_renew r0 = Inr r \<and> key = manifest_key blake3 (mr_node_id r))"
  by (auto simp: take_leaf_def decode_record_from_iff)

lemma take_branch_iff:
  "take_branch c = Inr (n, c') \<longleftrightarrow>
     (\<exists>i p l r. n = Branch i p l r \<and> node_ok f n \<and>
        writes (pushes [Inr (le16 i), Inr (as_bytes p), Inr (as_bytes l), Inr (as_bytes r)]) c c')"
  by (auto simp: take_branch_def node_ok_def) blast+

lemma take_tagged_iff:
  "dec_bind take_u8 (\<lambda>tag. if tag = NODE_LEAF then p else if tag = NODE_BRANCH then q
      else dec_lift (Inl e)) c = Inr (n, c') \<longleftrightarrow>
     (\<exists>c1. eats c [NODE_LEAF] c1 \<and> p c1 = Inr (n, c')) \<or> (\<exists>c1. eats c [NODE_BRANCH] c1 \<and> q c1 = Inr (n, c'))"
  by (auto split: if_splits) (metis node_tags(1))

lemma take_node_iff:
  "take_node blake3 c = Inr (n, c') \<longleftrightarrow>
     (case n of
        Leaf key r \<Rightarrow> (\<exists>r0. writes (encode_node (Leaf key r0)) c c' \<and> record_renew r0 = Inr r)
          \<and> key = manifest_key blake3 (mr_node_id r)
      | Branch i p l r \<Rightarrow> node_ok blake3 n \<and> writes (encode_node n) c c')"
  unfolding take_node_def dec_bind_iff [of "expect_tag NODE_MAGIC"] expect_tag_iff take_tagged_iff
    encode_node_def take_leaf_iff take_branch_iff [where f = blake3]
  by (cases n; simp; blast)

lemma encode_leaf_inj:
  "encode_node (Leaf key r) = Inr bs \<Longrightarrow> encode_node (Leaf key r') = Inr bs \<Longrightarrow> r = r'"
  by (auto simp: encode_node_def dest: record_fields.enc_inj)

lemma decode_node_iff:
  "decode_node blake3 bs = Inr n \<longleftrightarrow> encode_node n = Inr bs \<and> node_ok blake3 n"
proof (cases n)
  case (Leaf key r)
  have "run_dec (dec_bind (take_node blake3) (\<lambda>n. dec_bind expect_end (\<lambda>_. dec_return n))) bs = Inr n \<longleftrightarrow>
      (\<exists>r0. encode_node (Leaf key r0) = Inr bs \<and> record_renew r0 = Inr r) \<and> key = manifest_key blake3 (mr_node_id r)"
    unfolding writes_all [symmetric] by (auto simp: run_dec_iff take_node_iff Leaf)
  moreover have "(\<exists>r0. encode_node (Leaf key r0) = Inr bs \<and> record_renew r0 = Inr r) \<and> encode_node (Leaf key r) = Inr bs
      \<longleftrightarrow> record_ok r \<and> encode_node (Leaf key r) = Inr bs"
    using encode_leaf_inj record_renew_fixed by metis
  ultimately show ?thesis
    unfolding decode_node_def node_ok_def res_bind_eq_Inr canonical_check_iff using Leaf
    by (simp del: record_renew_fixed) blast
next
  case (Branch i p l r)
  have "run_dec (dec_bind (take_node blake3) (\<lambda>n. dec_bind expect_end (\<lambda>_. dec_return n))) bs = Inr n \<longleftrightarrow>
      node_ok blake3 n \<and> encode_node n = Inr bs"
    unfolding writes_all [symmetric] by (auto simp: run_dec_iff take_node_iff Branch)
  then show ?thesis
    unfolding decode_node_def by auto
qed

interpretation root_codec: codec "\<lambda>h. Inr (as_bytes h)" take_hash
  by unfold_locales simp

lemma decode_manifest_root_iff: "decode_manifest_root bs = Inr root \<longleftrightarrow> bs = encode_manifest_root root"
  unfolding decode_manifest_root_def root_codec.strict_iff encode_manifest_root_def by auto

end
