(* ===== verification/MapSpec.thy ===== *)
theory MapSpec
  imports Main
begin

text \<open>
  The interface of a finite map: its operations, what a lookup returns after each of them,
  and the invariant they keep. A canonical map is one whose representation is determined by
  its lookups; then the outcome of an editing history depends only on the resulting map.
\<close>

datatype ('k, 'v) edit = Put 'k 'v | Del 'k

fun edit_map :: "('k, 'v) edit \<Rightarrow> ('k \<rightharpoonup> 'v) \<Rightarrow> ('k \<rightharpoonup> 'v)" where
  "edit_map (Put k v) m = m(k \<mapsto> v)"
| "edit_map (Del k) m = m(k := None)"

locale map_spec =
  fixes empty :: "'m"
    and update :: "'k \<Rightarrow> 'v \<Rightarrow> 'm \<Rightarrow> 'm"
    and delete :: "'k \<Rightarrow> 'm \<Rightarrow> 'm"
    and look :: "'m \<Rightarrow> 'k \<rightharpoonup> 'v"
    and invar :: "'m \<Rightarrow> bool"
  assumes look_empty: "look empty = Map.empty"
    and invar_empty: "invar empty"
    and look_update: "invar m \<Longrightarrow> look (update k v m) = (look m)(k \<mapsto> v)"
    and invar_update: "invar m \<Longrightarrow> invar (update k v m)"
    and look_delete: "invar m \<Longrightarrow> look (delete k m) = (look m)(k := None)"
    and invar_delete: "invar m \<Longrightarrow> invar (delete k m)"
begin

fun apply_edit :: "('k, 'v) edit \<Rightarrow> 'm \<Rightarrow> 'm" where
  "apply_edit (Put k v) m = update k v m"
| "apply_edit (Del k) m = delete k m"

lemma apply_edit_correct:
  "invar m \<Longrightarrow> invar (apply_edit e m) \<and> look (apply_edit e m) = edit_map e (look m)"
  by (cases e) (simp_all add: look_update invar_update look_delete invar_delete)

lemma edits_correct:
  "invar m \<Longrightarrow> invar (fold apply_edit es m) \<and> look (fold apply_edit es m) = fold edit_map es (look m)"
  by (induction es arbitrary: m) (simp_all add: apply_edit_correct)

end

locale canonical_map = map_spec +
  assumes canonical: "invar s \<Longrightarrow> invar t \<Longrightarrow> look s = look t \<Longrightarrow> s = t"
begin

lemma edits_confluent:
  assumes "invar s" and "invar t" and "fold edit_map es (look s) = fold edit_map fs (look t)"
  shows "fold apply_edit es s = fold apply_edit fs t"
  using assms edits_correct by (metis canonical)

lemma update_commute:
  "invar m \<Longrightarrow> j \<noteq> k \<Longrightarrow> update j v (update k w m) = update k w (update j v m)"
  by (rule canonical) (simp_all add: invar_update look_update fun_upd_twist)

lemma delete_update: "invar m \<Longrightarrow> look m k = None \<Longrightarrow> delete k (update k v m) = m"
  by (rule canonical) (simp_all add: invar_update invar_delete look_update look_delete fun_upd_idem)

end

end
