(* ===== verification/ManifestTrie.thy ===== *)
theory ManifestTrie
  imports ManifestMap MapSpec
begin

text \<open>
  The abstract Patricia trie behind the manifest map: a tree without hashes, with the
  invariant of path compression, the operations of the editor on it, their meaning as
  operations on a finite map, and the uniqueness of the trie of a map.
\<close>

section \<open>The bits of a key\<close>

definition byte_bit :: "bytes \<Rightarrow> nat \<Rightarrow> bool" where
  "byte_bit bs i = bit (bs ! (i div 8)) (7 - i mod 8)"

lemma bit_at_byte_bit: "bit_at k i = of_bool (byte_bit (as_bytes k) i)"
  by (simp add: bit_at_def byte_bit_def and_one_eq mod_2_eq_odd bit_iff_odd_drop_bit)

lemma bit_at_01: "bit_at k i = 0 \<or> bit_at k i = 1"
  by (simp add: bit_at_byte_bit)

lemma bit_at_eq_1 [simp]: "bit_at k i = 1 \<longleftrightarrow> bit_at k i \<noteq> 0"
  by (simp add: bit_at_byte_bit)

lemma bit_at_neq: "bit_at a i \<noteq> bit_at b i \<longleftrightarrow> (bit_at a i = 0 \<longleftrightarrow> bit_at b i \<noteq> 0)"
  by (simp add: bit_at_byte_bit)

lemma byte_bit_ext:
  assumes "length xs = 32" and "length ys = 32" and "\<And>i. i < 256 \<Longrightarrow> byte_bit xs i = byte_bit ys i"
  shows "xs = ys"
proof (rule nth_equalityI)
  fix j assume "j < length xs"
  with assms(1) have j: "j < 32" by simp
  show "xs ! j = ys ! j"
  proof (rule bit_eqI)
    fix n assume "possible_bit TYPE(byte) n"
    then have n: "n < 8" by simp
    define m where "m = 7 - n"
    have m: "m < 8" "n = 7 - m" using n by (simp_all add: m_def)
    then have d: "(8 * j + m) div 8 = j" "(8 * j + m) mod 8 = m" by simp_all
    have "8 * j + m < 256" using j m by simp
    from assms(3) [OF this] show "bit (xs ! j) n = bit (ys ! j) n"
      using m(1) by (simp add: byte_bit_def d m(2))
  qed
qed (use assms in simp)

lemma key_eqI: "(\<And>i. i < 256 \<Longrightarrow> bit_at a i = bit_at b i) \<Longrightarrow> a = b"
proof -
  assume h: "\<And>i. i < 256 \<Longrightarrow> bit_at a i = bit_at b i"
  have "as_bytes a = as_bytes b"
    by (rule byte_bit_ext) (use h in \<open>simp_all add: bit_at_byte_bit of_bool_eq_iff\<close>)
  then show ?thesis by simp
qed

lemma length_clear_bit [simp]: "length (clear_bit i bs) = length bs"
  by (simp add: clear_bit_def)

lemma byte_bit_clear:
  assumes "length bs = 32" and "i < 256" and "j < 256"
  shows "byte_bit (clear_bit i bs) j \<longleftrightarrow> j \<noteq> i \<and> byte_bit bs j"
proof (cases "j div 8 = i div 8")
  case True
  have "i div 8 < length bs" using assms by auto
  moreover have "j = i \<longleftrightarrow> 7 - j mod 8 = 7 - i mod 8"
  proof
    assume "7 - j mod 8 = 7 - i mod 8"
    moreover have "j mod 8 < 8" "i mod 8 < 8" by simp_all
    ultimately have "j mod 8 = i mod 8" by linarith
    then show "j = i" using True by (metis div_mult_mod_eq)
  qed simp
  ultimately show ?thesis
    using True by (auto simp: byte_bit_def clear_bit_def bit_simps)
next
  case False
  then show ?thesis by (auto simp: byte_bit_def clear_bit_def)
qed

lemma byte_bit_clears:
  assumes "length bs = 32" and "\<forall>i \<in> set is. i < 256" and "j < 256"
  shows "byte_bit (fold clear_bit is bs) j \<longleftrightarrow> j \<notin> set is \<and> byte_bit bs j"
  using assms by (induction "is" arbitrary: bs) (auto simp: byte_bit_clear)

lemma length_clears [simp]: "length (fold clear_bit is bs) = length bs"
  by (induction "is" arbitrary: bs) auto

lemma bit_at_canonical_prefix:
  "j < 256 \<Longrightarrow> bit_at (canonical_prefix k i) j = (if j < i then bit_at k j else 0)"
  by (simp add: bit_at_byte_bit canonical_prefix_def byte_bit_clears)

lemma prefix_after_iff: "prefix_after_bit_is_nonzero p i \<longleftrightarrow> (\<exists>j. i \<le> j \<and> j < 256 \<and> bit_at p j \<noteq> 0)"
  by (auto simp: prefix_after_bit_is_nonzero_def list_ex_iff)

lemma prefix_matches_iff: "prefix_matches p i k \<longleftrightarrow> (\<forall>j < i. bit_at p j = bit_at k j)"
  by (auto simp: prefix_matches_def list_all_iff)

lemma find_upt_None: "find P [a..<b] = None \<longleftrightarrow> (\<forall>j. a \<le> j \<and> j < b \<longrightarrow> \<not> P j)"
  by (auto simp: find_None_iff)

lemma find_upt_Some: "find P [0..<b] = Some d \<longleftrightarrow> d < b \<and> P d \<and> (\<forall>j < d. \<not> P j)"
proof -
  have "(\<exists>i < b. P i \<and> d = i \<and> (\<forall>j < i. \<not> P j)) \<longleftrightarrow> d < b \<and> P d \<and> (\<forall>j < d. \<not> P j)" by blast
  then show ?thesis
    by (auto simp: find_Some_iff)
qed

lemma first_differing_bit_Some:
  "first_differing_bit a b = Some d \<longleftrightarrow> d < 256 \<and> bit_at a d \<noteq> bit_at b d \<and> (\<forall>j < d. bit_at a j = bit_at b j)"
  by (auto simp: first_differing_bit_def find_upt_Some)

lemma first_differing_bit_None: "first_differing_bit a b = None \<longleftrightarrow> a = b"
  by (auto simp: first_differing_bit_def find_upt_None intro: key_eqI)

lemma first_differing_before_Some:
  "first_differing_bit_before p k i = Some d \<longleftrightarrow> d < i \<and> bit_at p d \<noteq> bit_at k d \<and> (\<forall>j < d. bit_at p j = bit_at k j)"
  by (auto simp: first_differing_bit_before_def find_upt_Some)

lemma first_differing_before_None:
  "first_differing_bit_before p k i = None \<longleftrightarrow> prefix_matches p i k"
  by (auto simp: first_differing_bit_before_def find_upt_None prefix_matches_iff)

section \<open>Tries\<close>

datatype trie =
    TLeaf hash32 manifest_record
  | TBranch nat hash32 trie trie

fun trie_map :: "trie \<Rightarrow> (hash32 \<rightharpoonup> manifest_record)" where
  "trie_map (TLeaf k r) = [k \<mapsto> r]"
| "trie_map (TBranch i p left right) = trie_map left ++ trie_map right"

abbreviation trie_keys :: "trie \<Rightarrow> hash32 set" where
  "trie_keys t \<equiv> dom (trie_map t)"

text \<open>
  Path compression: the keys below a branch share its prefix, the children split them at
  the branch bit, and the prefix is zero from that bit on.
\<close>

fun trie_ok :: "trie \<Rightarrow> bool" where
  "trie_ok (TLeaf k r) \<longleftrightarrow> True"
| "trie_ok (TBranch i p left right) \<longleftrightarrow>
     i < 256 \<and> trie_ok left \<and> trie_ok right
     \<and> \<not> prefix_after_bit_is_nonzero p i
     \<and> (\<forall>k \<in> trie_keys left. prefix_matches p i k \<and> bit_at k i = 0)
     \<and> (\<forall>k \<in> trie_keys right. prefix_matches p i k \<and> bit_at k i = 1)"

fun trie_lookup :: "hash32 \<Rightarrow> trie \<Rightarrow> manifest_record option" where
  "trie_lookup key (TLeaf k r) = (if k = key then Some r else None)"
| "trie_lookup key (TBranch i p left right) =
     (if \<not> prefix_matches p i key then None
      else if bit_at key i = 0 then trie_lookup key left else trie_lookup key right)"

definition trie_branch :: "nat \<Rightarrow> hash32 \<Rightarrow> trie \<Rightarrow> manifest_record \<Rightarrow> trie" where
  "trie_branch d key old r =
     (if bit_at key d = 0 then TBranch d (canonical_prefix key d) (TLeaf key r) old
      else TBranch d (canonical_prefix key d) old (TLeaf key r))"

fun trie_insert :: "hash32 \<Rightarrow> manifest_record \<Rightarrow> trie \<Rightarrow> trie" where
  "trie_insert key r (TLeaf k r0) =
     (if k = key then TLeaf key r else trie_branch (the (first_differing_bit k key)) key (TLeaf k r0) r)"
| "trie_insert key r (TBranch i p left right) =
     (case first_differing_bit_before p key i of
        Some d \<Rightarrow> trie_branch d key (TBranch i p left right) r
      | None \<Rightarrow> if bit_at key i = 0 then TBranch i p (trie_insert key r left) right
                else TBranch i p left (trie_insert key r right))"

fun trie_remove :: "hash32 \<Rightarrow> trie \<Rightarrow> trie option" where
  "trie_remove key (TLeaf k r) = (if k = key then None else Some (TLeaf k r))"
| "trie_remove key (TBranch i p left right) =
     (if \<not> prefix_matches p i key then Some (TBranch i p left right)
      else if bit_at key i = 0 then
        (case trie_remove key left of None \<Rightarrow> Some right | Some l \<Rightarrow> Some (TBranch i p l right))
      else
        (case trie_remove key right of None \<Rightarrow> Some left | Some r \<Rightarrow> Some (TBranch i p left r)))"

section \<open>The operations as operations on a map\<close>

lemma trie_key_ex: "\<exists>k. k \<in> trie_keys t"
proof (induction t)
  case (TLeaf k r)
  have "k \<in> trie_keys (TLeaf k r)" by simp
  then show ?case by blast
qed auto

lemma trie_ok_branchD:
  assumes "trie_ok (TBranch i p l r)"
  shows "i < 256" "trie_ok l" "trie_ok r" "\<not> prefix_after_bit_is_nonzero p i"
  using assms by (meson trie_ok.simps(2))+

lemma trie_ok_child:
  assumes "trie_ok (TBranch i p l r)"
  shows "k \<in> trie_keys l \<Longrightarrow> prefix_matches p i k" "k \<in> trie_keys l \<Longrightarrow> bit_at k i = 0"
    "k \<in> trie_keys r \<Longrightarrow> prefix_matches p i k" "k \<in> trie_keys r \<Longrightarrow> bit_at k i = 1"
  using assms by (meson trie_ok.simps(2))+

lemma trie_ok_prefix:
  "trie_ok (TBranch i p l r) \<Longrightarrow> k \<in> trie_keys (TBranch i p l r) \<Longrightarrow> prefix_matches p i k"
  using trie_ok_child(1,3) by (metis Un_iff dom_map_add trie_map.simps(2))

lemma trie_keys_disjoint: "trie_ok (TBranch i p l r) \<Longrightarrow> trie_keys l \<inter> trie_keys r = {}"
proof -
  assume ok: "trie_ok (TBranch i p l r)"
  have False if "k \<in> trie_keys l" "k \<in> trie_keys r" for k
    using trie_ok_child(2) [OF ok that(1)] trie_ok_child(4) [OF ok that(2)] by simp
  then show ?thesis by blast
qed

lemma trie_branch_map:
  "trie_ok (TBranch i p l r) \<Longrightarrow> trie_map (TBranch i p l r) k =
     (if prefix_matches p i k then if bit_at k i = 0 then trie_map l k else trie_map r k else None)"
  by (auto simp: map_add_def domIff split: option.splits)

lemma trie_lookup_map: "trie_ok t \<Longrightarrow> trie_lookup k t = trie_map t k"
proof (induction t)
  case (TBranch i p l r)
  then show ?case
    using trie_branch_map [OF TBranch.prems, of k] by simp
qed auto

lemma trie_branch_ok:
  assumes "trie_ok old" and d: "d < 256"
    and "\<forall>k \<in> trie_keys old. (\<forall>j < d. bit_at k j = bit_at key j) \<and> bit_at k d \<noteq> bit_at key d"
  shows "trie_ok (trie_branch d key old r)" and "trie_map (trie_branch d key old r) = (trie_map old)(key \<mapsto> r)"
proof -
  have b: "bit_at k d = 0 \<longleftrightarrow> bit_at key d \<noteq> 0" if "k \<in> trie_keys old" for k
    using assms(3) that bit_at_neq by blast
  have p: "prefix_matches (canonical_prefix key d) d k \<longleftrightarrow> (\<forall>j < d. bit_at key j = bit_at k j)" for k
    using d by (auto simp: prefix_matches_iff bit_at_canonical_prefix)
  have nz: "\<not> prefix_after_bit_is_nonzero (canonical_prefix key d) d"
    by (auto simp: prefix_after_iff bit_at_canonical_prefix)
  show "trie_ok (trie_branch d key old r)"
    using assms b p nz by (auto simp: trie_branch_def)
  have "key \<notin> trie_keys old"
    using assms(3) by auto
  then show "trie_map (trie_branch d key old r) = (trie_map old)(key \<mapsto> r)"
    by (auto simp: trie_branch_def map_add_def fun_eq_iff domIff split: option.splits)
qed

lemma trie_insert_correct:
  "trie_ok t \<Longrightarrow> trie_ok (trie_insert key r t) \<and> trie_map (trie_insert key r t) = (trie_map t)(key \<mapsto> r)"
proof (induction t)
  case (TLeaf k r0)
  show ?case
  proof (cases "k = key")
    case False
    then obtain d where d: "first_differing_bit k key = Some d"
      by (metis first_differing_bit_None option.exhaust)
    then have "d < 256" "\<forall>k' \<in> trie_keys (TLeaf k r0). (\<forall>j < d. bit_at k' j = bit_at key j) \<and> bit_at k' d \<noteq> bit_at key d"
      by (auto simp: first_differing_bit_Some)
    from trie_branch_ok [OF TLeaf.prems this, of r] show ?thesis
      using False d by (simp add: fun_upd_def)
  qed auto
next
  case (TBranch i p l r0)
  show ?case
  proof (cases "first_differing_bit_before p key i")
    case (Some d)
    then have d: "d < i" "bit_at p d \<noteq> bit_at key d" "\<forall>j < d. bit_at p j = bit_at key j"
      by (auto simp: first_differing_before_Some)
    have "(\<forall>j < d. bit_at k j = bit_at key j) \<and> bit_at k d \<noteq> bit_at key d"
      if "k \<in> trie_keys (TBranch i p l r0)" for k
    proof -
      have "bit_at p j = bit_at k j" if "j < i" for j
        using trie_ok_prefix [OF TBranch.prems \<open>k \<in> _\<close>] that by (simp add: prefix_matches_iff)
      then show ?thesis using d by (metis order.strict_trans)
    qed
    moreover have "d < 256" using d TBranch.prems by simp
    ultimately show ?thesis
      using trie_branch_ok [OF TBranch.prems, of d key r] Some by simp
  next
    case None
    then have m: "prefix_matches p i key" by (simp add: first_differing_before_None)
    have IH: "trie_ok (trie_insert key r l)" "trie_map (trie_insert key r l) = (trie_map l)(key \<mapsto> r)"
      "trie_ok (trie_insert key r r0)" "trie_map (trie_insert key r r0) = (trie_map r0)(key \<mapsto> r)"
      using TBranch by (meson trie_ok.simps(2))+
    show ?thesis
    proof (cases "bit_at key i = 0")
      case True
      then have "key \<notin> trie_keys r0"
        using trie_ok_child(4) [OF TBranch.prems] by auto
      then have "trie_map (trie_insert key r l) ++ trie_map r0 = (trie_map l ++ trie_map r0)(key \<mapsto> r)"
        unfolding IH by (rule map_add_upd_left)
      then show ?thesis using None True m TBranch.prems IH by simp
    next
      case False
      then show ?thesis using None m TBranch.prems IH by (simp only: trie_insert.simps trie_map.simps map_add_upd) simp
    qed
  qed
qed

definition option_map :: "trie option \<Rightarrow> (hash32 \<rightharpoonup> manifest_record)" where
  "option_map t = (case t of None \<Rightarrow> Map.empty | Some t' \<Rightarrow> trie_map t')"

lemma map_add_None_left: "k \<notin> dom n \<Longrightarrow> (m ++ n)(k := None) = m(k := None) ++ n"
  by (auto simp: fun_eq_iff map_add_def domIff split: option.splits)

lemma map_add_None_right: "k \<notin> dom m \<Longrightarrow> (m ++ n)(k := None) = m ++ n(k := None)"
  by (auto simp: fun_eq_iff map_add_def domIff split: option.splits)

lemma trie_remove_correct:
  "trie_ok t \<Longrightarrow> pred_option trie_ok (trie_remove key t) \<and> option_map (trie_remove key t) = (trie_map t)(key := None)"
proof (induction t)
  case (TLeaf k r)
  then show ?case by (auto simp: option_map_def)
next
  case (TBranch i p l r)
  have IH: "pred_option trie_ok (trie_remove key l)" "option_map (trie_remove key l) = (trie_map l)(key := None)"
    "pred_option trie_ok (trie_remove key r)" "option_map (trie_remove key r) = (trie_map r)(key := None)"
    using TBranch by (meson trie_ok.simps(2))+
  have sub: "dom ((trie_map x)(key := None)) \<subseteq> dom (trie_map x)" for x by auto
  consider "\<not> prefix_matches p i key" | "prefix_matches p i key" "bit_at key i = 0"
    | "prefix_matches p i key" "bit_at key i \<noteq> 0" by blast
  then show ?case
  proof cases
    case 1
    then have "trie_map (TBranch i p l r) key = None"
      using trie_branch_map [OF TBranch.prems, of key] by presburger
    then have "(trie_map (TBranch i p l r))(key := None) = trie_map (TBranch i p l r)"
      by (metis fun_upd_triv)
    then show ?thesis
      using 1 TBranch.prems by (simp add: option_map_def)
  next
    case 2
    then have nr: "key \<notin> dom (trie_map r)"
      using trie_ok_child(4) [OF TBranch.prems] by auto
    show ?thesis
    proof (cases "trie_remove key l")
      case None
      then have "(trie_map l)(key := None) = Map.empty" using IH by (simp add: option_map_def)
      then have "(trie_map (TBranch i p l r))(key := None) = trie_map r"
        using map_add_None_left [OF nr, of "trie_map l"] by simp
      then show ?thesis
        using 2 None TBranch.prems by (simp add: option_map_def)
    next
      case (Some l')
      then have l': "trie_ok l'" "trie_map l' = (trie_map l)(key := None)" using IH by (simp_all add: option_map_def)
      then have "(trie_map (TBranch i p l r))(key := None) = trie_map (TBranch i p l' r)"
        using map_add_None_left [OF nr, of "trie_map l"] by simp
      moreover have "trie_ok (TBranch i p l' r)"
        using TBranch.prems l' sub [of l] by auto
      ultimately show ?thesis
        using 2 Some by (simp add: option_map_def)
    qed
  next
    case 3
    then have nl: "key \<notin> dom (trie_map l)"
      using trie_ok_child(2) [OF TBranch.prems] by auto
    show ?thesis
    proof (cases "trie_remove key r")
      case None
      then have "(trie_map r)(key := None) = Map.empty" using IH by (simp add: option_map_def)
      then have "(trie_map (TBranch i p l r))(key := None) = trie_map l"
        using map_add_None_right [OF nl, of "trie_map r"] by simp
      then show ?thesis
        using 3 None TBranch.prems by (simp add: option_map_def)
    next
      case (Some r')
      then have r': "trie_ok r'" "trie_map r' = (trie_map r)(key := None)" using IH by (simp_all add: option_map_def)
      then have "(trie_map (TBranch i p l r))(key := None) = trie_map (TBranch i p l r')"
        using map_add_None_right [OF nl, of "trie_map r"] by simp
      moreover have "trie_ok (TBranch i p l r')"
        using TBranch.prems r' sub [of r] by auto
      ultimately show ?thesis
        using 3 Some by (simp add: option_map_def)
    qed
  qed
qed

lemma trie_remove_absent: "trie_lookup key t = None \<Longrightarrow> trie_remove key t = Some t"
  by (induction t) (auto split: if_splits)

section \<open>A map has one trie\<close>

lemma trie_keys_branch_differ:
  assumes "trie_ok (TBranch i p l r)"
  shows "\<exists>a \<in> trie_keys (TBranch i p l r). \<exists>b \<in> trie_keys (TBranch i p l r). bit_at a i \<noteq> bit_at b i"
proof -
  obtain a b where "a \<in> trie_keys l" "b \<in> trie_keys r"
    using trie_key_ex by metis
  moreover from this have "bit_at a i \<noteq> bit_at b i"
    using trie_ok_child [OF assms] by fastforce
  ultimately show ?thesis by auto
qed

lemma trie_branch_bit_le:
  assumes "trie_ok (TBranch i p l r)" and "trie_ok (TBranch j q l' r')"
    and "trie_keys (TBranch i p l r) = trie_keys (TBranch j q l' r')"
  shows "i \<le> j"
proof (rule ccontr)
  assume "\<not> i \<le> j"
  obtain a b where ab: "a \<in> trie_keys (TBranch i p l r)" "b \<in> trie_keys (TBranch i p l r)" "bit_at a j \<noteq> bit_at b j"
    using trie_keys_branch_differ [OF assms(2)] assms(3) by blast
  then have "prefix_matches p i a" "prefix_matches p i b"
    using trie_ok_prefix [OF assms(1)] by blast+
  then have "bit_at a j = bit_at b j"
    using \<open>\<not> i \<le> j\<close> by (simp add: prefix_matches_iff)
  then show False using ab by blast
qed

lemma branch_prefix_unique:
  assumes "prefix_matches p i k" "prefix_matches q i k"
    "\<not> prefix_after_bit_is_nonzero p i" "\<not> prefix_after_bit_is_nonzero q i"
  shows "p = q"
proof (rule key_eqI)
  fix j :: nat assume "j < 256"
  then show "bit_at p j = bit_at q j"
    using assms unfolding prefix_matches_iff prefix_after_iff by (cases "j < i") (simp, metis not_less)
qed

lemma restrict_left: "trie_ok (TBranch i p l r) \<Longrightarrow> trie_map l = trie_map (TBranch i p l r) |` {k. bit_at k i = 0}"
proof
  fix k
  assume ok: "trie_ok (TBranch i p l r)"
  show "trie_map l k = (trie_map (TBranch i p l r) |` {k. bit_at k i = 0}) k"
    using trie_branch_map [OF ok, of k] trie_ok_child(1,2) [OF ok, of k]
    by (cases "trie_map l k") (auto simp: restrict_map_def domIff simp del: trie_map.simps)
qed

lemma restrict_right: "trie_ok (TBranch i p l r) \<Longrightarrow> trie_map r = trie_map (TBranch i p l r) |` {k. bit_at k i \<noteq> 0}"
proof
  fix k
  assume ok: "trie_ok (TBranch i p l r)"
  show "trie_map r k = (trie_map (TBranch i p l r) |` {k. bit_at k i \<noteq> 0}) k"
    using trie_branch_map [OF ok, of k] trie_ok_child(3,4) [OF ok, of k]
    by (cases "trie_map r k") (auto simp: restrict_map_def domIff simp del: trie_map.simps)
qed

lemma leaf_not_branch:
  assumes "trie_ok (TBranch i p l r)"
  shows "trie_map (TLeaf k v) \<noteq> trie_map (TBranch i p l r)"
proof
  assume "trie_map (TLeaf k v) = trie_map (TBranch i p l r)"
  then have "trie_keys (TBranch i p l r) = {k}" by (metis dom_fun_upd dom_empty option.distinct(1) trie_map.simps(1))
  then show False using trie_keys_branch_differ [OF assms] by auto
qed

lemma trie_unique: "trie_ok s \<Longrightarrow> trie_ok t \<Longrightarrow> trie_map s = trie_map t \<Longrightarrow> s = t"
proof (induction s arbitrary: t)
  case (TLeaf k v)
  then obtain k' v' where t: "t = TLeaf k' v'"
    using leaf_not_branch by (cases t) blast+
  have "[k \<mapsto> v] = [k' \<mapsto> v']" using TLeaf.prems(3) unfolding t trie_map.simps .
  then show ?case using t by (metis fun_upd_apply option.distinct(1) option.inject)
next
  case (TBranch i p l r)
  then obtain j q l' r' where t: "t = TBranch j q l' r'"
    using leaf_not_branch by (cases t) metis+
  have ok: "trie_ok (TBranch i p l r)" "trie_ok (TBranch j q l' r')"
    and eq: "trie_map (TBranch i p l r) = trie_map (TBranch j q l' r')"
    using TBranch.prems t by auto
  have ij: "i = j"
    using trie_branch_bit_le [OF ok(1) ok(2)] trie_branch_bit_le [OF ok(2) ok(1)] eq by (metis order_antisym)
  obtain k where k: "k \<in> trie_keys (TBranch i p l r)" using trie_key_ex by metis
  then have k': "k \<in> trie_keys (TBranch j q l' r')" unfolding eq .
  have sub: "trie_ok l" "trie_ok r" "\<not> prefix_after_bit_is_nonzero p i"
    "trie_ok l'" "trie_ok r'" "\<not> prefix_after_bit_is_nonzero q j"
    using trie_ok_branchD [OF ok(1)] trie_ok_branchD [OF ok(2)] by blast+
  have "p = q"
    using branch_prefix_unique [OF trie_ok_prefix [OF ok(1) k] _ sub(3)] trie_ok_prefix [OF ok(2) k'] sub(6) ij
    by blast
  moreover have "l = l'"
    by (rule TBranch.IH(1) [OF sub(1,4)]) (metis restrict_left ok eq ij)
  moreover have "r = r'"
    by (rule TBranch.IH(2) [OF sub(2,5)]) (metis restrict_right ok eq ij)
  ultimately show ?case using t ij by blast
qed

section \<open>Possibly empty tries as a canonical map\<close>

definition root_insert :: "hash32 \<Rightarrow> manifest_record \<Rightarrow> trie option \<Rightarrow> trie option" where
  "root_insert key r m = Some (case m of None \<Rightarrow> TLeaf key r | Some t \<Rightarrow> trie_insert key r t)"

definition root_remove :: "hash32 \<Rightarrow> trie option \<Rightarrow> trie option" where
  "root_remove key m = Option.bind m (trie_remove key)"

interpretation root_trie: canonical_map None root_insert root_remove option_map "pred_option trie_ok"
proof
  fix m :: "trie option" and k r
  assume ok: "pred_option trie_ok m"
  show "option_map (root_insert k r m) = (option_map m)(k \<mapsto> r)" "pred_option trie_ok (root_insert k r m)"
    using ok trie_insert_correct by (cases m; simp add: root_insert_def option_map_def)+
  show "option_map (root_remove k m) = (option_map m)(k := None)" "pred_option trie_ok (root_remove k m)"
    using ok trie_remove_correct by (cases m; simp add: root_remove_def option_map_def)+
next
  fix s t :: "trie option"
  assume ok: "pred_option trie_ok s" "pred_option trie_ok t" and eq: "option_map s = option_map t"
  have ne: "Map.empty \<noteq> trie_map u" for u
    using trie_key_ex [of u] by (metis domIff)
  show "s = t"
    using ok eq ne trie_unique by (cases s; cases t; simp add: option_map_def; metis)
qed (simp_all add: option_map_def)

end
