(* ===== verification/ManifestMapCorrect.thy ===== *)
theory ManifestMapCorrect
  imports ManifestTrie
begin

text \<open>
  The editor of the manifest map implements the abstract trie: lookups, upserts, removals and
  the object set of \<open>finish\<close>. The hash function is assumed not to collide on the encodings of
  the nodes an editing session meets; lookups against an untrusted loader assume that no
  other byte string hashes to a node of the map.
\<close>

section \<open>Tries as hashed nodes\<close>

definition node_bytes :: "manifest_map_node \<Rightarrow> bytes" where
  "node_bytes n = (case encode_node n of Inr bs \<Rightarrow> bs | Inl _ \<Rightarrow> [])"

definition address :: "(bytes \<Rightarrow> hash32) \<Rightarrow> manifest_map_node \<Rightarrow> hash32" where
  "address H n = H (node_bytes n)"

fun trie_node :: "(bytes \<Rightarrow> hash32) \<Rightarrow> trie \<Rightarrow> manifest_map_node" where
  "trie_node H (TLeaf k r) = Leaf k r"
| "trie_node H (TBranch i p l r) = Branch (of_nat i) p (address H (trie_node H l)) (address H (trie_node H r))"

definition trie_hash :: "(bytes \<Rightarrow> hash32) \<Rightarrow> trie \<Rightarrow> hash32" where
  "trie_hash H t = address H (trie_node H t)"

fun subtries :: "trie \<Rightarrow> trie set" where
  "subtries (TLeaf k r) = {TLeaf k r}"
| "subtries (TBranch i p l r) = insert (TBranch i p l r) (subtries l \<union> subtries r)"

definition trie_nodes :: "(bytes \<Rightarrow> hash32) \<Rightarrow> trie \<Rightarrow> manifest_map_node set" where
  "trie_nodes H t = trie_node H ` subtries t"

definition encodable :: "manifest_map_node \<Rightarrow> bool" where
  "encodable n \<longleftrightarrow> encode_node n = Inr (node_bytes n)"

definition collision_free :: "(bytes \<Rightarrow> hash32) \<Rightarrow> manifest_map_node set \<Rightarrow> bool" where
  "collision_free H S \<longleftrightarrow> inj_on (address H) S \<and> (\<forall>n \<in> S. encodable n)"

lemma subtries_self [simp]: "t \<in> subtries t"
  by (cases t) auto

lemma subtries_trans: "u \<in> subtries t \<Longrightarrow> subtries u \<subseteq> subtries t"
  by (induction t) auto

lemma trie_nodes_simps [simp]:
  "trie_nodes H (TLeaf k v) = {Leaf k v}"
  "trie_nodes H (TBranch i p l r) = insert (trie_node H (TBranch i p l r)) (trie_nodes H l \<union> trie_nodes H r)"
  by (auto simp: trie_nodes_def)

lemma trie_nodes_self [simp]: "trie_node H t \<in> trie_nodes H t"
  by (simp add: trie_nodes_def)

lemma trie_nodes_mono: "u \<in> subtries t \<Longrightarrow> trie_nodes H u \<subseteq> trie_nodes H t"
  using subtries_trans by (auto simp: trie_nodes_def)

lemma trie_ok_subtries: "trie_ok t \<Longrightarrow> u \<in> subtries t \<Longrightarrow> trie_ok u"
  by (induction t) auto

lemma trie_hash_leaf: "trie_hash H (TLeaf k r) = address H (Leaf k r)"
  by (simp add: trie_hash_def)

lemma trie_hash_branch: "trie_hash H (TBranch i p l r) = address H (Branch (of_nat i) p (trie_hash H l) (trie_hash H r))"
  by (simp add: trie_hash_def)

lemma trie_node_branch: "trie_node H (TBranch i p l r) = Branch (of_nat i) p (trie_hash H l) (trie_hash H r)"
  by (simp add: trie_hash_def)

lemma u16_bit [simp]: "i < 256 \<Longrightarrow> unat (of_nat i :: u16) = i"
  by (simp add: unat_of_nat)

lemma of_nat_u16_inj: "i < 256 \<Longrightarrow> j < 256 \<Longrightarrow> (of_nat i :: u16) = of_nat j \<Longrightarrow> i = j"
  using u16_bit by metis

lemma trie_hash_inj:
  assumes "collision_free H S"
  shows "trie_ok s \<Longrightarrow> trie_ok t \<Longrightarrow> trie_nodes H s \<subseteq> S \<Longrightarrow> trie_nodes H t \<subseteq> S \<Longrightarrow>
    trie_hash H s = trie_hash H t \<Longrightarrow> s = t"
proof (induction s arbitrary: t)
  case (TLeaf k r)
  have "trie_node H (TLeaf k r) = trie_node H t"
    using assms TLeaf.prems unfolding collision_free_def trie_hash_def by (meson inj_onD subsetD trie_nodes_self)
  then show ?case by (cases t) auto
next
  case (TBranch i p l r)
  have n: "trie_node H (TBranch i p l r) = trie_node H t"
    using assms TBranch.prems unfolding collision_free_def trie_hash_def by (meson inj_onD subsetD trie_nodes_self)
  then obtain j q l' r' where t: "t = TBranch j q l' r'" by (cases t) auto
  have lt: "i < 256" "j < 256" "trie_ok l" "trie_ok r" "trie_ok l'" "trie_ok r'"
    using trie_ok_branchD TBranch.prems(1,2) unfolding t by blast+
  have eq: "of_nat i = (of_nat j :: u16)" "p = q" "trie_hash H l = trie_hash H l'" "trie_hash H r = trie_hash H r'"
    using n t by (simp_all add: trie_hash_def)
  then have "i = j" using lt of_nat_u16_inj by blast
  moreover have "l = l'" "r = r'"
    using TBranch.IH lt TBranch.prems(3,4) eq unfolding t trie_nodes_simps by blast+
  ultimately show ?case using t eq by simp
qed

section \<open>The editor as an object store\<close>

definition fetch :: "(bytes \<Rightarrow> hash32) \<Rightarrow> editor \<Rightarrow> hash32 \<Rightarrow> error + manifest_map_node" where
  "fetch H ed h = fst (load H h ed)"

definition holds :: "(bytes \<Rightarrow> hash32) \<Rightarrow> editor \<Rightarrow> manifest_map_node \<Rightarrow> bool" where
  "holds H ed n \<longleftrightarrow> fetch H ed (address H n) = Inr n"

definition holds_trie :: "(bytes \<Rightarrow> hash32) \<Rightarrow> editor \<Rightarrow> trie \<Rightarrow> bool" where
  "holds_trie H ed t \<longleftrightarrow> (\<forall>n \<in> trie_nodes H t. holds H ed n)"

text \<open>Every created object is the encoding, under its address, of a node the session met.\<close>

definition created_ok :: "(bytes \<Rightarrow> hash32) \<Rightarrow> manifest_map_node set \<Rightarrow> editor \<Rightarrow> bool" where
  "created_ok H S ed \<longleftrightarrow> (\<forall>(h, bs) \<in> set (ed_created ed). \<exists>n \<in> S. bs = node_bytes n \<and> h = address H n)"

text \<open>What one method call may change: more objects, never a different one.\<close>

definition grows :: "(bytes \<Rightarrow> hash32) \<Rightarrow> manifest_map_node set \<Rightarrow> editor \<Rightarrow> editor \<Rightarrow> bool" where
  "grows H S ed ed' \<longleftrightarrow>
     (\<forall>n \<in> S. holds H ed n \<longrightarrow> holds H ed' n) \<and> ed_loader ed' = ed_loader ed \<and> ed_root ed' = ed_root ed
     \<and> (created_ok H S ed \<longrightarrow> created_ok H S ed')
     \<and> fst ` set (ed_created ed) \<subseteq> fst ` set (ed_created ed')"

lemma grows_refl [simp]: "grows H S ed ed"
  by (simp add: grows_def)

lemma grows_trans: "grows H S a b \<Longrightarrow> grows H S b c \<Longrightarrow> grows H S a c"
  unfolding grows_def by (elim conjE, intro conjI) (blast, simp, simp, blast, rule subset_trans)

definition read_object :: "(bytes \<Rightarrow> hash32) \<Rightarrow> editor \<Rightarrow> hash32 \<Rightarrow> error + manifest_map_node" where
  "read_object H ed h = res_bind (object_bytes ed h) (\<lambda>bs.
     res_bind (require (H bs = h) (Reject ''manifest map object has mismatched bytes'')) (\<lambda>_. decode_node H bs))"

lemma load_unfold:
  "load H h ed = (case ed_cache ed h of Some n \<Rightarrow> (Inr n, ed) | None \<Rightarrow>
     (case read_object H ed h of Inl e \<Rightarrow> (Inl e, ed)
      | Inr n \<Rightarrow> (Inr n, ed\<lparr>ed_cache := (ed_cache ed)(h \<mapsto> n)\<rparr>)))"
  unfolding load_def read_object_def by (rule refl)

lemma fetch_unfold: "fetch H ed h = (case ed_cache ed h of Some n \<Rightarrow> Inr n | None \<Rightarrow> read_object H ed h)"
  by (simp add: fetch_def load_unfold split: option.split sum.split)

lemma read_object_cong:
  "map_of (ed_created ed') h = map_of (ed_created ed) h \<Longrightarrow> ed_loader ed' = ed_loader ed \<Longrightarrow>
     read_object H ed' h = read_object H ed h"
  by (simp only: read_object_def object_bytes_def)

lemma load_state:
  assumes l: "load H h ed = (res, ed')"
  shows "ed' = ed \<or> (\<exists>n. ed_cache ed h = None \<and> read_object H ed h = Inr n
     \<and> ed' = ed\<lparr>ed_cache := (ed_cache ed)(h \<mapsto> n)\<rparr>)"
proof (cases "ed_cache ed h")
  case None
  show ?thesis
  proof (cases "read_object H ed h")
    case (Inr n)
    then have "ed' = ed\<lparr>ed_cache := (ed_cache ed)(h \<mapsto> n)\<rparr>" using l None by (simp add: load_unfold)
    with None Inr show ?thesis by blast
  qed (use l None in \<open>simp add: load_unfold\<close>)
qed (use l in \<open>simp add: load_unfold\<close>)

lemma load_cases:
  assumes "load H h ed = (res, ed')"
  shows "res = fetch H ed h" and "fetch H ed' g = fetch H ed g"
    and "ed_loader ed' = ed_loader ed" and "ed_root ed' = ed_root ed" and "ed_created ed' = ed_created ed"
proof -
  show "res = fetch H ed h" using assms by (simp add: fetch_def)
  have s: "ed' = ed \<or> (\<exists>n. ed_cache ed h = None \<and> read_object H ed h = Inr n
     \<and> ed' = ed\<lparr>ed_cache := (ed_cache ed)(h \<mapsto> n)\<rparr>)"
    using assms by (rule load_state)
  then show "ed_loader ed' = ed_loader ed" "ed_root ed' = ed_root ed" "ed_created ed' = ed_created ed"
    by auto
  then have r: "read_object H ed' g = read_object H ed g"
    by (intro read_object_cong) simp_all
  from s show "fetch H ed' g = fetch H ed g"
  proof
    assume "\<exists>n. ed_cache ed h = None \<and> read_object H ed h = Inr n \<and> ed' = ed\<lparr>ed_cache := (ed_cache ed)(h \<mapsto> n)\<rparr>"
    then show ?thesis
      unfolding fetch_unfold r by (cases "g = h") auto
  qed simp
qed

lemma load_grows: "load H h ed = (res, ed') \<Longrightarrow> grows H S ed ed'"
  using load_cases [of H h ed res ed'] by (simp add: grows_def holds_def created_ok_def)

lemma load_holds:
  assumes "holds H ed n"
  obtains ed' where "load H (address H n) ed = (Inr n, ed')" "grows H S ed ed'"
    "\<And>m. holds H ed' m = holds H ed m" "ed_created ed' = ed_created ed"
proof -
  obtain res ed' where l: "load H (address H n) ed = (res, ed')" by fastforce
  then have "res = Inr n" using assms load_cases(1) by (metis holds_def)
  then show thesis
    using that l load_grows [OF l] load_cases [OF l] by (simp add: holds_def)
qed

lemma map_of_or_insert: "map_of (or_insert k v m) = (case map_of m k of Some _ \<Rightarrow> map_of m | None \<Rightarrow> (map_of m)(k \<mapsto> v))"
  by (simp add: or_insert_def split: option.splits)

lemma set_or_insert: "set (or_insert k v m) \<subseteq> insert (k, v) (set m)" "fst ` set (or_insert k v m) = insert k (fst ` set m)"
  by (auto simp: or_insert_def rev_image_eqI split: option.splits dest!: map_of_SomeD)

lemma fetch_store:
  assumes "store H n ed = (Inr a, ed')"
  shows "a = address H n" "fetch H ed' h = (if h = a then Inr n else fetch H ed h)"
proof -
  obtain bs where bs: "encode_node n = Inr bs" "a = H bs"
    and ed': "ed' = ed\<lparr>ed_created := or_insert a bs (ed_created ed), ed_cache := (ed_cache ed)(a \<mapsto> n)\<rparr>"
    using assms by (auto simp: store_def Let_def split: sum.splits)
  show "a = address H n" using bs by (simp add: address_def node_bytes_def)
  show "fetch H ed' h = (if h = a then Inr n else fetch H ed h)"
  proof (cases "h = a")
    case False
    then have "map_of (or_insert a bs (ed_created ed)) h = map_of (ed_created ed) h"
      by (simp add: map_of_or_insert split: option.splits)
    then have r: "read_object H ed' h = read_object H ed h"
      by (intro read_object_cong) (simp_all add: ed')
    have "ed_cache ed' h = ed_cache ed h" using False by (simp add: ed')
    with False show ?thesis
      unfolding fetch_unfold r by simp
  qed (simp add: fetch_unfold ed')
qed

lemma store_node:
  assumes cf: "collision_free H S" and n: "n \<in> S"
  obtains ed' where "store H n ed = (Inr (address H n), ed')" "grows H S ed ed'" "holds H ed' n"
    "address H n \<in> fst ` set (ed_created ed')"
proof -
  have e: "encode_node n = Inr (node_bytes n)" using cf n by (auto simp: collision_free_def encodable_def)
  define ed' where "ed' = ed\<lparr>ed_created := or_insert (address H n) (node_bytes n) (ed_created ed),
      ed_cache := (ed_cache ed)(address H n \<mapsto> n)\<rparr>"
  have s: "store H n ed = (Inr (address H n), ed')"
    by (simp add: store_def e ed'_def address_def Let_def)
  have f: "fetch H ed' h = (if h = address H n then Inr n else fetch H ed h)" for h
    using fetch_store [OF s] by simp
  have "holds H ed' m" if "m \<in> S" "holds H ed m" for m
    using that n cf f by (auto simp: holds_def collision_free_def dest: inj_onD)
  moreover have "created_ok H S ed'" if "created_ok H S ed"
    using that n set_or_insert(1) [of "address H n" "node_bytes n" "ed_created ed"]
    unfolding created_ok_def ed'_def by auto
  moreover have "ed_loader ed' = ed_loader ed" "ed_root ed' = ed_root ed"
    "fst ` set (ed_created ed') = insert (address H n) (fst ` set (ed_created ed))"
    by (simp_all add: ed'_def set_or_insert(2))
  ultimately have "grows H S ed ed'"
    unfolding grows_def by blast
  moreover have "holds H ed' n" using f by (simp add: holds_def)
  moreover have "address H n \<in> fst ` set (ed_created ed')"
    by (simp add: ed'_def set_or_insert(2))
  ultimately show thesis using that s by blast
qed

section \<open>Stored tries\<close>

text \<open>The loader had the node before the session.\<close>

definition durable :: "(bytes \<Rightarrow> hash32) \<Rightarrow> editor \<Rightarrow> manifest_map_node \<Rightarrow> bool" where
  "durable H ed n \<longleftrightarrow> ed_loader ed (address H n) = Inr (node_bytes n)"

text \<open>
  A trie is stored when each of its nodes is in the session's set and can be loaded, and each
  of its subtries was created in this session or is durable as a whole.
\<close>

definition stored :: "(bytes \<Rightarrow> hash32) \<Rightarrow> manifest_map_node set \<Rightarrow> editor \<Rightarrow> trie \<Rightarrow> bool" where
  "stored H S ed t \<longleftrightarrow> (\<forall>u \<in> subtries t.
     trie_node H u \<in> S \<and> holds H ed (trie_node H u)
     \<and> (trie_hash H u \<in> fst ` set (ed_created ed) \<or> (\<forall>v \<in> subtries u. durable H ed (trie_node H v))))"

lemma stored_nodes: "stored H S ed t \<Longrightarrow> trie_nodes H t \<subseteq> S"
  by (auto simp: stored_def trie_nodes_def)

lemma stored_holds: "stored H S ed t \<Longrightarrow> holds H ed (trie_node H t)"
  by (simp add: stored_def)

lemma stored_sub: "stored H S ed t \<Longrightarrow> u \<in> subtries t \<Longrightarrow> stored H S ed u"
  using subtries_trans by (fastforce simp: stored_def)

lemma stored_branch_iff:
  "stored H S ed (TBranch i p l r) \<longleftrightarrow> stored H S ed l \<and> stored H S ed r
     \<and> trie_node H (TBranch i p l r) \<in> S \<and> holds H ed (trie_node H (TBranch i p l r))
     \<and> (trie_hash H (TBranch i p l r) \<in> fst ` set (ed_created ed)
        \<or> (\<forall>v \<in> subtries (TBranch i p l r). durable H ed (trie_node H v)))"
  unfolding stored_def subtries.simps(2) [of i p l r] ball_simps(7) ball_Un by blast

lemma stored_leaf_iff:
  "stored H S ed (TLeaf k r) \<longleftrightarrow> Leaf k r \<in> S \<and> holds H ed (Leaf k r)
     \<and> (trie_hash H (TLeaf k r) \<in> fst ` set (ed_created ed) \<or> durable H ed (Leaf k r))"
  by (simp add: stored_def)

lemma stored_grows: "grows H S ed ed' \<Longrightarrow> stored H S ed t \<Longrightarrow> stored H S ed' t"
  unfolding stored_def grows_def durable_def by (metis subsetD)

lemma insert_new_branch:
  assumes cf: "collision_free H S" and d: "d < 256" and old: "stored H S ed old"
    and S: "trie_nodes H (trie_branch d key old r) \<subseteq> S"
  obtains ed' where "and_then (store H (Leaf key r)) (\<lambda>nl. make_branch H d key (trie_hash H old) nl) ed
        = (Inr (trie_hash H (trie_branch d key old r)), ed')"
    "grows H S ed ed'" "stored H S ed' (trie_branch d key old r)"
proof -
  have "Leaf key r \<in> S" using S by (auto simp: trie_branch_def split: if_splits)
  then obtain ed1 where s1: "store H (Leaf key r) ed = (Inr (address H (Leaf key r)), ed1)" "grows H S ed ed1"
      "holds H ed1 (Leaf key r)" "address H (Leaf key r) \<in> fst ` set (ed_created ed1)"
    using store_node [OF cf, of "Leaf key r" ed] by blast
  let ?b = "trie_branch d key old r"
  have b: "trie_node H ?b \<in> S" using S trie_nodes_self by blast
  then obtain ed2 where s2: "store H (trie_node H ?b) ed1 = (Inr (address H (trie_node H ?b)), ed2)" "grows H S ed1 ed2"
      "holds H ed2 (trie_node H ?b)" "address H (trie_node H ?b) \<in> fst ` set (ed_created ed2)"
    using store_node [OF cf, of "trie_node H ?b" ed1] by blast
  have m: "make_branch H d key (trie_hash H old) (address H (Leaf key r)) = store H (trie_node H ?b)"
    by (simp add: make_branch_def trie_branch_def trie_hash_def)
  have "stored H S ed1 (TLeaf key r)"
    using s1 \<open>Leaf key r \<in> S\<close> by (simp add: stored_leaf_iff trie_hash_def)
  then have "stored H S ed2 (TLeaf key r)" "stored H S ed2 old"
    using stored_grows s1(2) s2(2) old by blast+
  then have "stored H S ed2 ?b"
    using s2 b by (cases "bit_at key d = 0") (simp_all add: trie_branch_def stored_branch_iff trie_hash_def)
  moreover have "and_then (store H (Leaf key r)) (\<lambda>nl. make_branch H d key (trie_hash H old) nl) ed
        = (Inr (trie_hash H ?b), ed2)"
    using s1(1) s2(1) by (simp add: and_then_def m trie_hash_def [of H "trie_branch d key old r"])
  ultimately show thesis using that grows_trans [OF s1(2) s2(2)] by blast
qed

lemma load_stored:
  assumes "stored H S ed t"
  obtains ed' where "load H (trie_hash H t) ed = (Inr (trie_node H t), ed')" "grows H S ed ed'" "stored H S ed' t"
  using load_holds [OF stored_holds [OF assms]] stored_grows [OF _ assms] unfolding trie_hash_def by metis

section \<open>The operations implement those of the trie\<close>

lemma lookup_from_stored:
  "trie_ok t \<Longrightarrow> stored H S ed t \<Longrightarrow>
     \<exists>ed'. lookup_from H key (trie_hash H t) ed = Some (Inr (trie_lookup key t), ed') \<and> grows H S ed ed'"
proof (induction t arbitrary: ed)
  case (TLeaf k r)
  obtain ed' where l: "load H (trie_hash H (TLeaf k r)) ed = (Inr (Leaf k r), ed')" "grows H S ed ed'"
    using load_stored [OF TLeaf.prems(2)] by (metis trie_node.simps(1))
  then show ?case by (subst lookup_from.simps) simp
next
  case (TBranch i p l r)
  obtain ed1 where ld: "load H (trie_hash H (TBranch i p l r)) ed
      = (Inr (Branch (of_nat i) p (trie_hash H l) (trie_hash H r)), ed1)"
    and g: "grows H S ed ed1" and st: "stored H S ed1 (TBranch i p l r)"
    using load_stored [OF TBranch.prems(2)] unfolding trie_node_branch by metis
  have ok: "i < 256" "trie_ok l" "trie_ok r" using trie_ok_branchD [OF TBranch.prems(1)] by blast+
  show ?case
  proof (cases "prefix_matches p i key")
    case False
    then show ?thesis using ld g ok by (subst lookup_from.simps) simp
  next
    case True
    let ?c = "if bit_at key i = 0 then l else r"
    have "stored H S ed1 ?c" "trie_ok ?c" using st ok by (simp_all add: stored_branch_iff)
    then have "\<exists>ed2. lookup_from H key (trie_hash H ?c) ed1 = Some (Inr (trie_lookup key ?c), ed2) \<and> grows H S ed1 ed2"
      using TBranch.IH by (cases "bit_at key i = 0") simp_all
    then obtain ed2 where "lookup_from H key (trie_hash H ?c) ed1 = Some (Inr (trie_lookup key ?c), ed2)" "grows H S ed1 ed2"
      by blast
    then show ?thesis
      using ld ok True grows_trans [OF g] by (subst lookup_from.simps) (simp split: if_splits)
  qed
qed

lemma insert_at_stored:
  assumes cf: "collision_free H S"
  shows "trie_ok t \<Longrightarrow> stored H S ed t \<Longrightarrow> trie_nodes H (trie_insert key r t) \<subseteq> S \<Longrightarrow>
     \<exists>ed'. insert_at H (trie_hash H t) key r ed = Some (Inr (trie_hash H (trie_insert key r t)), ed')
       \<and> grows H S ed ed' \<and> stored H S ed' (trie_insert key r t)"
proof (induction t arbitrary: ed)
  case (TLeaf k r0)
  obtain ed1 where l: "load H (trie_hash H (TLeaf k r0)) ed = (Inr (Leaf k r0), ed1)" "grows H S ed ed1"
      "stored H S ed1 (TLeaf k r0)"
    using load_stored [OF TLeaf.prems(2)] by (metis trie_node.simps(1))
  consider "k = key" "r0 = r" | "k = key" "r0 \<noteq> r" | "k \<noteq> key" by blast
  then show ?case
  proof cases
    case 1
    then show ?thesis using l by (subst insert_at.simps) simp
  next
    case 2
    then have "Leaf key r \<in> S" using TLeaf.prems(3) by simp
    then obtain ed2 where "store H (Leaf key r) ed1 = (Inr (address H (Leaf key r)), ed2)" "grows H S ed1 ed2"
      "holds H ed2 (Leaf key r)" "address H (Leaf key r) \<in> fst ` set (ed_created ed2)"
      using store_node [OF cf, of "Leaf key r" ed1] by blast
    then show ?thesis
      using 2 l \<open>Leaf key r \<in> S\<close> grows_trans
      by (subst insert_at.simps) (auto simp: trie_hash_def stored_leaf_iff)
  next
    case 3
    then obtain d where d: "first_differing_bit k key = Some d"
      by (metis first_differing_bit_None option.exhaust)
    then have lt: "d < 256" by (simp add: first_differing_bit_Some)
    have "trie_nodes H (trie_branch d key (TLeaf k r0) r) \<subseteq> S" using TLeaf.prems(3) 3 d by simp
    then obtain ed2 where "and_then (store H (Leaf key r)) (\<lambda>nl. make_branch H d key (trie_hash H (TLeaf k r0)) nl) ed1
        = (Inr (trie_hash H (trie_branch d key (TLeaf k r0) r)), ed2)"
      "grows H S ed1 ed2" "stored H S ed2 (trie_branch d key (TLeaf k r0) r)"
      using insert_new_branch [OF cf lt l(3)] by blast
    then show ?thesis
      using 3 d l(1) grows_trans [OF l(2)] by (subst insert_at.simps) simp
  qed
next
  case (TBranch i p l r0)
  let ?t = "TBranch i p l r0"
  obtain ed1 where ld: "load H (trie_hash H ?t) ed = (Inr (Branch (of_nat i) p (trie_hash H l) (trie_hash H r0)), ed1)"
    and g: "grows H S ed ed1" and st: "stored H S ed1 ?t"
    using load_stored [OF TBranch.prems(2)] unfolding trie_node_branch by metis
  have ok: "i < 256" "trie_ok l" "trie_ok r0" using trie_ok_branchD [OF TBranch.prems(1)] by blast+
  have sub: "stored H S ed1 l" "stored H S ed1 r0" using st by (simp_all add: stored_branch_iff)
  show ?case
  proof (cases "first_differing_bit_before p key i")
    case (Some d)
    then have lt: "d < 256" using ok by (simp add: first_differing_before_Some)
    have "trie_nodes H (trie_branch d key ?t r) \<subseteq> S" using TBranch.prems(3) Some by simp
    then obtain ed2 where "and_then (store H (Leaf key r)) (\<lambda>nl. make_branch H d key (trie_hash H ?t) nl) ed1
        = (Inr (trie_hash H (trie_branch d key ?t r)), ed2)"
      "grows H S ed1 ed2" "stored H S ed2 (trie_branch d key ?t r)"
      using insert_new_branch [OF cf lt st] by blast
    then show ?thesis
      using Some ok ld grows_trans [OF g] by (subst insert_at.simps) simp
  next
    case None
    let ?z = "bit_at key i = 0"
    let ?c = "if ?z then l else r0"
    let ?c' = "trie_insert key r ?c"
    let ?t' = "if ?z then TBranch i p ?c' r0 else TBranch i p l ?c'"
    have t': "trie_insert key r ?t = ?t'" using None by simp
    have "trie_nodes H ?c' \<subseteq> S" using TBranch.prems(3) unfolding t' by (simp split: if_splits)
    moreover have c: "stored H S ed1 ?c" "trie_ok ?c" using sub ok by simp_all
    ultimately have "\<exists>ed2. insert_at H (trie_hash H ?c) key r ed1 = Some (Inr (trie_hash H ?c'), ed2)
        \<and> grows H S ed1 ed2 \<and> stored H S ed2 ?c'"
      using TBranch.IH by (cases ?z) simp_all
    then obtain ed2 where ins: "insert_at H (trie_hash H ?c) key r ed1 = Some (Inr (trie_hash H ?c'), ed2)"
      and g2: "grows H S ed1 ed2" and st2: "stored H S ed2 ?c'" by blast
    have sub2: "stored H S ed2 l" "stored H S ed2 r0" "stored H S ed2 ?t"
      using sub st stored_grows [OF g2] by blast+
    show ?thesis
    proof (cases "trie_hash H ?c' = trie_hash H ?c")
      case True
      have "?c' = ?c"
        using trie_hash_inj [OF cf] True c trie_insert_correct [OF c(2)] stored_nodes [OF st2] stored_nodes [OF c(1)] by blast
      then have "?t' = ?t" by (simp split: if_splits)
      then show ?thesis
        using ld None ok ins True sub2(3) grows_trans [OF g g2] t'
        by (subst insert_at.simps) (simp add: and_then_def split: if_splits)
    next
      case False
      have n: "trie_node H ?t' \<in> S" using TBranch.prems(3) trie_nodes_self unfolding t' by blast
      then obtain ed3 where s3: "store H (trie_node H ?t') ed2 = (Inr (address H (trie_node H ?t')), ed3)"
        "grows H S ed2 ed3" "holds H ed3 (trie_node H ?t')" "address H (trie_node H ?t') \<in> fst ` set (ed_created ed3)"
        using store_node [OF cf, of "trie_node H ?t'" ed2] by blast
      have "stored H S ed3 ?c'" "stored H S ed3 l" "stored H S ed3 r0"
        using st2 sub2 stored_grows [OF s3(2)] by blast+
      then have "stored H S ed3 ?t'"
        using s3 n by (cases ?z) (simp_all add: stored_branch_iff trie_hash_def)
      then show ?thesis
        using ld None ok ins False s3(1) grows_trans [OF g grows_trans [OF g2 s3(2)]] unfolding t'
        by (subst insert_at.simps) (auto simp: and_then_def trie_hash_def split: if_splits)
    qed
  qed
qed

lemma remove_at_stored:
  assumes cf: "collision_free H S"
  shows "trie_ok t \<Longrightarrow> stored H S ed t \<Longrightarrow> pred_option (\<lambda>t'. trie_nodes H t' \<subseteq> S) (trie_remove key t) \<Longrightarrow>
     \<exists>ed'. remove_at H (trie_hash H t) key ed
         = Some (Inr (map_option (trie_hash H) (trie_remove key t), trie_lookup key t \<noteq> None), ed')
       \<and> grows H S ed ed' \<and> pred_option (stored H S ed') (trie_remove key t)"
proof (induction t arbitrary: ed)
  case (TLeaf k r)
  obtain ed1 where l: "load H (trie_hash H (TLeaf k r)) ed = (Inr (Leaf k r), ed1)" "grows H S ed ed1"
      "stored H S ed1 (TLeaf k r)"
    using load_stored [OF TLeaf.prems(2)] by (metis trie_node.simps(1))
  then show ?case by (subst remove_at.simps) simp
next
  case (TBranch i p l r)
  let ?t = "TBranch i p l r"
  obtain ed1 where ld: "load H (trie_hash H ?t) ed = (Inr (Branch (of_nat i) p (trie_hash H l) (trie_hash H r)), ed1)"
    and g: "grows H S ed ed1" and st: "stored H S ed1 ?t"
    using load_stored [OF TBranch.prems(2)] unfolding trie_node_branch by metis
  have ok: "i < 256" "trie_ok l" "trie_ok r" using trie_ok_branchD [OF TBranch.prems(1)] by blast+
  have sub: "stored H S ed1 l" "stored H S ed1 r" using st by (simp_all add: stored_branch_iff)
  show ?case
  proof (cases "prefix_matches p i key")
    case False
    then show ?thesis using ld g st ok by (subst remove_at.simps) simp
  next
    case m: True
    let ?z = "bit_at key i = 0"
    let ?c = "if ?z then l else r" and ?s = "if ?z then r else l"
    have look: "trie_lookup key ?t = trie_lookup key ?c" using m by simp
    have rem: "trie_remove key ?t = (case trie_remove key ?c of None \<Rightarrow> Some ?s
        | Some c' \<Rightarrow> Some (if ?z then TBranch i p c' r else TBranch i p l c'))"
      using m by (simp split: option.split)
    have "pred_option (\<lambda>t'. trie_nodes H t' \<subseteq> S) (trie_remove key ?c)"
      using TBranch.prems(3) unfolding rem by (cases "trie_remove key ?c") (auto split: if_splits)
    moreover have c: "stored H S ed1 ?c" "trie_ok ?c" using sub ok by simp_all
    ultimately have "\<exists>ed2. remove_at H (trie_hash H ?c) key ed1
        = Some (Inr (map_option (trie_hash H) (trie_remove key ?c), trie_lookup key ?c \<noteq> None), ed2)
        \<and> grows H S ed1 ed2 \<and> pred_option (stored H S ed2) (trie_remove key ?c)"
      using TBranch.IH by (cases ?z) simp_all
    then obtain ed2 where r2: "remove_at H (trie_hash H ?c) key ed1
        = Some (Inr (map_option (trie_hash H) (trie_remove key ?c), trie_lookup key ?c \<noteq> None), ed2)"
      and g2: "grows H S ed1 ed2" and st2: "pred_option (stored H S ed2) (trie_remove key ?c)" by blast
    have sub2: "stored H S ed2 l" "stored H S ed2 r" "stored H S ed2 ?t" "stored H S ed2 ?s"
      using sub st stored_grows [OF g2] by auto
    have step: "remove_at H (trie_hash H ?t) key ed = Some (and_then (\<lambda>ed. (Inr (map_option (trie_hash H) (trie_remove key ?c), trie_lookup key ?c \<noteq> None), ed))
        (\<lambda>(new_child, removed).
           if \<not> removed then (\<lambda>ed. (Inr (Some (trie_hash H ?t), False), ed))
           else (case new_child of
               None \<Rightarrow> (\<lambda>ed. (Inr (Some (trie_hash H ?s), True), ed))
             | Some child \<Rightarrow>
                 and_then (store H (if ?z then Branch (of_nat i) p child (trie_hash H r)
                                         else Branch (of_nat i) p (trie_hash H l) child))
                   (\<lambda>h ed. (Inr (Some h, True), ed)))) ed2)"
      using m r2 by (subst remove_at.simps, unfold ld prod.case sum.case manifest_map_node.case u16_bit [OF ok(1)])
        (simp split: if_splits)
    show ?thesis
    proof (cases "trie_lookup key ?c")
      case None
      then have "trie_remove key ?c = Some ?c" by (rule trie_remove_absent)
      then have "trie_remove key ?t = Some ?t" unfolding rem by simp
      then show ?thesis
        unfolding step using None look sub2(3) grows_trans [OF g g2] by (simp add: and_then_def)
    next
      case found: (Some x)
      show ?thesis
      proof (cases "trie_remove key ?c")
        case None
        then show ?thesis
          unfolding step look rem using found sub2(4) grows_trans [OF g g2] by (simp add: and_then_def)
      next
        case (Some c')
        let ?t' = "if ?z then TBranch i p c' r else TBranch i p l c'"
        have t': "trie_remove key ?t = Some ?t'" unfolding rem Some by simp
        then have n: "trie_node H ?t' \<in> S" using TBranch.prems(3) trie_nodes_self by (metis option.pred_inject(2) subsetD)
        then obtain ed3 where s3: "store H (trie_node H ?t') ed2 = (Inr (address H (trie_node H ?t')), ed3)"
          "grows H S ed2 ed3" "holds H ed3 (trie_node H ?t')" "address H (trie_node H ?t') \<in> fst ` set (ed_created ed3)"
          using store_node [OF cf, of "trie_node H ?t'" ed2] by blast
        have "stored H S ed3 c'" "stored H S ed3 l" "stored H S ed3 r"
          using st2 Some sub2 stored_grows [OF s3(2)] by auto
        then have st3: "stored H S ed3 ?t'"
          using s3 n by (cases ?z) (simp_all add: stored_branch_iff trie_hash_def)
        have "(if ?z then Branch (of_nat i) p (trie_hash H c') (trie_hash H r)
            else Branch (of_nat i) p (trie_hash H l) (trie_hash H c')) = trie_node H ?t'"
          by (simp add: trie_hash_def)
        then show ?thesis
          unfolding step look t' using found Some s3(1) st3 grows_trans [OF g grows_trans [OF g2 s3(2)]]
          by (simp add: and_then_def trie_hash_def [of H ?t'])
      qed
    qed
  qed
qed

section \<open>Editing sessions\<close>

definition root_nodes :: "(bytes \<Rightarrow> hash32) \<Rightarrow> trie option \<Rightarrow> manifest_map_node set" where
  "root_nodes H m = (case m of None \<Rightarrow> {} | Some t \<Rightarrow> trie_nodes H t)"

text \<open>The state of an editor that holds the map of a trie.\<close>

definition represents :: "(bytes \<Rightarrow> hash32) \<Rightarrow> manifest_map_node set \<Rightarrow> editor \<Rightarrow> trie option \<Rightarrow> bool" where
  "represents H S ed m \<longleftrightarrow> ed_root ed = map_option (trie_hash H) m \<and> pred_option trie_ok m
     \<and> pred_option (stored H S ed) m \<and> created_ok H S ed"

lemma stored_root [simp]: "stored H S (ed\<lparr>ed_root := x\<rparr>) t = stored H S ed t"
proof -
  have "read_object H (ed\<lparr>ed_root := x\<rparr>) h = read_object H ed h" for h
    by (rule read_object_cong) simp_all
  then have "fetch H (ed\<lparr>ed_root := x\<rparr>) h = fetch H ed h" for h
    unfolding fetch_unfold by (cases "ed_cache ed h") simp_all
  then show ?thesis
    by (simp add: stored_def holds_def durable_def)
qed

lemma created_ok_root [simp]: "created_ok H S (ed\<lparr>ed_root := x\<rparr>) = created_ok H S ed"
  by (simp add: created_ok_def)

lemma grows_created: "grows H S ed ed' \<Longrightarrow> created_ok H S ed \<Longrightarrow> created_ok H S ed'"
  by (simp add: grows_def)

lemma grows_loader: "grows H S ed ed' \<Longrightarrow> ed_loader ed' = ed_loader ed"
  by (simp add: grows_def)

lemma lookup_represents:
  assumes "represents H S ed m"
  shows "\<exists>ed'. lookup H node_id ed = Some (Inr (option_map m (manifest_key H node_id)), ed')"
proof (cases m)
  case None
  then show ?thesis using assms by (simp add: represents_def lookup_def option_map_def)
next
  case (Some t)
  then have t: "trie_ok t" "stored H S ed t" "ed_root ed = Some (trie_hash H t)"
    using assms by (simp_all add: represents_def)
  show ?thesis
    using lookup_from_stored [OF t(1,2), of "manifest_key H node_id"] t
    by (auto simp: lookup_def Some option_map_def trie_lookup_map)
qed

lemma upsert_represents:
  assumes cf: "collision_free H S" and rep: "represents H S ed m"
    and S: "root_nodes H (root_insert (manifest_key H (mr_node_id r)) r m) \<subseteq> S"
  shows "\<exists>ed'. upsert H r ed = Some (Inr (), ed') \<and> ed_loader ed' = ed_loader ed
    \<and> represents H S ed' (root_insert (manifest_key H (mr_node_id r)) r m)"
proof (cases m)
  case None
  let ?n = "Leaf (manifest_key H (mr_node_id r)) r"
  have "?n \<in> S" using S by (simp add: None root_insert_def root_nodes_def)
  then obtain ed1 where s: "store H ?n ed = (Inr (address H ?n), ed1)" "grows H S ed ed1"
      "holds H ed1 ?n" "address H ?n \<in> fst ` set (ed_created ed1)"
    using store_node [OF cf, of ?n ed] by blast
  moreover have "ed_root ed = None" using rep None by (simp add: represents_def)
  moreover have "stored H S ed1 (TLeaf (manifest_key H (mr_node_id r)) r)"
    using s \<open>?n \<in> S\<close> by (simp add: stored_leaf_iff trie_hash_leaf)
  ultimately show ?thesis
    using rep None grows_created [OF s(2)] grows_loader [OF s(2)]
    by (simp add: upsert_def Let_def represents_def root_insert_def trie_hash_leaf)
next
  case (Some t)
  then have t: "trie_ok t" "stored H S ed t" "ed_root ed = Some (trie_hash H t)" "created_ok H S ed"
    using rep by (simp_all add: represents_def)
  have "trie_nodes H (trie_insert (manifest_key H (mr_node_id r)) r t) \<subseteq> S"
    using S by (simp add: Some root_insert_def root_nodes_def)
  from insert_at_stored [OF cf t(1,2) this] show ?thesis
    using t trie_insert_correct [OF t(1)]
    by (auto simp: upsert_def Let_def represents_def Some root_insert_def dest: grows_created grows_loader)
qed

lemma remove_represents:
  assumes cf: "collision_free H S" and rep: "represents H S ed m"
    and S: "root_nodes H (root_remove (manifest_key H node_id) m) \<subseteq> S"
  shows "\<exists>ed'. remove H node_id ed = Some (Inr (option_map m (manifest_key H node_id) \<noteq> None), ed')
    \<and> ed_loader ed' = ed_loader ed \<and> represents H S ed' (root_remove (manifest_key H node_id) m)"
proof (cases m)
  case None
  then show ?thesis
    using rep by (auto simp: remove_def represents_def root_remove_def option_map_def)
next
  case (Some t)
  then have t: "trie_ok t" "stored H S ed t" "ed_root ed = Some (trie_hash H t)" "created_ok H S ed"
    using rep by (simp_all add: represents_def)
  let ?k = "manifest_key H node_id"
  have "pred_option (\<lambda>t'. trie_nodes H t' \<subseteq> S) (trie_remove ?k t)"
    using S by (cases "trie_remove ?k t") (simp_all add: Some root_remove_def root_nodes_def)
  from remove_at_stored [OF cf t(1,2) this] obtain ed' where
    r: "remove_at H (trie_hash H t) ?k ed = Some (Inr (map_option (trie_hash H) (trie_remove ?k t), trie_lookup ?k t \<noteq> None), ed')"
    and g: "grows H S ed ed'" and st: "pred_option (stored H S ed') (trie_remove ?k t)" by blast
  have "pred_option (stored H S (ed'\<lparr>ed_root := x\<rparr>)) (trie_remove ?k t)" for x
    using st by (cases "trie_remove ?k t") simp_all
  then show ?thesis
    using r g t trie_remove_correct [OF t(1), of ?k] trie_lookup_map [OF t(1)]
    by (auto simp: remove_def represents_def root_remove_def Some option_map_def dest: grows_created grows_loader)
qed

text \<open>A session is a sequence of calls of \<open>upsert\<close> and \<open>remove\<close>.\<close>

datatype map_call = Upsert manifest_record | Remove rstring

fun run_call :: "(bytes \<Rightarrow> hash32) \<Rightarrow> map_call \<Rightarrow> unit loop" where
  "run_call H (Upsert r) ed = upsert H r ed"
| "run_call H (Remove i) ed = map_option (\<lambda>(res, ed'). (res_bind res (\<lambda>_. Inr ()), ed')) (remove H i ed)"

fun run_calls :: "(bytes \<Rightarrow> hash32) \<Rightarrow> map_call list \<Rightarrow> unit loop" where
  "run_calls H [] ed = Some (Inr (), ed)"
| "run_calls H (x # xs) ed = Option.bind (run_call H x ed)
     (\<lambda>(res, ed'). case res of Inl e \<Rightarrow> Some (Inl e, ed') | Inr _ \<Rightarrow> run_calls H xs ed')"

text \<open>What a call does to the map from keys to records.\<close>

fun call_edit :: "(bytes \<Rightarrow> hash32) \<Rightarrow> map_call \<Rightarrow> (hash32, manifest_record) edit" where
  "call_edit H (Upsert r) = Put (manifest_key H (mr_node_id r)) r"
| "call_edit H (Remove i) = Del (manifest_key H i)"

definition trie_calls :: "(bytes \<Rightarrow> hash32) \<Rightarrow> map_call list \<Rightarrow> trie option \<Rightarrow> trie option" where
  "trie_calls H xs m = fold root_trie.apply_edit (map (call_edit H) xs) m"

definition map_calls :: "(bytes \<Rightarrow> hash32) \<Rightarrow> map_call list \<Rightarrow> (hash32 \<rightharpoonup> manifest_record) \<Rightarrow> (hash32 \<rightharpoonup> manifest_record)" where
  "map_calls H xs = fold edit_map (map (call_edit H) xs)"

text \<open>Every node of every version of the map the session passes through.\<close>

fun session_nodes :: "(bytes \<Rightarrow> hash32) \<Rightarrow> map_call list \<Rightarrow> trie option \<Rightarrow> manifest_map_node set" where
  "session_nodes H [] m = root_nodes H m"
| "session_nodes H (x # xs) m = root_nodes H m \<union> session_nodes H xs (root_trie.apply_edit (call_edit H x) m)"

lemma session_nodes_root: "root_nodes H m \<subseteq> session_nodes H xs m"
  by (cases xs) auto

lemma run_call_represents:
  assumes "collision_free H S" and "represents H S ed m"
    and "root_nodes H (root_trie.apply_edit (call_edit H x) m) \<subseteq> S"
  shows "\<exists>ed'. run_call H x ed = Some (Inr (), ed') \<and> ed_loader ed' = ed_loader ed
    \<and> represents H S ed' (root_trie.apply_edit (call_edit H x) m)"
proof (cases x)
  case (Upsert r)
  then show ?thesis using upsert_represents assms by simp
next
  case (Remove i)
  then show ?thesis using remove_represents [OF assms(1,2), of i] assms(3) by auto
qed

lemma run_calls_represents:
  assumes cf: "collision_free H S"
  shows "represents H S ed m \<Longrightarrow> session_nodes H xs m \<subseteq> S \<Longrightarrow>
    \<exists>ed'. run_calls H xs ed = Some (Inr (), ed') \<and> ed_loader ed' = ed_loader ed
      \<and> represents H S ed' (trie_calls H xs m)"
proof (induction xs arbitrary: ed m)
  case Nil
  then show ?case by (simp add: trie_calls_def)
next
  case (Cons x xs)
  let ?m = "root_trie.apply_edit (call_edit H x) m"
  have "root_nodes H ?m \<subseteq> S" "session_nodes H xs ?m \<subseteq> S"
    using Cons.prems(2) session_nodes_root by fastforce+
  then show ?case
    using run_call_represents [OF cf Cons.prems(1)] Cons.IH by (fastforce simp: trie_calls_def)
qed

end
