(* ===== verification/ManifestMapSession.thy ===== *)
theory ManifestMapSession
  imports ManifestMapCorrect
begin

text \<open>
  Whole editing sessions of the manifest map: opening a durable map, running edits against it,
  the objects \<open>finish\<close> returns, and the properties of the map as its clients see it.
\<close>

section \<open>Opening a map\<close>

text \<open>An object store that has every node of a trie, each of them well formed.\<close>

definition map_object :: "(bytes \<Rightarrow> hash32) \<Rightarrow> (hash32 \<Rightarrow> error + bytes) \<Rightarrow> trie option \<Rightarrow> bool" where
  "map_object H loader m \<longleftrightarrow> pred_option trie_ok m
     \<and> (\<forall>n \<in> root_nodes H m. node_ok H n \<and> loader (address H n) = Inr (node_bytes n))"

lemma open_represents:
  assumes "map_object H loader m" and "collision_free H S" and "root_nodes H m \<subseteq> S"
  shows "represents H S (editor_new (map_option (trie_hash H) m) loader) m"
proof (cases m)
  case None
  then show ?thesis by (simp add: represents_def editor_new_def created_ok_def)
next
  case (Some t)
  let ?ed = "editor_new (map_option (trie_hash H) m) loader"
  have n: "node_ok H n \<and> loader (address H n) = Inr (node_bytes n) \<and> n \<in> S \<and> encode_node n = Inr (node_bytes n)"
    if "n \<in> trie_nodes H t" for n
    using assms that by (auto simp: map_object_def root_nodes_def Some collision_free_def encodable_def)
  have "holds H ?ed n" if "n \<in> trie_nodes H t" for n
    using n [OF that]
    by (simp add: holds_def fetch_unfold read_object_def object_bytes_def editor_new_def address_def decode_node_iff)
  moreover have "durable H ?ed n" if "n \<in> trie_nodes H t" for n
    using n [OF that] by (simp add: durable_def editor_new_def)
  ultimately have "stored H S ?ed t"
    using n subtries_trans unfolding stored_def trie_nodes_def by blast
  then show ?thesis
    using assms Some by (simp add: represents_def editor_new_def created_ok_def map_object_def)
qed

section \<open>The object set of a finished session\<close>

definition overlay :: "(hash32 \<times> bytes) list \<Rightarrow> (hash32 \<Rightarrow> error + bytes) \<Rightarrow> hash32 \<Rightarrow> error + bytes" where
  "overlay objects loader h = (case map_of objects h of Some bs \<Rightarrow> Inr bs | None \<Rightarrow> loader h)"

text \<open>
  The invariant of the walk: what was seen and created is collected, and its children are
  seen or still on the stack.
\<close>

definition walk_inv :: "(bytes \<Rightarrow> hash32) \<Rightarrow> trie \<Rightarrow> (hash32 \<times> bytes) list \<Rightarrow> hash32 list \<Rightarrow> hash32 list \<Rightarrow>
    (hash32 \<times> bytes) list \<Rightarrow> bool" where
  "walk_inv H t created stack seen acc \<longleftrightarrow>
     (\<forall>u. u \<in> subtries t \<longrightarrow> trie_hash H u \<in> set seen \<longrightarrow> trie_hash H u \<in> dom (map_of created) \<longrightarrow>
        map_of acc (trie_hash H u) = map_of created (trie_hash H u))
     \<and> (\<forall>i p l r. TBranch i p l r \<in> subtries t \<longrightarrow> trie_hash H (TBranch i p l r) \<in> set seen \<longrightarrow>
        trie_hash H (TBranch i p l r) \<in> dom (map_of created) \<longrightarrow>
        {trie_hash H l, trie_hash H r} \<subseteq> set seen \<union> set stack)
     \<and> set seen \<union> set stack \<subseteq> trie_hash H ` subtries t
     \<and> map_of acc \<subseteq>\<^sub>m map_of created \<and> fst ` set acc \<subseteq> set seen"

lemma walk_invI:
  assumes "\<And>u. u \<in> subtries t \<Longrightarrow> trie_hash H u \<in> set seen \<Longrightarrow> trie_hash H u \<in> dom (map_of created) \<Longrightarrow>
      map_of acc (trie_hash H u) = map_of created (trie_hash H u)"
    and "\<And>i p l r. TBranch i p l r \<in> subtries t \<Longrightarrow> trie_hash H (TBranch i p l r) \<in> set seen \<Longrightarrow>
      trie_hash H (TBranch i p l r) \<in> dom (map_of created) \<Longrightarrow> {trie_hash H l, trie_hash H r} \<subseteq> set seen \<union> set stack"
    and "set seen \<union> set stack \<subseteq> trie_hash H ` subtries t"
    and "map_of acc \<subseteq>\<^sub>m map_of created" and "fst ` set acc \<subseteq> set seen"
  shows "walk_inv H t created stack seen acc"
  unfolding walk_inv_def using assms by (intro conjI allI impI)

lemma walk_invD:
  assumes "walk_inv H t created stack seen acc"
  shows "u \<in> subtries t \<Longrightarrow> trie_hash H u \<in> set seen \<Longrightarrow> trie_hash H u \<in> dom (map_of created) \<Longrightarrow>
      map_of acc (trie_hash H u) = map_of created (trie_hash H u)"
    and "TBranch i p l r \<in> subtries t \<Longrightarrow> trie_hash H (TBranch i p l r) \<in> set seen \<Longrightarrow>
      trie_hash H (TBranch i p l r) \<in> dom (map_of created) \<Longrightarrow> {trie_hash H l, trie_hash H r} \<subseteq> set seen \<union> set stack"
    and "set seen \<union> set stack \<subseteq> trie_hash H ` subtries t"
    and "map_of acc \<subseteq>\<^sub>m map_of created" and "fst ` set acc \<subseteq> set seen"
  using assms unfolding walk_inv_def by (elim conjE, simp only:)+

lemma walk_inv_seen:
  assumes inv: "walk_inv H t cr (h # stack) seen acc" and "h \<in> set seen"
  shows "walk_inv H t cr stack seen acc"
proof -
  have eq: "set seen \<union> set (h # stack) = set seen \<union> set stack" using assms(2) by auto
  from inv show ?thesis unfolding walk_inv_def eq .
qed

lemma walk_inv_skip:
  assumes inv: "walk_inv H t cr (h # stack) seen acc" and h: "map_of cr h = None"
  shows "walk_inv H t cr stack (h # seen) acc"
proof (rule walk_invI)
  have eq: "set (h # seen) \<union> set stack = set seen \<union> set (h # stack)" by simp
  have old: "trie_hash H u \<in> set seen" if "trie_hash H u \<in> set (h # seen)" "trie_hash H u \<in> dom (map_of cr)" for u
    using that h by auto
  show "map_of acc (trie_hash H u) = map_of cr (trie_hash H u)"
    if "u \<in> subtries t" "trie_hash H u \<in> set (h # seen)" "trie_hash H u \<in> dom (map_of cr)" for u
    using walk_invD(1) [OF inv that(1) old [OF that(2,3)] that(3)] .
  show "{trie_hash H l, trie_hash H r} \<subseteq> set (h # seen) \<union> set stack"
    if "TBranch i p l r \<in> subtries t" "trie_hash H (TBranch i p l r) \<in> set (h # seen)"
      "trie_hash H (TBranch i p l r) \<in> dom (map_of cr)" for i p l r
    using walk_invD(2) [OF inv that(1) old [OF that(2,3)] that(3)] unfolding eq .
  show "set (h # seen) \<union> set stack \<subseteq> trie_hash H ` subtries t"
    using walk_invD(3) [OF inv] unfolding eq .
  show "map_of acc \<subseteq>\<^sub>m map_of cr" by (rule walk_invD(4) [OF inv])
  show "fst ` set acc \<subseteq> set (h # seen)" using walk_invD(5) [OF inv] by auto
qed

lemma walk_inv_visit:
  assumes inv: "walk_inv H t cr (trie_hash H u # stack) seen acc" and u: "u \<in> subtries t"
    and new: "trie_hash H u \<notin> set seen" and cr: "map_of cr (trie_hash H u) = Some bs"
    and uniq: "\<And>v. v \<in> subtries t \<Longrightarrow> trie_hash H v = trie_hash H u \<Longrightarrow> v = u"
    and st: "set stack' = set stack \<union> (case u of TLeaf _ _ \<Rightarrow> {} | TBranch i p l r \<Rightarrow> {trie_hash H l, trie_hash H r})"
  shows "walk_inv H t cr stack' (trie_hash H u # seen) ((trie_hash H u, bs) # acc)"
proof (rule walk_invI)
  let ?h = "trie_hash H u"
  have old: "trie_hash H v \<in> set seen" if "trie_hash H v \<in> set (?h # seen)" "trie_hash H v \<noteq> ?h" for v
    using that by simp
  show "map_of ((?h, bs) # acc) (trie_hash H v) = map_of cr (trie_hash H v)"
    if v: "v \<in> subtries t" "trie_hash H v \<in> set (?h # seen)" "trie_hash H v \<in> dom (map_of cr)" for v
    using walk_invD(1) [OF inv v(1) _ v(3)] old [OF v(2)] cr by (cases "trie_hash H v = ?h") simp_all
  show "{trie_hash H l, trie_hash H r} \<subseteq> set (?h # seen) \<union> set stack'"
    if v: "TBranch i p l r \<in> subtries t" "trie_hash H (TBranch i p l r) \<in> set (?h # seen)"
      "trie_hash H (TBranch i p l r) \<in> dom (map_of cr)" for i p l r
  proof (cases "trie_hash H (TBranch i p l r) = ?h")
    case True
    then have "u = TBranch i p l r" using uniq [OF v(1)] by simp
    then show ?thesis using st by auto
  next
    case False
    from walk_invD(2) [OF inv v(1) old [OF v(2) False] v(3)] show ?thesis using st by auto
  qed
  have "(case u of TLeaf _ _ \<Rightarrow> {} | TBranch i p l r \<Rightarrow> {trie_hash H l, trie_hash H r}) \<subseteq> trie_hash H ` subtries t"
    using subtries_trans [OF u] subtries_self by (cases u) (simp, fastforce)
  then show "set (?h # seen) \<union> set stack' \<subseteq> trie_hash H ` subtries t"
    using walk_invD(3) [OF inv] u unfolding st by auto
  show "map_of ((?h, bs) # acc) \<subseteq>\<^sub>m map_of cr"
    using walk_invD(4) [OF inv] cr by (auto simp: map_le_def)
  show "fst ` set ((?h, bs) # acc) \<subseteq> set (?h # seen)" using walk_invD(5) [OF inv] by auto
qed

lemma finish_walk_correct:
  "collision_free H S \<Longrightarrow> trie_ok t \<Longrightarrow> stored H S ed t \<Longrightarrow> walk_inv H t (ed_created ed) stack seen acc \<Longrightarrow>
    \<exists>acc' seen' ed'. finish_walk H stack seen acc ed = (Inr acc', ed')
      \<and> walk_inv H t (ed_created ed) [] seen' acc' \<and> set stack \<union> set seen \<subseteq> set seen'"
proof (induction H stack seen acc ed rule: finish_walk.induct)
  case (1 H stack seen acc ed)
  note cf = "1.prems"(1) and ok = "1.prems"(2) and st = "1.prems"(3) and inv = "1.prems"(4)
  show ?case
  proof (cases stack)
    case Nil
    then show ?thesis using inv by (subst finish_walk.simps) auto
  next
    case (Cons h stack')
    note inv = inv [unfolded Cons]
    consider "h \<in> set seen" | "h \<notin> set seen" "map_of (ed_created ed) h = None"
      | bs where "h \<notin> set seen" "map_of (ed_created ed) h = Some bs" by (metis option.exhaust)
    then show ?thesis
    proof cases
      case 1
      from "1.IH"(1) [OF Cons 1 cf ok st walk_inv_seen [OF inv 1]] show ?thesis
        using Cons 1 by (subst finish_walk.simps) (auto simp: insert_absorb)
    next
      case 2
      from "1.IH"(2) [OF Cons 2 cf ok st walk_inv_skip [OF inv 2(2)]] show ?thesis
        using Cons 2 by (subst finish_walk.simps) auto
    next
      case (3 bs)
      obtain u where u: "u \<in> subtries t" "h = trie_hash H u"
        using walk_invD(3) [OF inv] by auto
      obtain ed1 where l: "load H h ed = (Inr (trie_node H u), ed1)" "grows H S ed ed1"
        using load_stored [OF stored_sub [OF st u(1)]] u(2) by metis
      have st1: "stored H S ed1 t" and cr: "ed_created ed1 = ed_created ed"
        using stored_grows [OF l(2) st] load_cases(5) [OF l(1)] by blast+
      have uniq: "v = u" if "v \<in> subtries t" "trie_hash H v = trie_hash H u" for v
        using trie_hash_inj [OF cf] trie_ok_subtries [OF ok] stored_nodes stored_sub [OF st] that u by blast
      show ?thesis
      proof (cases u)
        case (TLeaf k r)
        have "walk_inv H t (ed_created ed1) stack' (h # seen) ((h, bs) # acc)"
          using walk_inv_visit [of H t "ed_created ed1" u stack' seen acc bs stack'] inv u 3 cr uniq TLeaf by simp
        from "1.IH"(3) [OF Cons 3 _ _ _ cf ok st1 this] show ?thesis
          using Cons 3 l cr TLeaf by (subst finish_walk.simps) auto
      next
        case (TBranch i p left right)
        let ?s = "trie_hash H left # trie_hash H right # stack'"
        have "walk_inv H t (ed_created ed1) ?s (h # seen) ((h, bs) # acc)"
          using walk_inv_visit [of H t "ed_created ed1" u stack' seen acc bs ?s] inv u 3 cr uniq TBranch by simp
        moreover have n: "trie_node H u = Branch (of_nat i) p (trie_hash H left) (trie_hash H right)"
          unfolding TBranch by (rule trie_node_branch)
        have "finish_walk H stack seen acc ed = finish_walk H ?s (h # seen) ((h, bs) # acc) ed1"
          using Cons 3 l n by (subst finish_walk.simps) simp
        moreover have "\<exists>acc' seen' ed'. finish_walk H ?s (h # seen) ((h, bs) # acc) ed1 = (Inr acc', ed')
            \<and> walk_inv H t (ed_created ed1) [] seen' acc' \<and> set ?s \<union> set (h # seen) \<subseteq> set seen'"
          using "1.IH"(4) [OF Cons 3 _ _ _ cf ok st1] l n calculation(1) by auto
        ultimately show ?thesis unfolding cr Cons by auto
      qed
    qed
  qed
qed

lemma created_bytes:
  assumes "collision_free H S" and "created_ok H S ed" and "n \<in> S" and "map_of (ed_created ed) (address H n) = Some bs"
  shows "bs = node_bytes n"
proof -
  obtain m where "m \<in> S" "bs = node_bytes m" "address H n = address H m"
    using assms(2,4) map_of_SomeD unfolding created_ok_def by fastforce
  then show ?thesis
    using assms(1,3) unfolding collision_free_def by (metis inj_onD)
qed

lemma walk_collects:
  assumes cf: "collision_free H S" and cr: "created_ok H S ed" and st: "stored H S ed t"
    and inv: "walk_inv H t (ed_created ed) [] seen acc"
  shows "u \<in> subtries t \<Longrightarrow> trie_hash H u \<in> set seen \<Longrightarrow> v \<in> subtries u \<Longrightarrow>
    overlay acc (ed_loader ed) (trie_hash H v) = Inr (node_bytes (trie_node H v))"
proof -
  have byt: "bs = node_bytes (trie_node H v)" if "v \<in> subtries t" "map_of acc (trie_hash H v) = Some bs" for v bs
  proof -
    have "map_of (ed_created ed) (trie_hash H v) = Some bs"
      using walk_invD(4) [OF inv] that(2) by (metis domI map_le_def)
    moreover have "trie_node H v \<in> S" using st that(1) by (simp add: stored_def)
    ultimately show ?thesis using created_bytes [OF cf cr] by (simp add: trie_hash_def)
  qed
  have dur: "overlay acc (ed_loader ed) (trie_hash H v) = Inr (node_bytes (trie_node H v))"
    if "u \<in> subtries t" "trie_hash H u \<notin> dom (map_of (ed_created ed))" "v \<in> subtries u" for u v
  proof -
    have "durable H ed (trie_node H v)"
      using st that unfolding stored_def dom_map_of_conv_image_fst by blast
    then show ?thesis
      using byt subtries_trans [OF that(1)] that(3)
      by (auto simp: overlay_def durable_def trie_hash_def split: option.split)
  qed
  have self: "overlay acc (ed_loader ed) (trie_hash H u) = Inr (node_bytes (trie_node H u))"
    if u: "u \<in> subtries t" "trie_hash H u \<in> set seen" "trie_hash H u \<in> dom (map_of (ed_created ed))" for u
  proof -
    have "map_of acc (trie_hash H u) \<noteq> None" using walk_invD(1) [OF inv u] u(3) by auto
    then show ?thesis using byt [OF u(1)] by (auto simp: overlay_def)
  qed
  show "u \<in> subtries t \<Longrightarrow> trie_hash H u \<in> set seen \<Longrightarrow> v \<in> subtries u \<Longrightarrow>
    overlay acc (ed_loader ed) (trie_hash H v) = Inr (node_bytes (trie_node H v))"
  proof (induction u)
    case (TLeaf k r)
    then show ?case
      using dur [OF TLeaf.prems(1) _ TLeaf.prems(3)] self [OF TLeaf.prems(1,2)] by (metis singletonD subtries.simps(1))
  next
    case (TBranch i p l r)
    show ?case
    proof (cases "trie_hash H (TBranch i p l r) \<in> dom (map_of (ed_created ed))")
      case False
      then show ?thesis using dur TBranch.prems(1,3) by blast
    next
      case True
      have "{trie_hash H l, trie_hash H r} \<subseteq> set seen"
        using walk_invD(2) [OF inv TBranch.prems(1,2) True] by simp
      moreover have "l \<in> subtries t" "r \<in> subtries t"
        using subtries_trans [OF TBranch.prems(1)] by auto
      ultimately show ?thesis
        using TBranch.IH TBranch.prems(3) self [OF TBranch.prems(1,2) True] by auto
    qed
  qed
qed

lemma finish_represents:
  assumes cf: "collision_free H S" and rep: "represents H S ed (Some t)"
  shows "\<exists>objects ed'. finish H ed = (Inr (trie_hash H t, objects), ed')
    \<and> (\<forall>n \<in> trie_nodes H t. overlay objects (ed_loader ed) (address H n) = Inr (node_bytes n))
    \<and> fst ` set objects \<subseteq> address H ` trie_nodes H t"
proof -
  have t: "trie_ok t" "stored H S ed t" "ed_root ed = Some (trie_hash H t)" "created_ok H S ed"
    using rep by (simp_all add: represents_def)
  have "walk_inv H t (ed_created ed) [trie_hash H t] [] []"
    by (rule walk_invI) auto
  from finish_walk_correct [OF cf t(1,2) this] obtain acc seen ed' where
    w: "finish_walk H [trie_hash H t] [] [] ed = (Inr acc, ed')" and
    inv: "walk_inv H t (ed_created ed) [] seen acc" and seen: "trie_hash H t \<in> set seen" by auto
  have "\<forall>n \<in> trie_nodes H t. overlay acc (ed_loader ed) (address H n) = Inr (node_bytes n)"
    using walk_collects [OF cf t(4,2) inv subtries_self seen] by (auto simp: trie_nodes_def trie_hash_def)
  moreover have "fst ` set acc \<subseteq> address H ` trie_nodes H t"
    using walk_invD(3,5) [OF inv] by (auto simp: trie_nodes_def trie_hash_def image_image)
  moreover have "finish H ed = (Inr (trie_hash H t, acc), ed')"
    using w t(3) by (simp add: finish_def and_then_def)
  ultimately show ?thesis by blast
qed

section \<open>Valid maps\<close>

definition map_valid :: "(bytes \<Rightarrow> hash32) \<Rightarrow> (hash32 \<rightharpoonup> manifest_record) \<Rightarrow> bool" where
  "map_valid H m \<longleftrightarrow> (\<forall>k r. m k = Some r \<longrightarrow> k = manifest_key H (mr_node_id r) \<and> record_ok r)"

definition call_ok :: "map_call \<Rightarrow> bool" where
  "call_ok x \<longleftrightarrow> (case x of Upsert r \<Rightarrow> record_ok r | Remove _ \<Rightarrow> True)"

lemma map_valid_calls: "map_valid H m \<Longrightarrow> list_all call_ok xs \<Longrightarrow> map_valid H (map_calls H xs m)"
proof (induction xs arbitrary: m)
  case Nil
  then show ?case by (simp add: map_calls_def)
next
  case (Cons x xs)
  have "map_valid H (edit_map (call_edit H x) m)"
    using Cons.prems by (cases x) (auto simp: map_valid_def call_ok_def)
  then show ?case using Cons by (simp add: map_calls_def)
qed

lemma trie_map_sub: "trie_ok t \<Longrightarrow> u \<in> subtries t \<Longrightarrow> trie_map u k = Some r \<Longrightarrow> trie_map t k = Some r"
proof (induction t)
  case (TBranch i p l v)
  have ok: "trie_ok l" "trie_ok v" using trie_ok_branchD [OF TBranch.prems(1)] by blast+
  have dj: "trie_keys l \<inter> trie_keys v = {}" using TBranch.prems(1) by (rule trie_keys_disjoint)
  consider "u = TBranch i p l v" | "u \<in> subtries l" | "u \<in> subtries v" using TBranch.prems(2) by auto
  then show ?case
  proof cases
    case 2
    then have "trie_map l k = Some r" using TBranch.IH(1) ok TBranch.prems(3) by blast
    moreover from this have "trie_map v k = None" using dj by (metis disjoint_iff domI domIff)
    ultimately show ?thesis by (simp add: map_add_def)
  next
    case 3
    then have "trie_map v k = Some r" using TBranch.IH(2) ok TBranch.prems(3) by blast
    then show ?thesis by simp
  qed (use TBranch.prems in simp)
qed auto

lemma nodes_ok:
  assumes cf: "collision_free H S" and ok: "trie_ok t" and S: "trie_nodes H t \<subseteq> S"
    and valid: "map_valid H (trie_map t)" and n: "n \<in> trie_nodes H t"
  shows "node_ok H n"
proof -
  obtain u where u: "u \<in> subtries t" "n = trie_node H u" using n by (auto simp: trie_nodes_def)
  have uok: "trie_ok u" by (rule trie_ok_subtries [OF ok u(1)])
  show ?thesis
  proof (cases u)
    case (TLeaf k r)
    have "trie_map t k = Some r" using trie_map_sub [OF ok u(1), of k r] TLeaf by simp
    then show ?thesis using valid u TLeaf by (simp add: map_valid_def node_ok_def)
  next
    case (TBranch i p l r)
    note b = trie_ok_branchD [OF uok [unfolded TBranch]]
    have "l \<noteq> r" using trie_keys_disjoint [OF uok [unfolded TBranch]] trie_key_ex [of l] by auto
    moreover have "trie_nodes H l \<subseteq> S" "trie_nodes H r \<subseteq> S"
      using trie_nodes_mono [OF u(1), of H] S TBranch by auto
    ultimately have "trie_hash H l \<noteq> trie_hash H r" using trie_hash_inj [OF cf b(2,3)] by blast
    then show ?thesis
      using b u(2) by (simp add: TBranch node_ok_def trie_hash_def)
  qed
qed

lemma map_object_valid: "map_object H loader m \<Longrightarrow> map_valid H (option_map m)"
proof (cases m)
  case (Some t)
  assume mo: "map_object H loader m"
  have leaf: "\<exists>u \<in> subtries t. u = TLeaf k r" if "trie_map t k = Some r" for k r t
    using that by (induction t) (auto split: if_splits)
  have "k = manifest_key H (mr_node_id r) \<and> record_ok r" if "trie_map t k = Some r" for k r
  proof -
    have "Leaf k r \<in> trie_nodes H t" using leaf [OF that] by (force simp: trie_nodes_def)
    then have "node_ok H (Leaf k r)" using mo by (auto simp: map_object_def root_nodes_def Some)
    then show ?thesis by (simp add: node_ok_def)
  qed
  then show ?thesis by (simp add: map_valid_def option_map_def Some)
qed (simp add: map_valid_def option_map_def)

lemma option_map_calls:
  "pred_option trie_ok m \<Longrightarrow> pred_option trie_ok (trie_calls H xs m) \<and> option_map (trie_calls H xs m) = map_calls H xs (option_map m)"
  unfolding trie_calls_def map_calls_def by (rule root_trie.edits_correct)

lemma session_nodes_final: "root_nodes H (trie_calls H xs m) \<subseteq> session_nodes H xs m"
  by (induction xs arbitrary: m) (auto simp: trie_calls_def)

text \<open>A whole session on an opened map.\<close>

lemma session_represents:
  assumes "map_object H loader m" and "collision_free H (session_nodes H xs m)"
  obtains ed where "run_calls H xs (editor_new (map_option (trie_hash H) m) loader) = Some (Inr (), ed)"
    "ed_loader ed = loader" "represents H (session_nodes H xs m) ed (trie_calls H xs m)"
proof -
  have "represents H (session_nodes H xs m) (editor_new (map_option (trie_hash H) m) loader) m"
    using assms session_nodes_root by (intro open_represents) auto
  from run_calls_represents [OF assms(2) this] show thesis
    using that by (auto simp: editor_new_def)
qed

section \<open>Rebuilding a map from its records\<close>

definition keyed :: "(bytes \<Rightarrow> hash32) \<Rightarrow> manifest_record list \<Rightarrow> (hash32 \<times> manifest_record) list" where
  "keyed H rs = map (\<lambda>r. (manifest_key H (mr_node_id r), r)) rs"

lemma upsert_all_calls: "upsert_all H rs ed = run_calls H (map Upsert rs) ed"
proof (induction rs arbitrary: ed)
  case (Cons r rs)
  show ?case
    unfolding upsert_all.simps list.map run_calls.simps run_call.simps Cons.IH by (rule refl)
qed simp

lemma map_calls_upserts:
  "distinct (map fst (keyed H rs)) \<Longrightarrow> map_calls H (map Upsert rs) m = m ++ map_of (keyed H rs)"
proof (induction rs arbitrary: m)
  case Nil
  then show ?case by (simp add: map_calls_def keyed_def)
next
  case (Cons r rs)
  let ?k = "manifest_key H (mr_node_id r)"
  have "map_calls H (map Upsert (r # rs)) m = map_calls H (map Upsert rs) (m(?k \<mapsto> r))"
    by (simp add: map_calls_def)
  also have "\<dots> = m(?k \<mapsto> r) ++ map_of (keyed H rs)"
    using Cons by (simp add: keyed_def)
  also have "\<dots> = m ++ (map_of (keyed H rs))(?k \<mapsto> r)"
  proof -
    have "?k \<notin> dom (map_of (keyed H rs))"
      using Cons.prems by (force simp: keyed_def dom_map_of_conv_image_fst)
    then show ?thesis by (metis map_add_upd map_add_upd_left)
  qed
  also have "(map_of (keyed H rs))(?k \<mapsto> r) = map_of (keyed H (r # rs))"
    by (auto simp: keyed_def fun_eq_iff)
  finally show ?case .
qed

lemma keyed_perm:
  assumes "mset rs = mset rs'" and "distinct (map fst (keyed H rs))"
  shows "distinct (map fst (keyed H rs'))" "map_of (keyed H rs') = map_of (keyed H rs)"
proof -
  have m: "mset (keyed H rs) = mset (keyed H rs')" using assms(1) by (simp add: keyed_def)
  then have "mset (map fst (keyed H rs)) = mset (map fst (keyed H rs'))" by simp
  then show d: "distinct (map fst (keyed H rs'))"
    using assms(2) mset_eq_imp_distinct_iff by blast
  have "set (keyed H rs) = set (keyed H rs')" using m by (metis set_mset_mset)
  then show "map_of (keyed H rs') = map_of (keyed H rs)"
    using map_of_inject_set [OF d assms(2)] by simp
qed

lemma windows2_record_ids:
  "windows2 (\<lambda>a b. mr_node_id a \<noteq> mr_node_id b) (sort_key record_id_key rs) \<longleftrightarrow> distinct (map mr_node_id rs)"
proof -
  let ?s = "sort_key record_id_key rs"
  have "windows2 (\<lambda>a b. record_id_key a \<noteq> record_id_key b) ?s \<longleftrightarrow> distinct (map record_id_key ?s)"
    by (rule windows2_distinct_sorted) simp
  also have "\<dots> \<longleftrightarrow> distinct (map record_id_key rs)"
    by (rule mset_eq_imp_distinct_iff) simp
  also have "\<dots> \<longleftrightarrow> distinct (map mr_node_id rs)"
    by (auto simp: distinct_map inj_on_def record_id_key_def)
  finally show ?thesis by (simp add: record_id_key_def)
qed

lemma build_root:
  assumes d: "distinct (map fst (keyed H rs))" and ne: "rs \<noteq> []"
    and cf: "collision_free H (session_nodes H (map Upsert (sort_key record_id_key rs)) None)"
    and t: "trie_ok t" "trie_map t = map_of (keyed H rs)"
  shows "\<exists>objects. build_manifest_map H rs = Some (Inr (trie_hash H t, objects))"
proof -
  let ?xs = "map Upsert (sort_key record_id_key rs)"
  have p: "distinct (map fst (keyed H (sort_key record_id_key rs)))"
    "map_of (keyed H (sort_key record_id_key rs)) = map_of (keyed H rs)"
    using keyed_perm [OF _ d] by (metis mset_sort)+
  have "option_map (trie_calls H ?xs None) = map_of (keyed H rs)"
    using option_map_calls [of None H ?xs] map_calls_upserts [OF p(1)] p(2) by (simp add: option_map_def)
  then have eq: "trie_calls H ?xs None = Some t"
    using root_trie.canonical [of "trie_calls H ?xs None" "Some t"] option_map_calls [of None H ?xs] t
    by (simp add: option_map_def)
  have "map_object H absent_loader None" by (simp add: map_object_def root_nodes_def)
  then obtain ed where run: "run_calls H ?xs (editor_new None absent_loader) = Some (Inr (), ed)"
      and rep: "represents H (session_nodes H ?xs None) ed (Some t)"
    using session_represents [OF _ cf] eq by (metis option.simps(8))
  have "distinct (map mr_node_id rs)" using d by (auto simp: keyed_def distinct_map inj_on_def)
  then show ?thesis
    using run finish_represents [OF cf rep]
    by (auto simp: build_manifest_map_def Let_def windows2_record_ids upsert_all_calls)
qed

section \<open>Lookups against an untrusted store\<close>

text \<open>No other byte string has the address of a node of the map.\<close>

definition second_preimage_free :: "(bytes \<Rightarrow> hash32) \<Rightarrow> manifest_map_node set \<Rightarrow> bool" where
  "second_preimage_free H S \<longleftrightarrow> (\<forall>n \<in> S. encodable n \<and> (\<forall>bs. H bs = address H n \<longrightarrow> bs = node_bytes n))"

definition cache_sound :: "(bytes \<Rightarrow> hash32) \<Rightarrow> editor \<Rightarrow> bool" where
  "cache_sound H ed \<longleftrightarrow> ed_created ed = [] \<and>
     (\<forall>h n. ed_cache ed h = Some n \<longrightarrow> (\<exists>bs. encode_node n = Inr bs \<and> H bs = h))"

lemma le16_inject [simp]: "le16 a = le16 b \<longleftrightarrow> a = b"
  by (metis un_le_le(1))

lemma encode_node_inj: "encode_node n = Inr bs \<Longrightarrow> encode_node m = Inr bs \<Longrightarrow> n = m"
  by (cases n; cases m) (auto simp: encode_node_def append_eq_append_conv dest: record_fields.enc_inj)

lemma load_sound:
  assumes "cache_sound H ed" and "load H h ed = (res, ed')"
  shows "cache_sound H ed'" "res = Inr n \<Longrightarrow> \<exists>bs. encode_node n = Inr bs \<and> H bs = h"
proof -
  have r: "\<exists>bs. encode_node n = Inr bs \<and> H bs = h" if "read_object H ed h = Inr n" for n
    using that by (auto simp: read_object_def decode_node_iff)
  then show "cache_sound H ed'"
    using assms(1) load_state [OF assms(2)] by (auto simp: cache_sound_def split: if_splits)
  show "\<exists>bs. encode_node n = Inr bs \<and> H bs = h" if "res = Inr n"
    using assms that r load_cases(1) [OF assms(2)]
    by (auto simp: fetch_unfold cache_sound_def split: option.splits)
qed

lemma load_authentic:
  assumes "cache_sound H ed" and "load H (trie_hash H t) ed = (Inr n, ed')" and "second_preimage_free H (trie_nodes H t)"
  shows "n = trie_node H t"
proof -
  obtain bs where "encode_node n = Inr bs" "H bs = address H (trie_node H t)"
    using load_sound(2) [OF assms(1,2)] by (auto simp: trie_hash_def)
  moreover have "encode_node (trie_node H t) = Inr (node_bytes (trie_node H t))"
    "\<forall>bs. H bs = address H (trie_node H t) \<longrightarrow> bs = node_bytes (trie_node H t)"
    using assms(3) trie_nodes_self unfolding second_preimage_free_def encodable_def by blast+
  ultimately show ?thesis using encode_node_inj by metis
qed

lemma lookup_from_authentic:
  "trie_ok t \<Longrightarrow> cache_sound H ed \<Longrightarrow> second_preimage_free H (trie_nodes H t) \<Longrightarrow>
     \<exists>res ed'. lookup_from H key (trie_hash H t) ed = Some (res, ed') \<and> (\<forall>x. res = Inr x \<longrightarrow> x = trie_lookup key t)"
proof (induction t arbitrary: ed)
  case (TLeaf k r)
  obtain res ed1 where l: "load H (trie_hash H (TLeaf k r)) ed = (res, ed1)" by fastforce
  show ?case
  proof (cases res)
    case (Inr n)
    then have "n = Leaf k r" using load_authentic TLeaf.prems l by fastforce
    then show ?thesis using l Inr by (subst lookup_from.simps) simp
  qed (use l in \<open>subst lookup_from.simps, simp\<close>)
next
  case (TBranch i p l r)
  obtain res ed1 where ld: "load H (trie_hash H (TBranch i p l r)) ed = (res, ed1)" by fastforce
  show ?case
  proof (cases res)
    case (Inr n)
    then have n: "n = Branch (of_nat i) p (trie_hash H l) (trie_hash H r)"
      using load_authentic TBranch.prems ld trie_node_branch by metis
    have ok: "i < 256" "trie_ok l" "trie_ok r" using trie_ok_branchD [OF TBranch.prems(1)] by blast+
    have sp: "second_preimage_free H (trie_nodes H l)" "second_preimage_free H (trie_nodes H r)"
      using TBranch.prems(3) by (simp_all add: second_preimage_free_def)
    show ?thesis
    proof (cases "prefix_matches p i key")
      case True
      have "cache_sound H ed1" using load_sound(1) TBranch.prems(2) ld by blast
      then have "\<exists>res ed'. lookup_from H key (trie_hash H (if bit_at key i = 0 then l else r)) ed1 = Some (res, ed')
          \<and> (\<forall>x. res = Inr x \<longrightarrow> x = trie_lookup key (if bit_at key i = 0 then l else r))"
        using TBranch.IH ok sp by (cases "bit_at key i = 0") simp_all
      then show ?thesis
        using ld Inr n ok True by (subst lookup_from.simps) (simp split: if_splits)
    qed (use ld Inr n ok in \<open>subst lookup_from.simps, simp\<close>)
  qed (use ld in \<open>subst lookup_from.simps, simp\<close>)
qed

section \<open>Properties of the manifest map\<close>

text \<open>C8: The editor implements a finite map. Opened on a stored map, it runs any sequence of
  upserts and removals without an error and without looping, and afterwards a lookup of any
  node id returns what the same sequence of updates leaves at its key; removing reports
  whether the key was there.\<close>

theorem manifest_editor_refines_map:
  assumes "map_object H loader m" and "collision_free H (session_nodes H (xs @ [Remove j]) m)"
  shows "\<exists>ed. run_calls H xs (editor_new (map_option (trie_hash H) m) loader) = Some (Inr (), ed)
    \<and> (\<forall>i. \<exists>ed'. lookup H i ed = Some (Inr (map_calls H xs (option_map m) (manifest_key H i)), ed'))
    \<and> (\<exists>ed'. remove H j ed = Some (Inr (map_calls H xs (option_map m) (manifest_key H j) \<noteq> None), ed'))"
proof -
  let ?S = "session_nodes H (xs @ [Remove j]) m"
  have sub: "session_nodes H xs m \<subseteq> ?S" "root_nodes H (root_remove (manifest_key H j) (trie_calls H xs m)) \<subseteq> ?S"
    by (induction xs arbitrary: m) (auto simp: trie_calls_def)
  have "represents H ?S (editor_new (map_option (trie_hash H) m) loader) m"
    using assms session_nodes_root by (intro open_represents) auto
  from run_calls_represents [OF assms(2) this sub(1)] obtain ed where
    ed: "run_calls H xs (editor_new (map_option (trie_hash H) m) loader) = Some (Inr (), ed)"
      "represents H ?S ed (trie_calls H xs m)" by blast
  have "option_map (trie_calls H xs m) = map_calls H xs (option_map m)"
    using option_map_calls assms(1) by (simp add: map_object_def)
  then show ?thesis
    using ed lookup_represents [OF ed(2)] remove_represents [OF assms(2) ed(2) sub(2)] by auto
qed

text \<open>C9: The root of the map does not depend on its history: two sessions, on whatever stored
  maps they start from and in whatever order they edit, end with the same root when they end
  with the same map.\<close>

theorem manifest_root_history_independent:
  assumes "map_object H loader m" and "collision_free H (session_nodes H xs m)"
    and "map_object H loader' m'" and "collision_free H (session_nodes H ys m')"
    and "map_calls H xs (option_map m) = map_calls H ys (option_map m')"
  shows "\<exists>ed ed'. run_calls H xs (editor_new (map_option (trie_hash H) m) loader) = Some (Inr (), ed)
    \<and> run_calls H ys (editor_new (map_option (trie_hash H) m') loader') = Some (Inr (), ed')
    \<and> ed_root ed = ed_root ed'"
proof -
  have "trie_calls H xs m = trie_calls H ys m'"
    unfolding trie_calls_def using assms(1,3,5)
    by (intro root_trie.edits_confluent) (simp_all add: map_object_def map_calls_def)
  then show ?thesis
    using session_represents [OF assms(1,2)] session_represents [OF assms(3,4)]
    unfolding represents_def by metis
qed

text \<open>C12: Editing a stored map incrementally and rebuilding it from its records give the same
  root: \<open>build_manifest_map\<close> on the records of the resulting map, in any order, returns the
  root the session ends with.\<close>

theorem incremental_equals_rebuild:
  assumes "map_object H loader m" and "collision_free H (session_nodes H xs m)"
    and "map_calls H xs (option_map m) = map_of (keyed H rs)"
    and "distinct (map fst (keyed H rs))" and "rs \<noteq> []"
    and "collision_free H (session_nodes H (map Upsert (sort_key record_id_key rs)) None)"
  shows "\<exists>ed root objects. run_calls H xs (editor_new (map_option (trie_hash H) m) loader) = Some (Inr (), ed)
    \<and> ed_root ed = Some root \<and> build_manifest_map H rs = Some (Inr (root, objects))"
proof -
  have final: "pred_option trie_ok (trie_calls H xs m)" "option_map (trie_calls H xs m) = map_of (keyed H rs)"
    using option_map_calls [of m H xs] assms(1,3) by (simp_all add: map_object_def)
  have "map_of (keyed H rs) \<noteq> Map.empty"
    using assms(5) by (cases rs) (auto simp: keyed_def fun_eq_iff)
  then obtain t where t: "trie_calls H xs m = Some t"
    using final by (cases "trie_calls H xs m") (simp_all add: option_map_def)
  have "trie_ok t" "trie_map t = map_of (keyed H rs)"
    using final t by (simp_all add: option_map_def)
  from build_root [OF assms(4,5,6) this] show ?thesis
    using session_represents [OF assms(1,2)] t unfolding represents_def by fastforce
qed

text \<open>C10: The objects a finished session returns complete the store: the store extended by them
  has every node of the new map, nothing but nodes of the new map is returned, and an editor
  opened on the returned root looks up exactly the edited map. A session that removes every
  record cannot be finished.\<close>

theorem finish_publishes_map:
  assumes "map_object H loader m" and "collision_free H (session_nodes H xs m)" and "list_all call_ok xs"
  shows "\<exists>ed. run_calls H xs (editor_new (map_option (trie_hash H) m) loader) = Some (Inr (), ed)
    \<and> (if map_calls H xs (option_map m) = Map.empty
       then finish H ed = (Inl (Reject ''manifest map cannot finish empty''), ed)
       else \<exists>t objects ed'. finish H ed = (Inr (trie_hash H t, objects), ed')
         \<and> trie_map t = map_calls H xs (option_map m)
         \<and> map_object H (overlay objects loader) (Some t)
         \<and> fst ` set objects \<subseteq> address H ` trie_nodes H t
         \<and> (\<forall>i. \<exists>ed''. lookup H i (editor_new (Some (trie_hash H t)) (overlay objects loader))
              = Some (Inr (map_calls H xs (option_map m) (manifest_key H i)), ed'')))"
proof -
  let ?S = "session_nodes H xs m" and ?M = "map_calls H xs (option_map m)"
  obtain ed where ed: "run_calls H xs (editor_new (map_option (trie_hash H) m) loader) = Some (Inr (), ed)"
    "ed_loader ed = loader" "represents H ?S ed (trie_calls H xs m)"
    using session_represents [OF assms(1,2)] by blast
  have final: "pred_option trie_ok (trie_calls H xs m)" "option_map (trie_calls H xs m) = ?M"
    using option_map_calls [of m H xs] assms(1) by (simp_all add: map_object_def)
  show ?thesis
  proof (cases "trie_calls H xs m")
    case None
    then have "?M = Map.empty" "ed_root ed = None"
      using final ed(3) by (simp_all add: option_map_def represents_def)
    then show ?thesis using ed(1) by (simp add: finish_def)
  next
    case (Some t)
    then have t: "trie_ok t" "trie_map t = ?M" "represents H ?S ed (Some t)" "trie_nodes H t \<subseteq> ?S"
      using final ed(3) session_nodes_final [of H xs m] by (simp_all add: option_map_def root_nodes_def)
    obtain objects ed' where f: "finish H ed = (Inr (trie_hash H t, objects), ed')"
      "\<forall>n \<in> trie_nodes H t. overlay objects loader (address H n) = Inr (node_bytes n)"
      "fst ` set objects \<subseteq> address H ` trie_nodes H t"
      using finish_represents [OF assms(2) t(3)] ed(2) by auto
    have "map_valid H (trie_map t)"
      using map_valid_calls [OF map_object_valid [OF assms(1)] assms(3)] t(2) by simp
    then have mo: "map_object H (overlay objects loader) (Some t)"
      using f(2) nodes_ok [OF assms(2) t(1,4)] t(1) by (simp add: map_object_def root_nodes_def)
    have "represents H ?S (editor_new (Some (trie_hash H t)) (overlay objects loader)) (Some t)"
      using open_represents [OF mo assms(2)] t(4) by (simp add: root_nodes_def)
    from lookup_represents [OF this] have
      "\<exists>ed''. lookup H i (editor_new (Some (trie_hash H t)) (overlay objects loader)) = Some (Inr (?M (manifest_key H i)), ed'')" for i
      using t(2) by (simp add: option_map_def)
    moreover have "?M \<noteq> Map.empty" using trie_key_ex [of t] t(2) by auto
    ultimately show ?thesis using ed(1) f(1,3) t(2) mo by auto
  qed
qed


text \<open>C34: The strict decoder of map nodes accepts exactly the encodings of well-formed nodes: a
  leaf under the key of its node id with a canonical record, or a branch on one of the 256 key
  bits whose prefix is zero from that bit on and whose children differ.\<close>

theorem manifest_node_codec:
  "decode_node H bs = Inr n \<longleftrightarrow> encode_node n = Inr bs \<and> node_ok H n"
  by (rule decode_node_iff)

section \<open>Concrete sessions\<close>

definition ex_hash :: "bytes \<Rightarrow> hash32" where
  "ex_hash bs = digest (if length bs = 1 then hd bs else if bs ! 31 = 1 then 200 else bs ! 32 + 100)"

definition ex_record :: "byte \<Rightarrow> manifest_record" where
  "ex_record b = \<lparr>mr_entry = manifest_entry_bare (mk_str [b]) (mk_str []) (mk_str []) Symlink (digest b), mr_children = []\<rparr>"

definition ex_trie :: trie where
  "ex_trie = TBranch 1 (canonical_prefix (digest 33) 1) (TLeaf (digest 33) (ex_record 33)) (TLeaf (digest 65) (ex_record 65))"

lemma bit_at_digest: "i < 256 \<Longrightarrow> bit_at (digest x) i = drop_bit (7 - i mod 8) x AND 1"
  by (simp add: bit_at_def)

lemma ex_bits [simp]:
  "bit_at (digest 33) 0 = 0" "bit_at (digest 65) 0 = 0" "bit_at (digest 33) (Suc 0) = 0" "bit_at (digest 65) (Suc 0) \<noteq> 0"
  by (simp_all add: bit_at_digest)

lemma ex_key [simp]: "b < 0x80 \<Longrightarrow> manifest_key ex_hash (mk_str [b]) = digest b"
  by (simp add: manifest_key_def ex_hash_def)

lemma ex_node_id [simp]: "mr_node_id (ex_record b) = mk_str [b]"
  by (simp add: mr_node_id_def ex_record_def manifest_entry_bare_def)

lemma ex_record_encode: "b < 0x80 \<Longrightarrow> \<exists>bs. encode_record (ex_record b) = Inr bs"
  by (simp add: encode_record_def ex_record_def manifest_entry_bare_def push_len_prefixed_def push_version_metas_def)

lemma ex_record_ok: "b < 0x80 \<Longrightarrow> record_ok (ex_record b)"
  by (simp add: record_ok_def children_ok_def ex_record_def manifest_entry_bare_def str_empty_def)

lemma node_magic_length: "length NODE_MAGIC = 31"
  by (simp add: NODE_MAGIC_def)

lemma ex_leaf:
  assumes "b < 0x80"
  shows "encodable (Leaf (digest b) (ex_record b))" "address ex_hash (Leaf (digest b) (ex_record b)) = digest (b + 100)"
proof -
  obtain bs where "encode_record (ex_record b) = Inr bs" using ex_record_encode [OF assms] by blast
  then have e: "encode_node (Leaf (digest b) (ex_record b)) = Inr (NODE_MAGIC @ 0 # replicate 32 b @ bs)"
    by (simp add: encode_node_def NODE_LEAF_def)
  then show "encodable (Leaf (digest b) (ex_record b))"
    by (simp add: encodable_def node_bytes_def)
  show "address ex_hash (Leaf (digest b) (ex_record b)) = digest (b + 100)"
    using e by (simp add: address_def node_bytes_def ex_hash_def nth_append node_magic_length)
qed

lemma ex_branch: "encodable (Branch i p l r)" "address ex_hash (Branch i p l r) = digest 200"
proof -
  have e: "encode_node (Branch i p l r) = Inr (NODE_MAGIC @ 1 # le16 i @ as_bytes p @ as_bytes l @ as_bytes r)"
    by (simp add: encode_node_def NODE_BRANCH_def)
  then show "encodable (Branch i p l r)" by (simp add: encodable_def node_bytes_def)
  show "address ex_hash (Branch i p l r) = digest 200"
    using e by (simp add: address_def node_bytes_def ex_hash_def nth_append node_magic_length)
qed

lemma ex_trie_nodes:
  "trie_nodes ex_hash ex_trie = {Branch 1 (canonical_prefix (digest 33) 1) (digest 133) (digest 165),
     Leaf (digest 33) (ex_record 33), Leaf (digest 65) (ex_record 65)}"
  using ex_leaf(2) [of 33] ex_leaf(2) [of 65] by (auto simp: ex_trie_def)

lemma ex_collision_free: "collision_free ex_hash (trie_nodes ex_hash ex_trie)"
  unfolding collision_free_def ex_trie_nodes
  using ex_leaf [of 33] ex_leaf [of 65] by (auto simp: ex_branch inj_on_def)

lemma collision_free_mono: "collision_free H S \<Longrightarrow> T \<subseteq> S \<Longrightarrow> collision_free H T"
  by (auto simp: collision_free_def inj_on_def)

lemma ex_insert: "trie_insert (digest 33) (ex_record 33) (TLeaf (digest 65) (ex_record 65)) = ex_trie"
    "trie_insert (digest 65) (ex_record 65) (TLeaf (digest 33) (ex_record 33)) = ex_trie"
proof -
  have d: "first_differing_bit (digest 65) (digest 33) = Some 1"
    unfolding first_differing_bit_Some by simp
  show one: "trie_insert (digest 33) (ex_record 33) (TLeaf (digest 65) (ex_record 65)) = ex_trie"
    by (simp add: d trie_branch_def ex_trie_def)
  have "root_insert (digest 65) (ex_record 65) (root_insert (digest 33) (ex_record 33) None)
      = root_insert (digest 33) (ex_record 33) (root_insert (digest 65) (ex_record 65) None)"
    by (rule root_trie.update_commute) simp_all
  then show "trie_insert (digest 65) (ex_record 65) (TLeaf (digest 33) (ex_record 33)) = ex_trie"
    using one by (simp add: root_insert_def)
qed

lemma ex_remove: "trie_remove (digest 65) ex_trie = Some (TLeaf (digest 33) (ex_record 33))"
  by (simp add: ex_trie_def prefix_matches_iff bit_at_canonical_prefix)

lemma ex_leaf_nodes: "root_nodes ex_hash (Some (TLeaf (digest 33) (ex_record 33))) \<subseteq> trie_nodes ex_hash ex_trie"
  "root_nodes ex_hash (Some (TLeaf (digest 65) (ex_record 65))) \<subseteq> trie_nodes ex_hash ex_trie"
  by (simp_all add: ex_trie_nodes root_nodes_def)

lemma ex_session:
  "session_nodes ex_hash [Upsert (ex_record 65), Upsert (ex_record 33), Remove (mk_str [65])] None \<subseteq> trie_nodes ex_hash ex_trie"
  "session_nodes ex_hash [Upsert (ex_record 65), Upsert (ex_record 33)] None \<subseteq> trie_nodes ex_hash ex_trie"
  "session_nodes ex_hash [Upsert (ex_record 33), Upsert (ex_record 65)] None \<subseteq> trie_nodes ex_hash ex_trie"
  using ex_leaf_nodes
  by (simp_all add: root_insert_def root_remove_def ex_insert ex_remove root_nodes_def del: trie_insert.simps)

lemmas ex_sessions_collision_free = ex_session [THEN collision_free_mono [OF ex_collision_free]]

lemma ex_empty_object: "map_object ex_hash absent_loader None"
  by (simp add: map_object_def root_nodes_def)

theorem manifest_editor_refines_map_witness:
  "\<exists>ed. run_calls ex_hash [Upsert (ex_record 65), Upsert (ex_record 33)] (editor_new None absent_loader) = Some (Inr (), ed)
    \<and> (\<exists>ed'. lookup ex_hash (mk_str [33]) ed = Some (Inr (Some (ex_record 33)), ed'))
    \<and> (\<exists>ed'. lookup ex_hash (mk_str [66]) ed = Some (Inr None, ed'))
    \<and> (\<exists>ed'. remove ex_hash (mk_str [65]) ed = Some (Inr True, ed'))"
proof -
  let ?xs = "[Upsert (ex_record 65), Upsert (ex_record 33)]"
  have "map_calls ex_hash ?xs (option_map None) = [digest 65 \<mapsto> ex_record 65, digest 33 \<mapsto> ex_record 33]"
    by (simp add: map_calls_def option_map_def)
  then have m: "map_calls ex_hash ?xs (option_map None) (digest 33) = Some (ex_record 33)"
    "map_calls ex_hash ?xs (option_map None) (digest 66) = None"
    "map_calls ex_hash ?xs (option_map None) (digest 65) \<noteq> None"
    by simp_all
  have "collision_free ex_hash (session_nodes ex_hash (?xs @ [Remove (mk_str [65])]) None)"
    using ex_sessions_collision_free(1) by simp
  from manifest_editor_refines_map [OF ex_empty_object this] obtain ed where
    "run_calls ex_hash ?xs (editor_new None absent_loader) = Some (Inr (), ed)"
    and l: "\<forall>i. \<exists>ed'. lookup ex_hash i ed = Some (Inr (map_calls ex_hash ?xs (option_map None) (manifest_key ex_hash i)), ed')"
    and "\<exists>ed'. remove ex_hash (mk_str [65]) ed = Some (Inr (map_calls ex_hash ?xs (option_map None) (manifest_key ex_hash (mk_str [65])) \<noteq> None), ed')"
    by auto
  moreover from l have "\<exists>ed'. lookup ex_hash (mk_str [33]) ed = Some (Inr (map_calls ex_hash ?xs (option_map None) (manifest_key ex_hash (mk_str [33]))), ed')"
    "\<exists>ed'. lookup ex_hash (mk_str [66]) ed = Some (Inr (map_calls ex_hash ?xs (option_map None) (manifest_key ex_hash (mk_str [66]))), ed')"
    by blast+
  ultimately show ?thesis
    using m by (intro exI [of _ ed]) simp
qed

theorem manifest_root_history_independent_witness:
  "\<exists>ed ed'. run_calls ex_hash [Upsert (ex_record 65), Upsert (ex_record 33)] (editor_new None absent_loader) = Some (Inr (), ed)
    \<and> run_calls ex_hash [Upsert (ex_record 33), Upsert (ex_record 65)] (editor_new None absent_loader) = Some (Inr (), ed')
    \<and> ed_root ed = ed_root ed'"
proof -
  have "map_calls ex_hash [Upsert (ex_record 65), Upsert (ex_record 33)] (option_map None)
      = map_calls ex_hash [Upsert (ex_record 33), Upsert (ex_record 65)] (option_map None)"
    by (simp add: map_calls_def option_map_def fun_upd_twist)
  from manifest_root_history_independent [OF ex_empty_object ex_sessions_collision_free(2)
      ex_empty_object ex_sessions_collision_free(3) this]
  show ?thesis by simp
qed

lemma ex_sorted: "sort_key record_id_key [ex_record 65, ex_record 33] = [ex_record 33, ex_record 65]"
  by (simp add: record_id_key_def)

theorem incremental_equals_rebuild_witness:
  "\<exists>ed root objects. run_calls ex_hash [Upsert (ex_record 65), Upsert (ex_record 33)] (editor_new None absent_loader) = Some (Inr (), ed)
    \<and> ed_root ed = Some root \<and> build_manifest_map ex_hash [ex_record 65, ex_record 33] = Some (Inr (root, objects))"
proof -
  let ?xs = "[Upsert (ex_record 65), Upsert (ex_record 33)]"
  have d: "distinct (map fst (keyed ex_hash [ex_record 65, ex_record 33]))"
    by (simp add: keyed_def)
  have m: "map_calls ex_hash ?xs (option_map None) = map_of (keyed ex_hash [ex_record 65, ex_record 33])"
    using map_calls_upserts [OF d, of Map.empty] by (simp add: option_map_def)
  have cf: "collision_free ex_hash (session_nodes ex_hash (map Upsert (sort_key record_id_key [ex_record 65, ex_record 33])) None)"
    unfolding ex_sorted using ex_sessions_collision_free(3) by simp
  show ?thesis
    using incremental_equals_rebuild [OF ex_empty_object ex_sessions_collision_free(2) m d _ cf] by simp
qed

theorem finish_publishes_map_witness:
  "\<exists>ed t objects ed'. run_calls ex_hash [Upsert (ex_record 65), Upsert (ex_record 33)] (editor_new None absent_loader) = Some (Inr (), ed)
    \<and> finish ex_hash ed = (Inr (trie_hash ex_hash t, objects), ed')
    \<and> map_object ex_hash (overlay objects absent_loader) (Some t)"
proof -
  let ?xs = "[Upsert (ex_record 65), Upsert (ex_record 33)]"
  have ok: "list_all call_ok ?xs" by (simp add: call_ok_def ex_record_ok)
  have "map_calls ex_hash ?xs (option_map None) (digest 65) \<noteq> None"
    by (simp add: map_calls_def option_map_def)
  then have "map_calls ex_hash ?xs (option_map None) \<noteq> Map.empty" by metis
  then show ?thesis
    using finish_publishes_map [OF ex_empty_object ex_sessions_collision_free(2) ok] by auto
qed

definition ex_hash2 :: "bytes \<Rightarrow> hash32" where
  "ex_hash2 bs = (if bs = node_bytes (Leaf (digest 0) (ex_record 65)) then digest 9 else digest 0)"


end
