(* ===== verification/PrefixCode.thy ===== *)
theory PrefixCode
  imports ContentTree
begin

text \<open>
  Formats that are only written and hashed, never decoded: the preimages of logical leaves
  and schemas. The locale \<open>prefix_code\<close> is the contract a hash preimage needs: the bytes of
  one value are never a prefix of the bytes of another, and they determine the value up to
  the normalisation \<open>canon\<close>. The combinators follow the way the encoders are composed.
\<close>

locale prefix_code =
  fixes enc :: "'a \<Rightarrow> error + bytes" and canon :: "'a \<Rightarrow> 'b"
  assumes unambiguous: "enc v = Inr a \<Longrightarrow> enc w = Inr b \<Longrightarrow> a @ r = b @ s \<Longrightarrow> canon v = canon w \<and> a = b"
begin

lemma determined: "enc v = Inr a \<Longrightarrow> enc w = Inr a \<Longrightarrow> canon v = canon w"
  using unambiguous [of v a w a "[]" "[]"] by simp

text \<open>Lists of the same length need no separators.\<close>

lemma unambiguous_list:
  "pushes (map enc vs) = Inr a \<Longrightarrow> pushes (map enc ws) = Inr b \<Longrightarrow> length vs = length ws \<Longrightarrow>
    a @ r = b @ s \<Longrightarrow> map canon vs = map canon ws \<and> a = b"
proof (induction vs arbitrary: ws a b)
  case (Cons v vs)
  obtain w ws' where ws: "ws = w # ws'"
    using Cons.prems(3) by (cases ws) auto
  obtain a1 a2 b1 b2 where p: "enc v = Inr a1" "pushes (map enc vs) = Inr a2" "a = a1 @ a2"
      "enc w = Inr b1" "pushes (map enc ws') = Inr b2" "b = b1 @ b2"
    using Cons.prems(1,2) by (auto simp: ws)
  have 1: "canon v = canon w" "a1 = b1"
    using unambiguous [OF p(1,4), of "a2 @ r" "b2 @ s"] Cons.prems(4) p(3,6) by auto
  then have "a2 @ r = b2 @ s"
    using Cons.prems(4) p(3,6) by simp
  with Cons.IH [OF p(2,5)] Cons.prems(3) 1 p(3,6) show ?case
    by (simp add: ws)
qed simp

end

text \<open>A format with a decoder is a prefix code.\<close>

sublocale codec \<subseteq> code: prefix_code enc "\<lambda>v. v"
proof
  fix v w a b r s
  assume "enc v = Inr a" "enc w = Inr b" "a @ r = b @ s"
  moreover from this have "v = w" by (rule prefix_free)
  ultimately show "v = w \<and> a = b" by simp
qed

section \<open>Combinators\<close>

lemma prefix_code_weaken:
  "prefix_code enc c \<Longrightarrow> (\<And>v w. c v = c w \<Longrightarrow> d v = d w) \<Longrightarrow> prefix_code enc d"
  unfolding prefix_code_def by blast

lemma prefix_code_vimage: "prefix_code enc c \<Longrightarrow> prefix_code (\<lambda>v. enc (f v)) (\<lambda>v. c (f v))"
  unfolding prefix_code_def by blast

lemma prefix_code_const: "prefix_code (\<lambda>v. Inr bs) (\<lambda>v. ())"
  by unfold_locales auto

lemma prefix_code_Nil: "prefix_code (\<lambda>v. pushes []) (\<lambda>v. ())"
  by unfold_locales auto

lemma prefix_code_Cons:
  assumes "prefix_code e c" and "prefix_code (\<lambda>v. pushes (es v)) d"
  shows "prefix_code (\<lambda>v. pushes (e v # es v)) (\<lambda>v. (c v, d v))"
proof
  fix v w a b r s
  assume "pushes (e v # es v) = Inr a" "pushes (e w # es w) = Inr b" and eq: "a @ r = b @ s"
  then obtain a1 a2 b1 b2 where p: "e v = Inr a1" "pushes (es v) = Inr a2" "a = a1 @ a2"
      "e w = Inr b1" "pushes (es w) = Inr b2" "b = b1 @ b2"
    by auto
  have 1: "c v = c w \<and> a1 = b1"
    using prefix_code.unambiguous [OF assms(1) p(1,4), of "a2 @ r" "b2 @ s"] eq p(3,6) by simp
  moreover have "d v = d w \<and> a2 = b2"
    using prefix_code.unambiguous [OF assms(2) p(2,5), of r s] eq p(3,6) 1 by simp
  ultimately show "(c v, d v) = (c w, d w) \<and> a = b"
    using p(3,6) by simp
qed

lemma prefix_code_counted:
  assumes "prefix_code enc c"
  shows "prefix_code (\<lambda>vs. pushes [push_count (length vs), pushes (map enc vs)]) (map c)"
proof
  fix vs ws a b r s
  assume "pushes [push_count (length vs), pushes (map enc vs)] = Inr a"
    and "pushes [push_count (length ws), pushes (map enc ws)] = Inr b" and eq: "a @ r = b @ s"
  then obtain a2 b2 where p: "length vs \<le> u32_max" "length ws \<le> u32_max"
      "pushes (map enc vs) = Inr a2" "pushes (map enc ws) = Inr b2"
      "a = le32 (of_nat (length vs)) @ a2" "b = le32 (of_nat (length ws)) @ b2"
    by auto
  have "le32 (of_nat (length vs)) = le32 (of_nat (length ws)) \<and> a2 @ r = b2 @ s"
    using eq unfolding p(5,6) append_assoc by (subst (asm) append_eq_append_conv) auto
  then have "unat (of_nat (length vs) :: u32) = unat (of_nat (length ws) :: u32)" and r: "a2 @ r = b2 @ s"
    using un_le_le(2) by (metis, simp)
  then have "length vs = length ws"
    using p(1,2) by (simp only: unat_of_nat_le)
  with prefix_code.unambiguous_list [OF assms p(3,4) _ r] show "map c vs = map c ws \<and> a = b"
    by (simp add: p(5,6))
qed

lemma prefix_code_flagged:
  assumes "prefix_code enc c"
  shows "prefix_code (push_flagged enc) (map_option c)"
proof
  fix v w a b r s
  assume v: "push_flagged enc v = Inr a" and w: "push_flagged enc w = Inr b" and eq: "a @ r = b @ s"
  show "map_option c v = map_option c w \<and> a = b"
  proof (cases v; cases w)
    fix x y
    assume xy: "v = Some x" "w = Some y"
    then obtain a2 b2 where "enc x = Inr a2" "enc y = Inr b2" "a = 1 # a2" "b = 1 # b2"
      using v w by (auto simp: push_flagged_def)
    then show ?thesis
      using prefix_code.unambiguous [OF assms, of x a2 y b2 r s] eq xy by simp
  qed (use v w eq in \<open>auto simp: push_flagged_def\<close>)
qed

section \<open>The field encoders\<close>

interpretation len_prefixed: codec push_len_prefixed take_len_prefixed
  by unfold_locales (rule take_len_prefixed_iff)

interpretation u64_field: codec "\<lambda>w. Inr (le64 w)" take_u64
  by unfold_locales simp

interpretation hash_field: codec "\<lambda>h. Inr (as_bytes h)" take_hash
  by unfold_locales simp

interpretation u8_field: codec "\<lambda>b. Inr [b]" take_u8
  by unfold_locales simp

lemma prefix_code_string: "prefix_code (\<lambda>s. push_len_prefixed (str_bytes s)) (\<lambda>s. s)"
  by (rule prefix_code_weaken [OF prefix_code_vimage [OF len_prefixed.code.prefix_code_axioms]]) simp

lemma prefix_code_len_prefixed_u64: "prefix_code push_len_prefixed_u64 (\<lambda>bs. bs)"
proof
  fix v w a b r s
  assume p: "push_len_prefixed_u64 v = Inr a" "push_len_prefixed_u64 w = Inr b" and eq: "a @ r = b @ s"
  have len: "length v \<le> u64_max" "length w \<le> u64_max"
      and ab: "a = le64 (of_nat (length v)) @ v" "b = le64 (of_nat (length w)) @ w"
    using p by (auto simp: push_len_prefixed_u64_def split: if_splits)
  have "le64 (of_nat (length v)) = le64 (of_nat (length w)) \<and> v @ r = w @ s"
    using eq unfolding ab append_assoc by (subst (asm) append_eq_append_conv) auto
  then have "unat (of_nat (length v) :: u64) = unat (of_nat (length w) :: u64)" and r: "v @ r = w @ s"
    using un_le_le(3) by (metis, simp)
  then have "length v = length w"
    using len by (simp only: unat_of_nat_le)
  with r show "v = w \<and> a = b" by (simp add: ab)
qed

section \<open>Event-time bounds\<close>

text \<open>
  The presence byte of the two optional bounds, then the bounds: the same lines in the leaf
  preimage, the series manifest and the pack descriptor.
\<close>

definition LEAF_HAS_MIN :: byte where "LEAF_HAS_MIN = 0x01"
definition LEAF_HAS_MAX :: byte where "LEAF_HAS_MAX = 0x02"
definition KNOWN_BOUNDS_FLAGS :: byte where "KNOWN_BOUNDS_FLAGS = LEAF_HAS_MIN OR LEAF_HAS_MAX"

definition push_bounds :: "i64 option \<Rightarrow> i64 option \<Rightarrow> error + bytes" where
  "push_bounds mn mx =
     (let flags = 0 OR flag_if mn LEAF_HAS_MIN OR flag_if mx LEAF_HAS_MAX
      in pushes [Inr [flags], push_opt_i64 mn, push_opt_i64 mx])"

definition take_bounds :: "string \<Rightarrow> (i64 option \<times> i64 option) dec" where
  "take_bounds msg =
     dec_bind take_u8 (\<lambda>flags.
     dec_bind (dec_lift (require (flags AND NOT KNOWN_BOUNDS_FLAGS = 0) (Reject msg))) (\<lambda>_.
     dec_bind (take_if (flags AND LEAF_HAS_MIN \<noteq> 0) take_i64) (\<lambda>mn.
     dec_bind (take_if (flags AND LEAF_HAS_MAX \<noteq> 0) take_i64) (\<lambda>mx.
       dec_return (mn, mx)))))"

lemma and_not_3:
  fixes f :: byte
  shows "f AND NOT 3 = 0 \<longleftrightarrow> f AND NOT 15 = 0 \<and> f AND 4 = 0 \<and> f AND 8 = 0"
proof -
  have 3: "(3 :: byte) = mask 2" and 15: "(15 :: byte) = mask 4"
    by (simp_all add: mask_eq_exp_minus_1)
  have b8: "n < 8" if "bit f n" for n
    using bit_imp_le_length [OF that] by simp
  have "f AND NOT (mask 2) = 0 \<longleftrightarrow> (\<forall>n. bit f n \<longrightarrow> n < 2)"
       "f AND NOT (mask 4) = 0 \<longleftrightarrow> (\<forall>n. bit f n \<longrightarrow> n < 4)"
    using b8 by (auto simp: bit_eq_iff bit_simps)
  moreover have "(\<forall>n. bit f n \<longrightarrow> n < 2) \<longleftrightarrow> (\<forall>n. bit f n \<longrightarrow> n < 4) \<and> \<not> bit f 2 \<and> \<not> bit f 3"
  proof (intro iffI allI impI conjI)
    fix n
    assume "(\<forall>n. bit f n \<longrightarrow> n < 4) \<and> \<not> bit f 2 \<and> \<not> bit f 3" and n: "bit f n"
    then have "n < 4" "n \<noteq> 2" "n \<noteq> 3" by auto
    then show "n < 2" by linarith
  qed force+
  ultimately show ?thesis
    unfolding 3 15 and_flag_bit by simp
qed

lemma bounds_flags_iff:
  "u = (0 OR flag_if mn LEAF_HAS_MIN OR flag_if mx LEAF_HAS_MAX) \<longleftrightarrow>
     u AND NOT KNOWN_BOUNDS_FLAGS = 0 \<and> agree (u AND LEAF_HAS_MIN \<noteq> 0) mn \<and> agree (u AND LEAF_HAS_MAX \<noteq> 0) mx"
proof -
  have k: "KNOWN_BOUNDS_FLAGS = 3"
    by (simp add: KNOWN_BOUNDS_FLAGS_def LEAF_HAS_MIN_def LEAF_HAS_MAX_def)
  have eq: "(0 OR flag_if mn LEAF_HAS_MIN OR flag_if mx LEAF_HAS_MAX) = meta_flags (mn \<noteq> None) (mx \<noteq> None) False False"
    by (cases mn; cases mx; simp add: flag_if_def meta_flags_def LEAF_HAS_MIN_def LEAF_HAS_MAX_def)
  show ?thesis
    unfolding eq meta_flags_iff unfolding k LEAF_HAS_MIN_def LEAF_HAS_MAX_def agree_def and_not_3 by blast
qed

lemma take_bounds_iff:
  "take_bounds msg c = Inr (b, c') \<longleftrightarrow> writes (push_bounds (fst b) (snd b)) c c'"
proof -
  obtain mn mx where b: "b = (mn, mx)" by (cases b)
  have one: "eats c [v] c1 \<longleftrightarrow> (\<exists>u. u = v \<and> eats c [u] c1)" for v c1 by simp
  show ?thesis
    unfolding take_bounds_def push_bounds_def b Let_def fst_conv snd_conv
      dec_bind_iff dec_lift_iff require_eq_Inr dec_return_iff take_if_i64 take_u8_iff prod.inject writes_simps
    apply (subst (2) one)
    unfolding bounds_flags_iff
    by (rule iffI, (clarify, intro exI conjI, (assumption | rule refl)+)+)
qed

interpretation bounds: codec "\<lambda>b. push_bounds (fst b) (snd b)" "take_bounds msg" for msg
  by unfold_locales (rule take_bounds_iff)

text \<open>\<open>match attributes { Some(a) => push_len_prefixed(a), None => push_len_prefixed(&[]) }\<close>.\<close>

definition push_attributes :: "bytes option \<Rightarrow> error + bytes" where
  "push_attributes attrs = push_len_prefixed (case attrs of Some a \<Rightarrow> a | None \<Rightarrow> [])"

definition take_attributes :: "bytes option dec" where
  "take_attributes = dec_bind take_len_prefixed (\<lambda>bs. dec_return (if bs = [] then None else Some bs))"

lemma take_attributes_iff:
  "take_attributes c = Inr (attrs, c') \<longleftrightarrow> attrs \<noteq> Some [] \<and> writes (push_attributes attrs) c c'"
  by (cases attrs) (auto simp: take_attributes_def push_attributes_def split: if_splits)

end
