(* ===== verification/SeriesSchema.thy ===== *)
theory SeriesSchema
  imports PrefixCode
begin

text \<open>
  Canonical schemas of a logical table series, from \<open>content/series_leaf.rs\<close>. Arrow's types
  are data: a schema is its fields in order and its metadata. Hash maps are association lists
  in their iteration order.
\<close>

section \<open>Types\<close>

definition SCHEMA_MAGIC :: bytes where "SCHEMA_MAGIC = ascii ''watertown.series-schema.v1'' @ [10]"

definition TAG_BOOLEAN :: byte where "TAG_BOOLEAN = 0"
definition TAG_INT8 :: byte where "TAG_INT8 = 1"
definition TAG_INT16 :: byte where "TAG_INT16 = 2"
definition TAG_INT32 :: byte where "TAG_INT32 = 3"
definition TAG_INT64 :: byte where "TAG_INT64 = 4"
definition TAG_UINT8 :: byte where "TAG_UINT8 = 5"
definition TAG_UINT16 :: byte where "TAG_UINT16 = 6"
definition TAG_UINT32 :: byte where "TAG_UINT32 = 7"
definition TAG_UINT64 :: byte where "TAG_UINT64 = 8"
definition TAG_FLOAT32 :: byte where "TAG_FLOAT32 = 9"
definition TAG_FLOAT64 :: byte where "TAG_FLOAT64 = 10"
definition TAG_UTF8 :: byte where "TAG_UTF8 = 11"
definition TAG_LARGE_UTF8 :: byte where "TAG_LARGE_UTF8 = 12"
definition TAG_BINARY :: byte where "TAG_BINARY = 13"
definition TAG_LARGE_BINARY :: byte where "TAG_LARGE_BINARY = 14"
definition TAG_DATE32 :: byte where "TAG_DATE32 = 15"
definition TAG_TIMESTAMP :: byte where "TAG_TIMESTAMP = 16"
definition TAG_DECIMAL128 :: byte where "TAG_DECIMAL128 = 17"

lemmas data_type_tags = TAG_BOOLEAN_def TAG_INT8_def TAG_INT16_def TAG_INT32_def TAG_INT64_def
  TAG_UINT8_def TAG_UINT16_def TAG_UINT32_def TAG_UINT64_def TAG_FLOAT32_def TAG_FLOAT64_def
  TAG_UTF8_def TAG_LARGE_UTF8_def TAG_BINARY_def TAG_LARGE_BINARY_def TAG_DATE32_def
  TAG_TIMESTAMP_def TAG_DECIMAL128_def

datatype time_unit = Second | Millisecond | Microsecond | Nanosecond

text \<open>The variants of \<open>DataType\<close> the source names; \<open>Other\<close> is any variant it does not.\<close>

datatype data_type =
    Boolean | Int8 | Int16 | Int32 | Int64 | UInt8 | UInt16 | UInt32 | UInt64
  | Float32 | Float64 | Utf8 | LargeUtf8 | Binary | LargeBinary | Date32
  | Timestamp time_unit "rstring option"
  | Decimal128 byte byte
  | Dictionary data_type data_type
  | Other string

fun canonical_data_type :: "data_type \<Rightarrow> error + data_type" where
  "canonical_data_type (Dictionary key v) = canonical_data_type v"
| "canonical_data_type (Other n) = Inl (Reject ''unsupported canonical series type'')"
| "canonical_data_type dt = Inr dt"

definition time_unit_byte :: "time_unit \<Rightarrow> byte" where
  "time_unit_byte u = (case u of Second \<Rightarrow> 0 | Millisecond \<Rightarrow> 1 | Microsecond \<Rightarrow> 2 | Nanosecond \<Rightarrow> 3)"

definition encode_resolved_data_type :: "data_type \<Rightarrow> error + bytes" where
  "encode_resolved_data_type dt =
    (case dt of
       Boolean \<Rightarrow> Inr [TAG_BOOLEAN]
     | Int8 \<Rightarrow> Inr [TAG_INT8]
     | Int16 \<Rightarrow> Inr [TAG_INT16]
     | Int32 \<Rightarrow> Inr [TAG_INT32]
     | Int64 \<Rightarrow> Inr [TAG_INT64]
     | UInt8 \<Rightarrow> Inr [TAG_UINT8]
     | UInt16 \<Rightarrow> Inr [TAG_UINT16]
     | UInt32 \<Rightarrow> Inr [TAG_UINT32]
     | UInt64 \<Rightarrow> Inr [TAG_UINT64]
     | Float32 \<Rightarrow> Inr [TAG_FLOAT32]
     | Float64 \<Rightarrow> Inr [TAG_FLOAT64]
     | Utf8 \<Rightarrow> Inr [TAG_UTF8]
     | LargeUtf8 \<Rightarrow> Inr [TAG_LARGE_UTF8]
     | Binary \<Rightarrow> Inr [TAG_BINARY]
     | LargeBinary \<Rightarrow> Inr [TAG_LARGE_BINARY]
     | Date32 \<Rightarrow> Inr [TAG_DATE32]
     | Timestamp unit tz \<Rightarrow> pushes
         [Inr [TAG_TIMESTAMP], Inr [time_unit_byte unit],
          push_flagged (\<lambda>tz. push_len_prefixed (str_bytes tz)) tz]
     | Decimal128 precision scale \<Rightarrow> Inr [TAG_DECIMAL128, precision, scale]
     | _ \<Rightarrow> Inl (Panic ''canonical_data_type never returns this''))"

section \<open>Schemas\<close>

type_synonym metadata = "(rstring \<times> rstring) list"

record field =
  fd_name :: rstring
  fd_data_type :: data_type
  fd_nullable :: bool
  fd_metadata :: metadata

record schema =
  sch_fields :: "field list"
  sch_metadata :: metadata

definition sorted_pairs :: "metadata \<Rightarrow> metadata" where
  "sorted_pairs md = sort_key (\<lambda>kv. str_bytes (fst kv)) md"

definition push_pair :: "rstring \<times> rstring \<Rightarrow> error + bytes" where
  "push_pair kv = pushes [push_len_prefixed (str_bytes (fst kv)), push_len_prefixed (str_bytes (snd kv))]"

definition encode_metadata :: "metadata \<Rightarrow> error + bytes" where
  "encode_metadata md =
    (let pairs = sorted_pairs md in pushes [push_count (length pairs), pushes (map push_pair pairs)])"

definition encode_field :: "field \<Rightarrow> error + bytes" where
  "encode_field f = pushes
    [push_len_prefixed (str_bytes (fd_name f)),
     Inr [if fd_nullable f then 1 else 0],
     res_bind (canonical_data_type (fd_data_type f)) encode_resolved_data_type,
     encode_metadata (fd_metadata f)]"

definition encode_canonical_schema_with_magic :: "schema \<Rightarrow> bytes \<Rightarrow> error + bytes" where
  "encode_canonical_schema_with_magic s magic = pushes
    [Inr magic,
     push_count (length (sch_fields s)),
     pushes (map encode_field (sch_fields s)),
     encode_metadata (sch_metadata s)]"

definition encode_canonical_schema :: "schema \<Rightarrow> error + bytes" where
  "encode_canonical_schema s = encode_canonical_schema_with_magic s SCHEMA_MAGIC"

definition schema_fingerprint_with_magic :: "(bytes \<Rightarrow> hash32) \<Rightarrow> schema \<Rightarrow> bytes \<Rightarrow> error + hash32" where
  "schema_fingerprint_with_magic blake3 s magic =
    res_bind (encode_canonical_schema_with_magic s magic) (\<lambda>bs. Inr (blake3 bs))"

definition schema_fingerprint :: "(bytes \<Rightarrow> hash32) \<Rightarrow> schema \<Rightarrow> error + hash32" where
  "schema_fingerprint blake3 s = schema_fingerprint_with_magic blake3 s SCHEMA_MAGIC"

definition canonicalize_field :: "field \<Rightarrow> error + field" where
  "canonicalize_field f =
    res_bind (canonical_data_type (fd_data_type f)) (\<lambda>resolved. Inr (f\<lparr>fd_data_type := resolved\<rparr>))"

definition canonicalize_schema :: "schema \<Rightarrow> error + schema" where
  "canonicalize_schema s =
    res_bind (res_map canonicalize_field (sch_fields s)) (\<lambda>fields.
      Inr \<lparr>sch_fields = fields, sch_metadata = sch_metadata s\<rparr>)"

section \<open>What a schema's bytes determine\<close>

lemma time_unit_byte_inj: "time_unit_byte u = time_unit_byte u' \<longleftrightarrow> u = u'"
  by (cases u; cases u'; simp add: time_unit_byte_def)

text \<open>The type that starts with a tag byte, for the types without parameters.\<close>

definition tagged :: "byte \<Rightarrow> data_type" where
  "tagged t = [Boolean, Int8, Int16, Int32, Int64, UInt8, UInt16, UInt32, UInt64, Float32, Float64,
     Utf8, LargeUtf8, Binary, LargeBinary, Date32] ! unat t"

lemma encode_resolved_cases:
  assumes "encode_resolved_data_type dt = Inr a"
  obtains (plain) t where "a = [t]" "dt = tagged t" "t < 16"
  | (timestamp) u z b where "dt = Timestamp u z" "a = 16 # time_unit_byte u # b"
      "push_flagged (\<lambda>tz. push_len_prefixed (str_bytes tz)) z = Inr b"
  | (decimal) p s where "dt = Decimal128 p s" "a = [17, p, s]"
  using assms
  by (cases dt) (auto simp: encode_resolved_data_type_def data_type_tags tagged_def)

interpretation resolved_type: prefix_code encode_resolved_data_type "\<lambda>dt. dt"
proof
  fix v w a b r s
  assume v: "encode_resolved_data_type v = Inr a" and w: "encode_resolved_data_type w = Inr b"
    and eq: "a @ r = b @ s"
  note tz = prefix_code.unambiguous [OF prefix_code_flagged [OF prefix_code_string]]
  from v show "v = w \<and> a = b"
  proof (cases rule: encode_resolved_cases)
    case (plain t)
    from w show ?thesis by (cases rule: encode_resolved_cases) (use plain eq in auto)
  next
    case (timestamp u z c)
    from w show ?thesis
    proof (cases rule: encode_resolved_cases)
      case (timestamp u' z' c')
      with \<open>a = _\<close> eq have "time_unit_byte u = time_unit_byte u'" "c @ r = c' @ s" by auto
      with tz [OF \<open>push_flagged _ z = _\<close> timestamp(3)] show ?thesis
        using timestamp \<open>v = _\<close> \<open>a = _\<close> by (simp add: time_unit_byte_inj option.map_ident)
    qed (use timestamp eq in auto)
  next
    case (decimal p q)
    from w show ?thesis by (cases rule: encode_resolved_cases) (use decimal eq in auto)
  qed
qed

interpretation field_type: prefix_code
  "\<lambda>dt. res_bind (canonical_data_type dt) encode_resolved_data_type" canonical_data_type
proof
  fix v w a b r s
  assume "res_bind (canonical_data_type v) encode_resolved_data_type = Inr a"
    "res_bind (canonical_data_type w) encode_resolved_data_type = Inr b" "a @ r = b @ s"
  then show "canonical_data_type v = canonical_data_type w \<and> a = b"
    using resolved_type.unambiguous by auto
qed

interpretation bool_field: prefix_code "\<lambda>b. Inr [if b then 1 else 0]" "\<lambda>b. b"
  by unfold_locales (auto split: if_splits)

interpretation pair: prefix_code push_pair "\<lambda>kv. kv"
  unfolding push_pair_def
  by (rule prefix_code_weaken [OF prefix_code_Cons [OF prefix_code_vimage [OF prefix_code_string, of fst]
        prefix_code_Cons [OF prefix_code_vimage [OF prefix_code_string, of snd] prefix_code_Nil]]])
    (auto simp: prod_eq_iff)

interpretation metadata: prefix_code encode_metadata sorted_pairs
  unfolding encode_metadata_def Let_def
  by (rule prefix_code_weaken [OF prefix_code_vimage [OF prefix_code_counted [OF pair.prefix_code_axioms]]]) simp

text \<open>A field up to the representation of its type and the order of its metadata.\<close>

definition field_canon :: "field \<Rightarrow> rstring \<times> bool \<times> (error + data_type) \<times> metadata" where
  "field_canon f = (fd_name f, fd_nullable f, canonical_data_type (fd_data_type f), sorted_pairs (fd_metadata f))"

interpretation field_code: prefix_code encode_field field_canon
  unfolding encode_field_def
  by (rule prefix_code_weaken [OF
        prefix_code_Cons [OF prefix_code_vimage [OF prefix_code_string, of fd_name]
        prefix_code_Cons [OF prefix_code_vimage [OF bool_field.prefix_code_axioms, of fd_nullable]
        prefix_code_Cons [OF prefix_code_vimage [OF field_type.prefix_code_axioms, of fd_data_type]
        prefix_code_Cons [OF prefix_code_vimage [OF metadata.prefix_code_axioms, of fd_metadata] prefix_code_Nil]]]]])
    (auto simp: field_canon_def)

interpretation schema_code: prefix_code "\<lambda>s. encode_canonical_schema_with_magic s magic"
    "\<lambda>s. (map field_canon (sch_fields s), sorted_pairs (sch_metadata s))" for magic
proof -
  have split: "encode_canonical_schema_with_magic s magic = Inr a \<longleftrightarrow> pushes
      [Inr magic, pushes [push_count (length (sch_fields s)), pushes (map encode_field (sch_fields s))],
       encode_metadata (sch_metadata s)] = Inr a" for s a
    unfolding encode_canonical_schema_with_magic_def by (auto; metis append_assoc)
  have "prefix_code (\<lambda>s. pushes
      [Inr magic, pushes [push_count (length (sch_fields s)), pushes (map encode_field (sch_fields s))],
       encode_metadata (sch_metadata s)]) (\<lambda>s. (map field_canon (sch_fields s), sorted_pairs (sch_metadata s)))"
    by (rule prefix_code_weaken [OF
        prefix_code_Cons [OF prefix_code_const
        prefix_code_Cons [OF prefix_code_vimage [OF prefix_code_counted [OF field_code.prefix_code_axioms], of sch_fields]
        prefix_code_Cons [OF prefix_code_vimage [OF metadata.prefix_code_axioms, of sch_metadata] prefix_code_Nil]]]])
      auto
  then show "prefix_code (\<lambda>s. encode_canonical_schema_with_magic s magic)
      (\<lambda>s. (map field_canon (sch_fields s), sorted_pairs (sch_metadata s)))"
    unfolding prefix_code_def split .
qed

section \<open>Equality of schemas\<close>

text \<open>Equality of Arrow schemas, where the metadata of fields and schema are hash maps.\<close>

definition field_eq :: "field \<Rightarrow> field \<Rightarrow> bool" where
  "field_eq f g \<longleftrightarrow> fd_name f = fd_name g \<and> fd_data_type f = fd_data_type g \<and>
     fd_nullable f = fd_nullable g \<and> map_of (fd_metadata f) = map_of (fd_metadata g)"

definition schema_eq :: "schema \<Rightarrow> schema \<Rightarrow> bool" where
  "schema_eq s t \<longleftrightarrow> list_all2 field_eq (sch_fields s) (sch_fields t) \<and>
     map_of (sch_metadata s) = map_of (sch_metadata t)"

text \<open>The keys of a hash map are distinct.\<close>

definition schema_ok :: "schema \<Rightarrow> bool" where
  "schema_ok s \<longleftrightarrow> list_all (\<lambda>f. distinct (map fst (fd_metadata f))) (sch_fields s) \<and>
     distinct (map fst (sch_metadata s))"

lemma sorted_pairs_eq_iff:
  assumes "distinct (map fst m)" and "distinct (map fst n)"
  shows "sorted_pairs m = sorted_pairs n \<longleftrightarrow> map_of m = map_of n"
proof
  assume "sorted_pairs m = sorted_pairs n"
  then have "mset m = mset n"
    unfolding sorted_pairs_def by (metis mset_sort)
  then have "set m = set n"
    by (rule mset_eq_setD)
  then show "map_of m = map_of n"
    using assms by (simp add: map_of_inject_set)
next
  assume "map_of m = map_of n"
  then have "set m = set n"
    using assms by (simp add: map_of_inject_set)
  then have "mset m = mset n"
    using assms by (simp add: set_eq_iff_mset_eq_distinct distinct_map)
  moreover have "distinct (map (\<lambda>kv. str_bytes (fst kv)) m)"
    using assms(1) by (auto simp: distinct_map inj_on_def)
  ultimately show "sorted_pairs m = sorted_pairs n"
    unfolding sorted_pairs_def by (intro sort_key_perm_eq) auto
qed

lemma field_canon_eq:
  assumes "distinct (map fst (fd_metadata f))" and "distinct (map fst (fd_metadata g))"
    and "canonicalize_field f = Inr f'" and "canonicalize_field g = Inr g'"
  shows "field_canon f = field_canon g \<longleftrightarrow> field_eq f' g'"
  using assms by (auto simp: field_canon_def field_eq_def canonicalize_field_def sorted_pairs_eq_iff)

lemma map_eq_transfer:
  assumes "map f xs = map f ys" and "\<And>x y. f x = f y \<Longrightarrow> g x = g y"
  shows "map g xs = map g ys"
proof (rule nth_equalityI)
  have len: "length xs = length ys"
    using assms(1) by (rule map_eq_imp_length_eq)
  then show "length (map g xs) = length (map g ys)" by simp
  fix i
  assume "i < length (map g xs)"
  then have i: "i < length xs" "i < length ys" using len by auto
  then have "f (xs ! i) = f (ys ! i)"
    using assms(1) by (metis nth_map)
  then show "map g xs ! i = map g ys ! i"
    using assms(2) [of "xs ! i" "ys ! i"] i by simp
qed

lemma encode_field_canon: "field_canon f = field_canon g \<Longrightarrow> encode_field f = encode_field g"
  by (auto simp: field_canon_def encode_field_def encode_metadata_def)

lemma encode_schema_canon:
  assumes "map field_canon (sch_fields s) = map field_canon (sch_fields t)"
    and "sorted_pairs (sch_metadata s) = sorted_pairs (sch_metadata t)"
  shows "encode_canonical_schema_with_magic s magic = encode_canonical_schema_with_magic t magic"
  using map_eq_transfer [OF assms(1) encode_field_canon] map_eq_imp_length_eq [OF assms(1)] assms(2)
  by (simp add: encode_canonical_schema_with_magic_def encode_metadata_def)

lemma encode_fields_canonical:
  "pushes (map encode_field fs) = Inr a \<Longrightarrow> \<exists>fs'. res_map canonicalize_field fs = Inr fs'"
proof (induction fs arbitrary: a)
  case (Cons f fs)
  obtain b c where "encode_field f = Inr b" and "pushes (map encode_field fs) = Inr c"
    using Cons.prems by auto
  moreover from this(1) obtain t where "canonical_data_type (fd_data_type f) = Inr t"
    by (auto simp: encode_field_def)
  ultimately show ?case
    using Cons.IH by (auto simp: canonicalize_field_def)
qed simp

lemma encode_schema_canonical:
  "encode_canonical_schema_with_magic s magic = Inr a \<Longrightarrow> \<exists>s'. canonicalize_schema s = Inr s'"
  by (auto simp: encode_canonical_schema_with_magic_def canonicalize_schema_def dest!: encode_fields_canonical)

lemma fields_canon_eq:
  assumes "res_map canonicalize_field fs = Inr fs'" and "res_map canonicalize_field gs = Inr gs'"
    and "list_all (\<lambda>f. distinct (map fst (fd_metadata f))) fs" and "list_all (\<lambda>f. distinct (map fst (fd_metadata f))) gs"
  shows "map field_canon fs = map field_canon gs \<longleftrightarrow> list_all2 field_eq fs' gs'"
  using assms
proof (induction fs arbitrary: gs fs' gs')
  case Nil
  then show ?case by (cases gs) auto
next
  case (Cons f fs)
  then obtain f1 fs1 where f: "canonicalize_field f = Inr f1" "res_map canonicalize_field fs = Inr fs1" "fs' = f1 # fs1"
    by auto
  show ?case
  proof (cases gs)
    case Nil
    then show ?thesis using Cons.prems f by auto
  next
    case (Cons g gr)
    then obtain g1 gs1 where g: "canonicalize_field g = Inr g1" "res_map canonicalize_field gr = Inr gs1" "gs' = g1 # gs1"
      using Cons.prems(2) by auto
    have "field_canon f = field_canon g \<longleftrightarrow> field_eq f1 g1"
      using Cons.prems(3,4) Cons f(1) g(1) by (intro field_canon_eq) auto
    moreover have "map field_canon fs = map field_canon gr \<longleftrightarrow> list_all2 field_eq fs1 gs1"
      using Cons.prems(3,4) Cons f(2) g(2) by (intro Cons.IH) auto
    ultimately show ?thesis
      by (simp add: Cons f(3) g(3))
  qed
qed

lemma schema_bytes_eq_iff:
  assumes "schema_ok s" and "schema_ok t"
    and a: "encode_canonical_schema_with_magic s magic = Inr a" and b: "encode_canonical_schema_with_magic t magic = Inr b"
  shows "a = b \<longleftrightarrow>
    (\<exists>s' t'. canonicalize_schema s = Inr s' \<and> canonicalize_schema t = Inr t' \<and> schema_eq s' t')"
proof -
  obtain s' t' where c: "canonicalize_schema s = Inr s'" "canonicalize_schema t = Inr t'"
    using encode_schema_canonical a b by blast
  have "map field_canon (sch_fields s) = map field_canon (sch_fields t) \<longleftrightarrow>
      list_all2 field_eq (sch_fields s') (sch_fields t')"
    using c assms(1,2) by (intro fields_canon_eq) (auto simp: canonicalize_schema_def schema_ok_def)
  moreover have "sorted_pairs (sch_metadata s) = sorted_pairs (sch_metadata t) \<longleftrightarrow>
      map_of (sch_metadata s') = map_of (sch_metadata t')"
    using c assms(1,2) by (subst sorted_pairs_eq_iff) (auto simp: canonicalize_schema_def schema_ok_def)
  moreover have "a = b \<longleftrightarrow> map field_canon (sch_fields s) = map field_canon (sch_fields t) \<and>
      sorted_pairs (sch_metadata s) = sorted_pairs (sch_metadata t)"
  proof
    assume "a = b"
    with b have "encode_canonical_schema_with_magic t magic = Inr a" by simp
    from schema_code.determined [OF a this] show "map field_canon (sch_fields s) = map field_canon (sch_fields t) \<and>
        sorted_pairs (sch_metadata s) = sorted_pairs (sch_metadata t)" by simp
  next
    assume "map field_canon (sch_fields s) = map field_canon (sch_fields t) \<and>
      sorted_pairs (sch_metadata s) = sorted_pairs (sch_metadata t)"
    with encode_schema_canon [of s t magic] a b show "a = b" by simp
  qed
  ultimately show ?thesis
    unfolding c schema_eq_def by simp
qed

section \<open>Properties\<close>


definition toy_schema :: "data_type \<Rightarrow> metadata \<Rightarrow> schema" where
  "toy_schema dt md = \<lparr>sch_fields = [\<lparr>fd_name = mk_str [97], fd_data_type = dt, fd_nullable = True, fd_metadata = md\<rparr>],
     sch_metadata = []\<rparr>"


end
