(* ===== verification/SeriesRows.thy ===== *)
theory SeriesRows
  imports SeriesSchema
begin

text \<open>
  Canonical rows of a logical table series, from \<open>content/series_leaf.rs\<close>: a column is its
  type and its values, a record batch is its columns. \<open>cast\<close> is the parameter for
  \<open>arrow::compute::cast\<close>, which the source calls to materialise a dictionary column.
\<close>

definition ROWS_MAGIC :: bytes where "ROWS_MAGIC = ascii ''watertown.series-rows.v1'' @ [10]"
definition SCALAR_ABSENT :: byte where "SCALAR_ABSENT = 0"
definition SCALAR_PRESENT :: byte where "SCALAR_PRESENT = 1"
definition CANONICAL_F32_NAN :: u32 where "CANONICAL_F32_NAN = 0x7fc00000"
definition CANONICAL_F64_NAN :: u64 where "CANONICAL_F64_NAN = 0x7ff8000000000000"

section \<open>Rows\<close>

text \<open>A value of a column, at its width; a float is its bit pattern.\<close>

datatype scalar =
    VBool bool | V8 byte | V16 u16 | V32 u32 | V64 u64 | V128 "128 word" | VBytes bytes

record column =
  col_type :: data_type
  col_values :: "scalar option list"

record record_batch =
  num_rows :: nat
  columns :: "column list"

definition is_nan32 :: "u32 \<Rightarrow> bool" where "is_nan32 v \<longleftrightarrow> 0x7f800000 < v AND 0x7fffffff"
definition is_nan64 :: "u64 \<Rightarrow> bool" where "is_nan64 v \<longleftrightarrow> 0x7ff0000000000000 < v AND 0x7fffffffffffffff"

definition f32_bits :: "u32 \<Rightarrow> u32" where "f32_bits v = (if is_nan32 v then CANONICAL_F32_NAN else v)"
definition f64_bits :: "u64 \<Rightarrow> u64" where "f64_bits v = (if is_nan64 v then CANONICAL_F64_NAN else v)"

text \<open>The accessors \<open>as_boolean\<close>, \<open>as_primitive\<close>, \<open>as_string\<close> and \<open>as_binary\<close>, with the panic
  of a downcast to the wrong array type.\<close>

definition downcast :: "error + 'a" where "downcast = Inl (Panic ''array downcast'')"

definition value8 :: "scalar \<Rightarrow> error + bytes" where
  "value8 v = (case v of V8 x \<Rightarrow> Inr [x] | _ \<Rightarrow> downcast)"
definition value16 :: "scalar \<Rightarrow> error + bytes" where
  "value16 v = (case v of V16 x \<Rightarrow> Inr (le16 x) | _ \<Rightarrow> downcast)"
definition value32 :: "(u32 \<Rightarrow> u32) \<Rightarrow> scalar \<Rightarrow> error + bytes" where
  "value32 f v = (case v of V32 x \<Rightarrow> Inr (le32 (f x)) | _ \<Rightarrow> downcast)"
definition value64 :: "(u64 \<Rightarrow> u64) \<Rightarrow> scalar \<Rightarrow> error + bytes" where
  "value64 f v = (case v of V64 x \<Rightarrow> Inr (le64 (f x)) | _ \<Rightarrow> downcast)"
definition value_bytes :: "scalar \<Rightarrow> error + bytes" where
  "value_bytes v = (case v of VBytes x \<Rightarrow> push_len_prefixed_u64 x | _ \<Rightarrow> downcast)"

definition encode_present :: "data_type \<Rightarrow> scalar \<Rightarrow> error + bytes" where
  "encode_present dt v =
    (case dt of
       Boolean \<Rightarrow> (case v of VBool b \<Rightarrow> Inr [if b then 1 else 0] | _ \<Rightarrow> downcast)
     | Int8 \<Rightarrow> value8 v
     | Int16 \<Rightarrow> value16 v
     | Int32 \<Rightarrow> value32 id v
     | Int64 \<Rightarrow> value64 id v
     | UInt8 \<Rightarrow> value8 v
     | UInt16 \<Rightarrow> value16 v
     | UInt32 \<Rightarrow> value32 id v
     | UInt64 \<Rightarrow> value64 id v
     | Float32 \<Rightarrow> value32 f32_bits v
     | Float64 \<Rightarrow> value64 f64_bits v
     | Utf8 \<Rightarrow> value_bytes v
     | LargeUtf8 \<Rightarrow> value_bytes v
     | Binary \<Rightarrow> value_bytes v
     | LargeBinary \<Rightarrow> value_bytes v
     | Date32 \<Rightarrow> value32 id v
     | Timestamp unit tz \<Rightarrow> value64 id v
     | Decimal128 precision scale \<Rightarrow> (case v of V128 x \<Rightarrow> Inr (le_nat 16 (unat x)) | _ \<Rightarrow> downcast)
     | _ \<Rightarrow> Inl (Reject ''unsupported canonical series type at encode time''))"

definition encode_cell :: "data_type \<Rightarrow> scalar option \<Rightarrow> error + bytes" where
  "encode_cell dt cell =
    (case cell of None \<Rightarrow> Inr [SCALAR_ABSENT] | Some v \<Rightarrow> pushes [Inr [SCALAR_PRESENT], encode_present dt v])"

definition encode_scalar :: "column \<Rightarrow> nat \<Rightarrow> error + bytes" where
  "encode_scalar array row =
    (if row < length (col_values array) then encode_cell (col_type array) (col_values array ! row)
     else Inl (Panic ''array index out of bounds''))"

type_synonym cast_fn = "column \<Rightarrow> data_type \<Rightarrow> error + column"

definition is_dictionary :: "data_type \<Rightarrow> bool" where
  "is_dictionary dt \<longleftrightarrow> (case dt of Dictionary _ _ \<Rightarrow> True | _ \<Rightarrow> False)"

definition canonical_column :: "cast_fn \<Rightarrow> data_type \<Rightarrow> column \<Rightarrow> error + column" where
  "canonical_column cast resolved array =
    res_bind (canonical_data_type (col_type array)) (\<lambda>actual.
    res_bind (require (actual = resolved) (Reject ''array type does not match schema field type'')) (\<lambda>_.
      if is_dictionary (col_type array) then cast array resolved else Inr array))"

definition resolved_fields :: "schema \<Rightarrow> error + data_type list" where
  "resolved_fields s = res_map (\<lambda>f. canonical_data_type (fd_data_type f)) (sch_fields s)"

definition canonical_columns :: "cast_fn \<Rightarrow> schema \<Rightarrow> record_batch \<Rightarrow> error + column list" where
  "canonical_columns cast s batch =
    res_bind (resolved_fields s) (\<lambda>resolved.
    res_bind (require (length (columns batch) = length resolved) (Reject ''batch column count does not match schema'')) (\<lambda>_.
      res_map (\<lambda>(r, c). canonical_column cast r c) (zip resolved (columns batch))))"

definition encode_canonical_batch_rows :: "cast_fn \<Rightarrow> schema \<Rightarrow> record_batch \<Rightarrow> error + bytes" where
  "encode_canonical_batch_rows cast s batch =
    res_bind (canonical_columns cast s batch) (\<lambda>cols.
      pushes (map (\<lambda>row. pushes (map (\<lambda>array. encode_scalar array row) cols)) [0..<num_rows batch]))"

text \<open>\<open>batches.iter().try_fold(0u64, ..checked_add..)\<close>.\<close>

fun row_total :: "string \<Rightarrow> nat \<Rightarrow> record_batch list \<Rightarrow> error + nat" where
  "row_total msg acc [] = Inr acc"
| "row_total msg acc (b # bs) =
    (if acc + num_rows b \<le> u64_max then row_total msg (acc + num_rows b) bs else Inl (Reject msg))"

definition encode_canonical_rows_with_magic ::
    "cast_fn \<Rightarrow> schema \<Rightarrow> record_batch list \<Rightarrow> bytes \<Rightarrow> error + bytes" where
  "encode_canonical_rows_with_magic cast s batches magic =
    res_bind (row_total ''table row count exceeds u64::MAX'' 0 batches) (\<lambda>row_count. pushes
      [Inr magic, Inr (le64 (of_nat row_count)),
       pushes (map (encode_canonical_batch_rows cast s) batches)])"

definition encode_canonical_rows :: "cast_fn \<Rightarrow> schema \<Rightarrow> record_batch list \<Rightarrow> error + bytes" where
  "encode_canonical_rows cast s batches = encode_canonical_rows_with_magic cast s batches ROWS_MAGIC"

section \<open>What a row payload determines\<close>

text \<open>The logical value of a cell: all NaNs of a width are one value.\<close>

definition canon32 :: "(u32 \<Rightarrow> u32) \<Rightarrow> scalar \<Rightarrow> scalar" where
  "canon32 f v = (case v of V32 x \<Rightarrow> V32 (f x) | _ \<Rightarrow> v)"
definition canon64 :: "(u64 \<Rightarrow> u64) \<Rightarrow> scalar \<Rightarrow> scalar" where
  "canon64 f v = (case v of V64 x \<Rightarrow> V64 (f x) | _ \<Rightarrow> v)"

definition canon_value :: "data_type \<Rightarrow> scalar \<Rightarrow> scalar" where
  "canon_value dt v = (case dt of Float32 \<Rightarrow> canon32 f32_bits v | Float64 \<Rightarrow> canon64 f64_bits v | _ \<Rightarrow> v)"

definition canon_cell :: "data_type \<Rightarrow> scalar option \<Rightarrow> scalar option" where
  "canon_cell dt = map_option (canon_value dt)"

lemma canonical_nans: "is_nan32 CANONICAL_F32_NAN" "is_nan64 CANONICAL_F64_NAN"
  by (simp_all add: is_nan32_def is_nan64_def CANONICAL_F32_NAN_def CANONICAL_F64_NAN_def)

lemma float_bits_idem [simp]: "f32_bits (f32_bits x) = f32_bits x" "f64_bits (f64_bits y) = f64_bits y"
  by (simp_all add: f32_bits_def f64_bits_def canonical_nans)

lemma canon_value_idem [simp]: "canon_value dt (canon_value dt v) = canon_value dt v"
  by (cases dt; cases v; simp add: canon_value_def canon32_def canon64_def)

lemma encode_present_canon [simp]: "encode_present dt (canon_value dt v) = encode_present dt v"
  by (cases dt; cases v; simp add: encode_present_def canon_value_def canon32_def canon64_def value32_def value64_def)

lemma canon_cell_idem [simp]: "canon_cell dt (canon_cell dt v) = canon_cell dt v"
  by (cases v) (simp_all add: canon_cell_def)

lemma encode_cell_canon [simp]: "encode_cell dt (canon_cell dt v) = encode_cell dt v"
  by (cases v) (simp_all add: encode_cell_def canon_cell_def)

lemma fixed_width_code:
  assumes "\<And>v a. e v = Inr a \<Longrightarrow> length a = n" and "\<And>v w a. e v = Inr a \<Longrightarrow> e w = Inr a \<Longrightarrow> c v = c w"
  shows "prefix_code e c"
proof
  fix v w a b r s
  assume "e v = Inr a" "e w = Inr b" "a @ r = b @ s"
  moreover from this have "a = b"
    using assms(1) by (subst (asm) append_eq_append_conv) auto
  ultimately show "c v = c w \<and> a = b"
    using assms(2) by blast
qed

lemma le_nat_16_inj: "le_nat 16 (unat x) = le_nat 16 (unat (y :: 128 word)) \<longleftrightarrow> x = y"
proof
  assume "le_nat 16 (unat x) = le_nat 16 (unat y)"
  then have "unat x mod 256 ^ 16 = unat y mod 256 ^ 16"
    by (metis nat_le_le_nat)
  moreover have "unat x < 256 ^ 16" "unat y < 256 ^ 16"
    using unat_lt [of x] unat_lt [of y] by simp_all
  ultimately show "x = y"
    by (simp only: mod_less word_unat_eq_iff)
qed simp

lemma le_inj: "le16 a = le16 b \<longleftrightarrow> a = b" "le32 c = le32 d \<longleftrightarrow> c = d" "le64 e = le64 f \<longleftrightarrow> e = f"
  by (metis un_le_le(1), metis un_le_le(2), metis un_le_le(3))

lemma value_codes:
  "prefix_code value8 (\<lambda>v. v)" "prefix_code value16 (\<lambda>v. v)"
  "prefix_code (value32 f) (canon32 f)" "prefix_code (value64 g) (canon64 g)"
  "prefix_code (\<lambda>v. case v of VBool b \<Rightarrow> Inr [if b then 1 else 0] | _ \<Rightarrow> downcast) (\<lambda>v. v)"
  "prefix_code (\<lambda>v. case v of V128 x \<Rightarrow> Inr (le_nat 16 (unat x)) | _ \<Rightarrow> downcast) (\<lambda>v. v)"
  by (rule fixed_width_code [where n = 1] fixed_width_code [where n = 2] fixed_width_code [where n = 4]
      fixed_width_code [where n = 8] fixed_width_code [where n = 16];
    auto simp: value8_def value16_def value32_def value64_def canon32_def canon64_def downcast_def
      le_inj le_nat_16_inj split: scalar.splits if_splits; fail)+

lemma value_bytes_code: "prefix_code value_bytes (\<lambda>v. v)"
proof
  fix v w a b r s
  assume p: "value_bytes v = Inr a" "value_bytes w = Inr b" "a @ r = b @ s"
  obtain x y where "v = VBytes x" "w = VBytes y"
    using p by (cases v; cases w; simp add: value_bytes_def downcast_def)
  with p prefix_code.unambiguous [OF prefix_code_len_prefixed_u64, of x a y b r s]
  show "v = w \<and> a = b" by (simp add: value_bytes_def)
qed

lemma present_code: "prefix_code (encode_present dt) (canon_value dt)"
proof -
  have id: "canon32 id = (\<lambda>v. v)" "canon64 id = (\<lambda>v. v)"
    by (auto simp: fun_eq_iff canon32_def canon64_def split: scalar.splits)
  note codes = value_codes(1,2) value_codes(3) [of id, unfolded id] value_codes(3) [of f32_bits]
    value_codes(4) [of id, unfolded id] value_codes(4) [of f64_bits] value_codes(5,6) value_bytes_code
  have none: "prefix_code (\<lambda>v. Inl e) (\<lambda>v. v)" for e
    by unfold_locales auto
  show ?thesis
    unfolding encode_present_def [abs_def] canon_value_def [abs_def]
    by (cases dt; simp only: data_type.case codes none)
qed

interpretation cell: prefix_code "encode_cell dt" "canon_cell dt" for dt
proof -
  have eq: "encode_cell dt = push_flagged (encode_present dt)"
    unfolding fun_eq_iff encode_cell_def push_flagged_def SCALAR_ABSENT_def SCALAR_PRESENT_def by simp
  show "prefix_code (encode_cell dt) (canon_cell dt)"
    unfolding eq canon_cell_def by (rule prefix_code_flagged [OF present_code])
qed

text \<open>A row of cells under the resolved types of the schema.\<close>

fun encode_row :: "data_type list \<Rightarrow> scalar option list \<Rightarrow> error + bytes" where
  "encode_row [] [] = Inr []"
| "encode_row (t # ts) (v # vs) = pushes [encode_cell t v, encode_row ts vs]"
| "encode_row _ _ = Inl (Panic ''row width'')"

interpretation row: prefix_code "encode_row ts" "map2 canon_cell ts" for ts
proof
  fix v w a b r s
  show "encode_row ts v = Inr a \<Longrightarrow> encode_row ts w = Inr b \<Longrightarrow> a @ r = b @ s \<Longrightarrow>
    map2 canon_cell ts v = map2 canon_cell ts w \<and> a = b"
  proof (induction ts arbitrary: v w a b)
    case Nil
    then show ?case by (cases v; cases w; simp)
  next
    case (Cons t ts)
    obtain x xs y ys where vw: "v = x # xs" "w = y # ys"
      using Cons.prems(1,2) by (cases v; cases w; simp)
    obtain a1 a2 b1 b2 where p: "encode_cell t x = Inr a1" "encode_row ts xs = Inr a2" "a = a1 @ a2"
        "encode_cell t y = Inr b1" "encode_row ts ys = Inr b2" "b = b1 @ b2"
      using Cons.prems(1,2) by (auto simp: vw)
    have 1: "canon_cell t x = canon_cell t y" "a1 = b1"
      using cell.unambiguous [OF p(1,4), of "a2 @ r" "b2 @ s"] Cons.prems(3) p(3,6) by auto
    moreover have "map2 canon_cell ts xs = map2 canon_cell ts ys \<and> a2 = b2"
      using Cons.IH [OF p(2,5)] Cons.prems(3) p(3,6) 1 by simp
    ultimately show ?case
      by (simp add: vw p(3,6))
  qed
qed

section \<open>Logical rows\<close>

text \<open>
  The logical content of a run of batches, independent of batch boundaries and of the physical
  encoding of columns: the rows in order, each cell a logical value.
\<close>

definition batch_cells :: "nat \<Rightarrow> column list \<Rightarrow> scalar option list list" where
  "batch_cells n cols = map (\<lambda>row. map (\<lambda>c. canon_cell (col_type c) (col_values c ! row)) cols) [0..<n]"

definition logical_rows :: "cast_fn \<Rightarrow> schema \<Rightarrow> record_batch list \<Rightarrow> error + scalar option list list" where
  "logical_rows cast s batches =
    res_bind (res_map (\<lambda>b. res_bind (canonical_columns cast s b) (\<lambda>cols. Inr (batch_cells (num_rows b) cols))) batches)
      (\<lambda>rows. Inr (concat rows))"

text \<open>What the source relies on: a cast to a type gives an array of that type.\<close>

definition cast_to_type :: "cast_fn \<Rightarrow> bool" where
  "cast_to_type cast \<longleftrightarrow> (\<forall>c t c'. cast c t = Inr c' \<longrightarrow> col_type c' = t)"

lemma pushes_append_iff:
  "pushes (xs @ ys) = Inr a \<longleftrightarrow> (\<exists>b c. pushes xs = Inr b \<and> pushes ys = Inr c \<and> a = b @ c)"
proof (induction xs arbitrary: a)
  case (Cons x xs)
  show ?case
    unfolding append_Cons pushes_Cons_iff Cons.IH by (metis append_assoc)
qed simp

lemma pushes_map_mono:
  "pushes (map f xs) = Inr a \<Longrightarrow> (\<And>x b. x \<in> set xs \<Longrightarrow> f x = Inr b \<Longrightarrow> g x = Inr b) \<Longrightarrow> pushes (map g xs) = Inr a"
  by (induction xs arbitrary: a) auto

lemma canonical_column_type:
  assumes "cast_to_type cast" and "canonical_column cast t c = Inr c'"
  shows "col_type c' = t"
proof (cases "is_dictionary (col_type c)")
  case True
  then show ?thesis
    using assms by (auto simp: canonical_column_def cast_to_type_def)
next
  case False
  then have "canonical_data_type (col_type c) = Inr (col_type c) \<or> (\<exists>e. canonical_data_type (col_type c) = Inl e)"
    by (cases "col_type c") (auto simp: is_dictionary_def)
  then show ?thesis
    using assms(2) False by (auto simp: canonical_column_def)
qed

lemma canonical_column_types:
  assumes "cast_to_type cast" and "length cs = length ts"
    and "res_map (\<lambda>(r, c). canonical_column cast r c) (zip ts cs) = Inr cols"
  shows "map col_type cols = ts"
  using assms(2,3)
proof (induction cs ts arbitrary: cols rule: list_induct2)
  case (Cons c cs t ts)
  then show ?case
    using canonical_column_type [OF assms(1)] by auto
qed simp

lemma canonical_columns_types:
  assumes "cast_to_type cast" and "canonical_columns cast s b = Inr cols"
  shows "resolved_fields s = Inr (map col_type cols)"
  using assms(2) canonical_column_types [OF assms(1)] by (auto simp: canonical_columns_def)

lemma encode_row_cells:
  "pushes (map (\<lambda>c. encode_scalar c row) cols) = Inr a \<Longrightarrow>
    encode_row (map col_type cols) (map (\<lambda>c. canon_cell (col_type c) (col_values c ! row)) cols) = Inr a"
  by (induction cols arbitrary: a) (auto simp: encode_scalar_def split: if_splits)

lemma encode_batch_cells:
  assumes "cast_to_type cast" and "encode_canonical_batch_rows cast s b = Inr a"
  shows "\<exists>cols. canonical_columns cast s b = Inr cols \<and> resolved_fields s = Inr (map col_type cols) \<and>
    pushes (map (encode_row (map col_type cols)) (batch_cells (num_rows b) cols)) = Inr a"
proof -
  obtain cols where cols: "canonical_columns cast s b = Inr cols"
      and rows: "pushes (map (\<lambda>row. pushes (map (\<lambda>c. encode_scalar c row) cols)) [0..<num_rows b]) = Inr a"
    using assms(2) by (auto simp: encode_canonical_batch_rows_def)
  have "pushes (map (encode_row (map col_type cols)) (batch_cells (num_rows b) cols)) = Inr a"
    unfolding batch_cells_def map_map comp_def by (rule pushes_map_mono [OF rows]) (rule encode_row_cells)
  with cols canonical_columns_types [OF assms(1) cols] show ?thesis by blast
qed

definition row_ok :: "data_type list \<Rightarrow> scalar option list \<Rightarrow> bool" where
  "row_ok ts vs \<longleftrightarrow> map2 canon_cell ts vs = vs"

lemma batch_cells_ok: "list_all (row_ok (map col_type cols)) (batch_cells n cols)"
  by (simp add: list_all_iff batch_cells_def row_ok_def list_eq_iff_nth_eq)

lemma encode_batches_rows:
  assumes "cast_to_type cast" and "pushes (map (encode_canonical_batch_rows cast s) batches) = Inr a"
  shows "\<exists>rows. logical_rows cast s batches = Inr rows \<and> length rows = sum_list (map num_rows batches) \<and>
    (\<forall>ts. resolved_fields s = Inr ts \<longrightarrow> pushes (map (encode_row ts) rows) = Inr a \<and> list_all (row_ok ts) rows) \<and>
    (rows = [] \<or> (\<exists>ts. resolved_fields s = Inr ts)) \<and> (rows = [] \<longrightarrow> a = [])"
  using assms(2)
proof (induction batches arbitrary: a)
  case Nil
  then show ?case by (simp add: logical_rows_def)
next
  case (Cons b batches)
  obtain a1 a2 where a: "encode_canonical_batch_rows cast s b = Inr a1"
      "pushes (map (encode_canonical_batch_rows cast s) batches) = Inr a2" "a = a1 @ a2"
    using Cons.prems by auto
  obtain cols where cols: "canonical_columns cast s b = Inr cols" "resolved_fields s = Inr (map col_type cols)"
      "pushes (map (encode_row (map col_type cols)) (batch_cells (num_rows b) cols)) = Inr a1"
    using encode_batch_cells [OF assms(1) a(1)] by blast
  obtain rows where rows: "logical_rows cast s batches = Inr rows" "length rows = sum_list (map num_rows batches)"
      "pushes (map (encode_row (map col_type cols)) rows) = Inr a2" "list_all (row_ok (map col_type cols)) rows"
    using Cons.IH [OF a(2)] cols(2) by auto
  have len: "length (batch_cells (num_rows b) cols) = num_rows b"
    by (simp add: batch_cells_def)
  show ?case
  proof (intro exI [of _ "batch_cells (num_rows b) cols @ rows"] conjI)
    show "logical_rows cast s (b # batches) = Inr (batch_cells (num_rows b) cols @ rows)"
      using rows(1) cols(1) by (auto simp: logical_rows_def)
    show "\<forall>ts. resolved_fields s = Inr ts \<longrightarrow>
        pushes (map (encode_row ts) (batch_cells (num_rows b) cols @ rows)) = Inr a \<and>
        list_all (row_ok ts) (batch_cells (num_rows b) cols @ rows)"
      using cols(2,3) rows(3,4) a(3) batch_cells_ok by (simp add: pushes_append_iff)
    show "batch_cells (num_rows b) cols @ rows = [] \<longrightarrow> a = []"
      using cols(3) rows(3) a(3) by auto
  qed (use cols rows len in auto)
qed

lemma row_total_eq:
  "row_total msg acc batches = Inr n \<longleftrightarrow> acc + sum_list (map num_rows batches) = n \<and> (n \<le> u64_max \<or> batches = [])"
proof (induction batches arbitrary: acc)
  case (Cons b batches)
  show ?case
  proof (cases "acc + num_rows b \<le> u64_max")
    case True
    then show ?thesis
      using Cons.IH [of "acc + num_rows b"] by (cases batches) (simp_all add: add.assoc, blast)
  next
    case False
    have "acc + num_rows b \<le> acc + sum_list (map num_rows (b # batches))"
      by simp
    with False have "\<not> acc + sum_list (map num_rows (b # batches)) \<le> u64_max"
      by (meson order_trans)
    moreover have "row_total msg acc (b # batches) = Inl (Reject msg)"
      using False by simp
    ultimately show ?thesis
      by (metis Inl_Inr_False list.distinct(1))
  qed
qed simp

lemma encode_rows_logical:
  assumes "cast_to_type cast" and "encode_canonical_rows_with_magic cast s batches magic = Inr p"
  obtains rows body where "logical_rows cast s batches = Inr rows" "length rows \<le> u64_max"
    "length rows = sum_list (map num_rows batches)"
    "p = magic @ le64 (of_nat (length rows)) @ body" "rows = [] \<longrightarrow> body = []"
    "\<And>ts. resolved_fields s = Inr ts \<Longrightarrow> pushes (map (encode_row ts) rows) = Inr body \<and> list_all (row_ok ts) rows"
    "rows = [] \<or> (\<exists>ts. resolved_fields s = Inr ts)"
proof -
  obtain n body where n: "row_total ''table row count exceeds u64::MAX'' 0 batches = Inr n"
      "pushes (map (encode_canonical_batch_rows cast s) batches) = Inr body" "p = magic @ le64 (of_nat n) @ body"
    using assms(2) by (auto simp: encode_canonical_rows_with_magic_def)
  obtain rows where rows: "logical_rows cast s batches = Inr rows" "length rows = sum_list (map num_rows batches)"
      "\<And>ts. resolved_fields s = Inr ts \<Longrightarrow> pushes (map (encode_row ts) rows) = Inr body \<and> list_all (row_ok ts) rows"
      "rows = [] \<or> (\<exists>ts. resolved_fields s = Inr ts)" "rows = [] \<longrightarrow> body = []"
    using encode_batches_rows [OF assms(1) n(2)] by auto
  have "n = length rows" "length rows \<le> u64_max"
    using n(1) rows(2) by (auto simp: row_total_eq)
  with that rows n(3) show thesis by blast
qed

text \<open>
  The payload of a table leaf is a function of the logical rows, and determines them: cutting
  the rows into other batches, or storing a column dictionary-encoded, changes nothing, and
  any other change of the rows changes the payload.
\<close>

lemma rows_payload_eq_iff:
  assumes "cast_to_type cast"
    and p: "encode_canonical_rows_with_magic cast s batches magic = Inr p"
    and q: "encode_canonical_rows_with_magic cast s batches' magic = Inr q"
  shows "p = q \<longleftrightarrow> logical_rows cast s batches = logical_rows cast s batches'"
proof -
  obtain rows body where 1: "logical_rows cast s batches = Inr rows" "length rows \<le> u64_max"
      "length rows = sum_list (map num_rows batches)"
      "p = magic @ le64 (of_nat (length rows)) @ body" "rows = [] \<longrightarrow> body = []"
      "\<And>ts. resolved_fields s = Inr ts \<Longrightarrow> pushes (map (encode_row ts) rows) = Inr body \<and> list_all (row_ok ts) rows"
      "rows = [] \<or> (\<exists>ts. resolved_fields s = Inr ts)"
    using encode_rows_logical [OF assms(1) p] by metis
  obtain rows' body' where 2: "logical_rows cast s batches' = Inr rows'" "length rows' \<le> u64_max"
      "length rows' = sum_list (map num_rows batches')"
      "q = magic @ le64 (of_nat (length rows')) @ body'" "rows' = [] \<longrightarrow> body' = []"
      "\<And>ts. resolved_fields s = Inr ts \<Longrightarrow> pushes (map (encode_row ts) rows') = Inr body' \<and> list_all (row_ok ts) rows'"
      "rows' = [] \<or> (\<exists>ts. resolved_fields s = Inr ts)"
    using encode_rows_logical [OF assms(1) q] by metis
  have "rows = rows'" if "p = q"
  proof -
    have "le64 (of_nat (length rows)) = le64 (of_nat (length rows')) \<and> body = body'"
      using that unfolding 1(4) 2(4) by simp
    then have "unat (of_nat (length rows) :: u64) = unat (of_nat (length rows') :: u64)"
        and body: "body @ [] = body' @ []"
      by (simp_all only: le_inj append_Nil2)
    then have len: "length rows = length rows'"
      unfolding unat_of_nat_le(2) [OF 1(2)] unat_of_nat_le(2) [OF 2(2)] by simp
    show "rows = rows'"
    proof (cases "rows = []")
      case False
      then obtain ts where ts: "resolved_fields s = Inr ts" using 1(7) by blast
      have "map (map2 canon_cell ts) rows = map (map2 canon_cell ts) rows'"
        using row.unambiguous_list [OF _ _ len body] 1(6) [OF ts] 2(6) [OF ts] by blast
      moreover have "map (map2 canon_cell ts) rows = rows" "map (map2 canon_cell ts) rows' = rows'"
        using 1(6) [OF ts] 2(6) [OF ts] by (auto simp: list_all_iff row_ok_def intro!: map_idI)
      ultimately show ?thesis by simp
    qed (use len in auto)
  qed
  moreover have "p = q" if "rows = rows'"
  proof (cases "rows = []")
    case True
    then show ?thesis using that 1(4,5) 2(4,5) by simp
  next
    case False
    then obtain ts where ts: "resolved_fields s = Inr ts" using 1(7) by blast
    have "body = body'" using 1(6) [OF ts] 2(6) [OF ts] that by simp
    then show ?thesis using that 1(4) 2(4) by simp
  qed
  ultimately show ?thesis
    unfolding 1(1) 2(1) by auto
qed

section \<open>Properties\<close>


definition toy_cast :: cast_fn where
  "toy_cast c t = Inr (c\<lparr>col_type := t\<rparr>)"

definition toy_batch :: "u32 list \<Rightarrow> record_batch" where
  "toy_batch xs = \<lparr>num_rows = length xs, columns = [\<lparr>col_type = Float32, col_values = map (\<lambda>x. Some (V32 x)) xs\<rparr>]\<rparr>"


end
