(* ===== verification/SeriesAttributes.thy ===== *)
theory SeriesAttributes
  imports PrefixCode
begin

text \<open>
  Canonical logical attributes, from \<open>content/series_leaf.rs\<close>: the project's own printer of
  JSON values. \<open>parse\<close> is the parameter for \<open>serde_json::from_str\<close>. Strings are their UTF-8
  bytes; every character the printer escapes is one byte, all others are copied.
\<close>

section \<open>Values and their canonical text\<close>

text \<open>A number that \<open>serde_json\<close> holds as an integer, or a float by its bits.\<close>

datatype json_number = Integer int | Float u64

datatype json =
    JNull
  | JBool bool
  | JNumber json_number
  | JString rstring
  | JArray "json list"
  | JObject "(rstring \<times> json) list"

fun decimal :: "nat \<Rightarrow> bytes" where
  "decimal n = (if n < 10 then [48 + of_nat n] else decimal (n div 10) @ [48 + of_nat (n mod 10)])"

declare decimal.simps [simp del]

definition int_to_string :: "int \<Rightarrow> bytes" where
  "int_to_string i = (if i < 0 then 45 # decimal (nat (- i)) else decimal (nat i))"

definition as_i64 :: "json_number \<Rightarrow> int option" where
  "as_i64 n = (case n of Integer i \<Rightarrow> if - (2 ^ 63) \<le> i \<and> i < 2 ^ 63 then Some i else None | Float _ \<Rightarrow> None)"

definition as_u64 :: "json_number \<Rightarrow> int option" where
  "as_u64 n = (case n of Integer i \<Rightarrow> if 0 \<le> i \<and> i < 2 ^ 64 then Some i else None | Float _ \<Rightarrow> None)"

definition number_text :: "json_number \<Rightarrow> error + bytes" where
  "number_text n =
    (case as_i64 n of Some i \<Rightarrow> Inr (int_to_string i)
     | None \<Rightarrow> (case as_u64 n of Some i \<Rightarrow> Inr (int_to_string i)
       | None \<Rightarrow> Inl (Reject ''logical attribute number is not an i64 or u64 integer'')))"

definition escape_char :: "byte \<Rightarrow> bytes" where
  "escape_char ch =
    (if ch = 34 then [92, 34]
     else if ch = 92 then [92, 92]
     else if ch = 8 then [92, 98]
     else if ch = 9 then [92, 116]
     else if ch = 10 then [92, 110]
     else if ch = 12 then [92, 102]
     else if ch = 13 then [92, 114]
     else if ch < 32 then [92, 117, 48, 48, hex_digit (drop_bit 4 ch), hex_digit (ch AND 0x0F)]
     else [ch])"

definition encode_json_string :: "rstring \<Rightarrow> bytes" where
  "encode_json_string s = 34 # concat (map escape_char (str_bytes s)) @ [34]"

text \<open>The members of an array or object, with a comma before all but the first.\<close>

fun comma_sep :: "(error + bytes) list \<Rightarrow> error + bytes" where
  "comma_sep [] = Inr []"
| "comma_sep (x # xs) = pushes [x, pushes (map (\<lambda>y. pushes [Inr [44], y]) xs)]"

definition sorted_members :: "(rstring \<times> 'a) list \<Rightarrow> (rstring \<times> 'a) list" where
  "sorted_members ms = sort_key (\<lambda>kv. str_bytes (fst kv)) ms"

lemma member_size: "kv \<in> set (sorted_members ms) \<Longrightarrow> size (snd kv) < size (JObject ms)"
proof -
  assume "kv \<in> set (sorted_members ms)"
  then have "kv \<in> set ms" by (simp add: sorted_members_def)
  then have "size (snd kv) \<le> size_list (size_prod (\<lambda>_. 0) size) ms"
    by (induction ms) (auto split: prod.splits)
  then show ?thesis by simp
qed

lemma item_size: "v \<in> set vs \<Longrightarrow> size v < size (JArray vs)"
  using size_list_estimation' [of v vs "size v" size] by simp

function (sequential) canonicalize_json :: "json \<Rightarrow> error + bytes" where
  "canonicalize_json JNull = Inr (ascii ''null'')"
| "canonicalize_json (JBool b) = Inr (if b then ascii ''true'' else ascii ''false'')"
| "canonicalize_json (JNumber n) = number_text n"
| "canonicalize_json (JString s) = Inr (encode_json_string s)"
| "canonicalize_json (JArray items) =
     pushes [Inr [91], comma_sep (map canonicalize_json items), Inr [93]]"
| "canonicalize_json (JObject members) =
     pushes [Inr [123],
       comma_sep (map (\<lambda>kv. pushes [Inr (encode_json_string (fst kv)), Inr [58], canonicalize_json (snd kv)])
         (sorted_members members)),
       Inr [125]]"
  by pat_completeness auto
termination
  by (relation "measure size") (auto simp del: json.size dest: item_size member_size)

definition is_object :: "json \<Rightarrow> bool" where
  "is_object v \<longleftrightarrow> (case v of JObject _ \<Rightarrow> True | _ \<Rightarrow> False)"

definition encode_canonical_attributes :: "(rstring \<Rightarrow> error + json) \<Rightarrow> rstring \<Rightarrow> error + bytes" where
  "encode_canonical_attributes parse text =
    res_bind (parse text) (\<lambda>v.
    res_bind (require (is_object v) (Reject ''logical attributes must be a JSON object'')) (\<lambda>_.
      canonicalize_json v))"

definition validate_canonical_attributes :: "(rstring \<Rightarrow> error + json) \<Rightarrow> bytes \<Rightarrow> error + unit" where
  "validate_canonical_attributes parse bs =
    res_bind (from_utf8 bs) (\<lambda>text.
    res_bind (encode_canonical_attributes parse text) (\<lambda>canonical.
      require (canonical = bs) (Reject ''logical attributes bytes are not canonical JSON'')))"

section \<open>The text determines the value\<close>

text \<open>A value with the members of every object in canonical order.\<close>

function (sequential) json_norm :: "json \<Rightarrow> json" where
  "json_norm (JArray items) = JArray (map json_norm items)"
| "json_norm (JObject members) = JObject (map (\<lambda>kv. (fst kv, json_norm (snd kv))) (sorted_members members))"
| "json_norm v = v"
  by pat_completeness auto
termination
  by (relation "measure size") (auto simp del: json.size dest: item_size member_size)

definition digit :: "byte \<Rightarrow> bool" where
  "digit b \<longleftrightarrow> 48 \<le> b \<and> b < 58"

text \<open>The bytes that may follow a value: nothing that extends a number.\<close>

definition stop :: "bytes \<Rightarrow> bool" where
  "stop r \<longleftrightarrow> r = [] \<or> \<not> digit (hd r)"

definition undecimal :: "bytes \<Rightarrow> nat" where
  "undecimal bs = foldl (\<lambda>n d. 10 * n + unat (d - 48)) 0 bs"

lemma decimal_digit: "n < 10 \<Longrightarrow> digit (48 + of_nat n)" "n < 10 \<Longrightarrow> unat (of_nat n :: byte) = n"
proof -
  assume "n < 10"
  then have u: "unat (of_nat n :: byte) = n" using unat_byte_of_nat [of n] by (simp del: unat_byte_of_nat)
  with \<open>n < 10\<close> have "unat (48 + of_nat n :: byte) = 48 + n"
    by (simp add: unat_word_ariths)
  with \<open>n < 10\<close> show "digit (48 + of_nat n)" by (simp add: digit_def word_le_nat_alt word_less_nat_alt)
  show "unat (of_nat n :: byte) = n" by (rule u)
qed

lemma decimal_digits: "list_all digit (decimal n)"
proof (induction n rule: decimal.induct)
  case (1 n)
  show ?case
  proof (cases "n < 10")
    case True
    then show ?thesis by (subst decimal.simps) (simp add: decimal_digit)
  next
    case False
    with 1 show ?thesis by (subst decimal.simps) (simp add: decimal_digit)
  qed
qed

lemma decimal_nonempty: "decimal n \<noteq> []"
  by (subst decimal.simps) simp

lemma undecimal_decimal: "undecimal (decimal n) = n"
proof (induction n rule: decimal.induct)
  case (1 n)
  show ?case
  proof (cases "n < 10")
    case True
    then show ?thesis by (subst decimal.simps) (simp add: undecimal_def decimal_digit)
  next
    case False
    then have "undecimal (decimal n) = 10 * undecimal (decimal (n div 10)) + n mod 10"
      by (subst decimal.simps) (simp add: undecimal_def decimal_digit)
    with 1 [OF False] show ?thesis by simp
  qed
qed

lemma digits_unambiguous:
  assumes "list_all digit a" "list_all digit b" "stop r" "stop s" "a @ r = b @ s"
  shows "a = b"
proof -
  have "takeWhile digit (x @ y) = x" if "list_all digit x" "stop y" for x y
    using that by (cases y) (auto simp: takeWhile_append2 list_all_iff stop_def)
  with assms show ?thesis by metis
qed

lemma decimal_unambiguous:
  "stop r \<Longrightarrow> stop s \<Longrightarrow> decimal m @ r = decimal n @ s \<Longrightarrow> m = n"
  using digits_unambiguous [OF decimal_digits decimal_digits] undecimal_decimal by metis

text \<open>Escaped strings.\<close>

lemma hex_digit_inj: "m < 16 \<Longrightarrow> n < 16 \<Longrightarrow> hex_digit m = hex_digit n \<Longrightarrow> m = n"
  using hex_val_digit by (metis Inr_inject)

lemma escape_unambiguous: "escape_char b @ x = escape_char c @ y \<Longrightarrow> b = c \<and> x = y"
proof -
  assume eq: "escape_char b @ x = escape_char c @ y"
  have hex: "b = c" if "hex_digit (drop_bit 4 b) = hex_digit (drop_bit 4 c)" "hex_digit (b AND 0x0F) = hex_digit (c AND 0x0F)"
    using hex_digit_inj [OF nibble_bounds(1) nibble_bounds(1) that(1)]
      hex_digit_inj [OF nibble_bounds(2) nibble_bounds(2) that(2)] nibble_join by metis
  have "hex_digit (0x0F AND d) = hex_digit (d AND 0x0F)" for d :: byte
    by (simp add: and.commute)
  with eq hex show ?thesis
    by (auto simp: escape_char_def split: if_splits)
qed

lemma escape_not_quote: "escape_char b \<noteq> [] \<and> hd (escape_char b) \<noteq> 34"
  by (simp add: escape_char_def)

lemma escapes_unambiguous:
  "concat (map escape_char bs) @ 34 # r = concat (map escape_char cs) @ 34 # s \<Longrightarrow> bs = cs \<and> r = s"
proof (induction bs arbitrary: cs)
  case Nil
  show ?case
  proof (cases cs)
    case (Cons c cs')
    then show ?thesis
      using Nil escape_not_quote [of c] by (cases "escape_char c") auto
  qed (use Nil in simp)
next
  case (Cons b bs)
  show ?case
  proof (cases cs)
    case Nil
    then show ?thesis
      using Cons.prems escape_not_quote [of b] by (cases "escape_char b") auto
  next
    case (Cons c cs')
    have "b = c \<and> concat (map escape_char bs) @ 34 # r = concat (map escape_char cs') @ 34 # s"
      using Cons.prems by (intro escape_unambiguous) (simp add: Cons)
    with Cons.IH [of cs'] show ?thesis by (simp add: Cons)
  qed
qed

lemma string_unambiguous: "encode_json_string a @ r = encode_json_string b @ s \<Longrightarrow> a = b \<and> r = s"
  using escapes_unambiguous [of "str_bytes a" r "str_bytes b" s] by (simp add: encode_json_string_def)

text \<open>Lists separated by commas and closed by a byte that starts no member.\<close>

definition unambiguous_at :: "('a \<Rightarrow> error + bytes) \<Rightarrow> ('a \<Rightarrow> 'b) \<Rightarrow> 'a \<Rightarrow> bool" where
  "unambiguous_at e c v \<longleftrightarrow> (\<forall>w a b r s. e v = Inr a \<longrightarrow> e w = Inr b \<longrightarrow> a @ r = b @ s \<longrightarrow> stop r \<longrightarrow> stop s \<longrightarrow>
     c v = c w \<and> a = b)"

lemma unambiguous_atD:
  "unambiguous_at e c v \<Longrightarrow> e v = Inr a \<Longrightarrow> e w = Inr b \<Longrightarrow> a @ r = b @ s \<Longrightarrow> stop r \<Longrightarrow> stop s \<Longrightarrow> c v = c w \<and> a = b"
  unfolding unambiguous_at_def by blast

lemma stop_Cons [simp]: "stop (b # r) \<longleftrightarrow> \<not> digit b"
  by (simp add: stop_def)

lemma not_digit [simp]: "\<not> digit 44" "\<not> digit 93" "\<not> digit 125" "\<not> digit 58"
  by (simp_all add: digit_def)

lemma comma_tail_stop:
  assumes "pushes (map (\<lambda>y. pushes [Inr [44], e y]) xs) = Inr a" and "\<not> digit close"
  shows "stop (a @ close # r)"
  using assms by (cases xs) auto

lemma comma_tail_unambiguous:
  assumes "\<And>x. x \<in> set xs \<Longrightarrow> unambiguous_at e c x" and "close \<noteq> 44" and "\<not> digit close"
    and "pushes (map (\<lambda>y. pushes [Inr [44], e y]) xs) = Inr a" and "pushes (map (\<lambda>y. pushes [Inr [44], e y]) ys) = Inr b"
    and "a @ close # r = b @ close # s"
  shows "map c xs = map c ys \<and> a = b"
  using assms(1,4,5,6)
proof (induction xs arbitrary: ys a b)
  case Nil
  then show ?case using assms(2) by (cases ys) auto
next
  case (Cons x xs)
  obtain a1 a2 where a: "e x = Inr a1" "pushes (map (\<lambda>y. pushes [Inr [44], e y]) xs) = Inr a2" "a = 44 # a1 @ a2"
    using Cons.prems(2) by auto
  show ?case
  proof (cases ys)
    case Nil
    then show ?thesis using Cons.prems(3,4) a(3) assms(2) by auto
  next
    case (Cons y ys')
    obtain b1 b2 where b: "e y = Inr b1" "pushes (map (\<lambda>y. pushes [Inr [44], e y]) ys') = Inr b2" "b = 44 # b1 @ b2"
      using Cons.prems(3) by (auto simp: Cons)
    have 1: "c x = c y \<and> a1 = b1"
      using Cons.prems(4) a(3) b(3) Cons.prems(1)
      by (intro unambiguous_atD [where e = e and c = c and r = "a2 @ close # r" and s = "b2 @ close # s", OF _ a(1) b(1)]
          comma_tail_stop [OF a(2) assms(3)] comma_tail_stop [OF b(2) assms(3)]) auto
    moreover have "map c xs = map c ys' \<and> a2 = b2"
      using Cons.prems(4) a(3) b(3) 1 Cons.prems(1) by (intro Cons.IH [OF _ a(2) b(2)]) auto
    ultimately show ?thesis by (simp add: Cons a(3) b(3))
  qed
qed

lemma comma_sep_unambiguous:
  assumes "\<And>x. x \<in> set xs \<Longrightarrow> unambiguous_at e c x" and "close \<noteq> 44" and "\<not> digit close"
    and "\<And>x a. e x = Inr a \<Longrightarrow> a \<noteq> [] \<and> hd a \<noteq> close"
    and "comma_sep (map e xs) = Inr a" and "comma_sep (map e ys) = Inr b" and eq: "a @ close # r = b @ close # s"
  shows "map c xs = map c ys \<and> a = b"
proof (cases xs; cases ys)
  fix x xs' y ys'
  assume xy: "xs = x # xs'" "ys = y # ys'"
  obtain a1 a2 where a: "e x = Inr a1" "pushes (map (\<lambda>y. pushes [Inr [44], e y]) xs') = Inr a2" "a = a1 @ a2"
    using assms(5) by (auto simp: xy comp_def)
  obtain b1 b2 where b: "e y = Inr b1" "pushes (map (\<lambda>y. pushes [Inr [44], e y]) ys') = Inr b2" "b = b1 @ b2"
    using assms(6) by (auto simp: xy comp_def)
  have 1: "c x = c y \<and> a1 = b1"
    using eq a(3) b(3) assms(1)
    by (intro unambiguous_atD [where e = e and c = c and r = "a2 @ close # r" and s = "b2 @ close # s", OF _ a(1) b(1)]
        comma_tail_stop [OF a(2) assms(3)] comma_tail_stop [OF b(2) assms(3)]) (auto simp: xy)
  moreover have "map c xs' = map c ys' \<and> a2 = b2"
    using eq a(3) b(3) 1 assms(1) by (intro comma_tail_unambiguous [OF _ assms(2,3) a(2) b(2)]) (auto simp: xy)
  ultimately show ?thesis by (simp add: xy a(3) b(3))
next
  fix y ys'
  assume xy: "xs = []" "ys = y # ys'"
  then obtain b1 b2 where "e y = Inr b1" "b = b1 @ b2" using assms(6) by (auto simp: comp_def)
  with assms(4) [of y b1] eq assms(5) show ?thesis by (cases b1) (auto simp: xy)
next
  fix x xs'
  assume xy: "xs = x # xs'" "ys = []"
  then obtain a1 a2 where "e x = Inr a1" "a = a1 @ a2" using assms(5) by (auto simp: comp_def)
  with assms(4) [of x a1] eq assms(6) show ?thesis by (cases a1) (auto simp: xy)
qed (use assms(5,6) in auto)

section \<open>Canonical text is unambiguous\<close>

lemma number_text_shape:
  "number_text n = Inr a \<Longrightarrow> \<exists>i. n = Integer i \<and> a = int_to_string i"
  by (auto simp: number_text_def as_i64_def as_u64_def split: option.splits json_number.splits if_splits)

lemma decimal_head: "\<exists>d ds. decimal n = d # ds \<and> digit d"
  using decimal_digits [of n] decimal_nonempty [of n] by (cases "decimal n") auto

lemma int_to_string_unambiguous:
  assumes "stop r" and "stop s" and "int_to_string i @ r = int_to_string j @ s"
  shows "i = j"
proof -
  have minus: "\<not> digit 45" by (simp add: digit_def)
  consider "i < 0" "j < 0" | "\<not> i < 0" "\<not> j < 0" | "i < 0" "\<not> j < 0" | "\<not> i < 0" "j < 0" by blast
  then show ?thesis
  proof cases
    case 1
    then have "nat (- i) = nat (- j)"
      using assms by (intro decimal_unambiguous [of r s]) (simp_all add: int_to_string_def)
    with 1 show ?thesis by simp
  next
    case 2
    then have "nat i = nat j"
      using assms by (intro decimal_unambiguous [of r s]) (simp_all add: int_to_string_def)
    with 2 show ?thesis by simp
  next
    case 3
    then show ?thesis using assms(3) decimal_head [of "nat j"] minus by (auto simp: int_to_string_def)
  next
    case 4
    then show ?thesis using assms(3) decimal_head [of "nat i"] minus by (auto simp: int_to_string_def)
  qed
qed

text \<open>The first byte of a value's text tells its kind.\<close>

definition json_head :: "json \<Rightarrow> byte \<Rightarrow> bool" where
  "json_head v b \<longleftrightarrow> (case v of JNull \<Rightarrow> b = 110 | JBool t \<Rightarrow> b = (if t then 116 else 102)
     | JNumber _ \<Rightarrow> b = 45 \<or> digit b | JString _ \<Rightarrow> b = 34 | JArray _ \<Rightarrow> b = 91 | JObject _ \<Rightarrow> b = 123)"

lemma canonicalize_head: "canonicalize_json v = Inr a \<Longrightarrow> \<exists>b bs. a = b # bs \<and> json_head v b"
proof (cases v)
  case (JNumber n)
  assume "canonicalize_json v = Inr a"
  then obtain i where "a = int_to_string i"
    using number_text_shape by (auto simp: JNumber)
  then show ?thesis
    using decimal_head [of "nat i"] by (auto simp: JNumber json_head_def int_to_string_def)
qed (auto simp: json_head_def ascii_def encode_json_string_def)

lemma json_head_unique:
  assumes "json_head v b" and "json_head w b"
  shows "v = w \<or> (\<exists>m n. v = JNumber m \<and> w = JNumber n) \<or> (\<exists>m n. v = JString m \<and> w = JString n) \<or>
    (\<exists>m n. v = JArray m \<and> w = JArray n) \<or> (\<exists>m n. v = JObject m \<and> w = JObject n)"
proof -
  have "\<not> digit 110" "\<not> digit 116" "\<not> digit 102" "\<not> digit 34" "\<not> digit 91" "\<not> digit 123"
    by (simp_all add: digit_def)
  with assms show ?thesis
    by (cases v; cases w; simp add: json_head_def split: if_splits; (metis)?)
qed

lemma json_head_not_close: "\<not> json_head v 93"
  by (cases v) (simp_all add: json_head_def digit_def)

lemma canonicalize_same_kind:
  assumes "canonicalize_json v = Inr a" and "canonicalize_json w = Inr b" and "a @ r = b @ s"
  shows "w = v \<or> (\<exists>m n. v = JNumber m \<and> w = JNumber n) \<or> (\<exists>m n. v = JString m \<and> w = JString n) \<or>
    (\<exists>m n. v = JArray m \<and> w = JArray n) \<or> (\<exists>m n. v = JObject m \<and> w = JObject n)"
proof -
  obtain x xs where x: "a = x # xs" "json_head v x"
    using canonicalize_head [OF assms(1)] by blast
  obtain y ys where y: "b = y # ys" "json_head w y"
    using canonicalize_head [OF assms(2)] by blast
  from assms(3) x y have "json_head w x" by simp
  from json_head_unique [OF x(2) this] show ?thesis by blast
qed

lemma member_unambiguous:
  assumes "unambiguous_at canonicalize_json json_norm (snd kv)"
  shows "unambiguous_at (\<lambda>kv. pushes [Inr (encode_json_string (fst kv)), Inr [58], canonicalize_json (snd kv)])
    (\<lambda>kv. (fst kv, json_norm (snd kv))) kv"
  unfolding unambiguous_at_def
proof (intro allI impI)
  fix lw a b r s
  assume a: "pushes [Inr (encode_json_string (fst kv)), Inr [58], canonicalize_json (snd kv)] = Inr a"
    and b: "pushes [Inr (encode_json_string (fst lw)), Inr [58], canonicalize_json (snd lw)] = Inr b"
    and eq: "a @ r = b @ s" and stops: "stop r" "stop s"
  obtain a' b' where a': "canonicalize_json (snd kv) = Inr a'" "a = encode_json_string (fst kv) @ 58 # a'"
      and b': "canonicalize_json (snd lw) = Inr b'" "b = encode_json_string (fst lw) @ 58 # b'"
    using a b by auto
  have "fst kv = fst lw \<and> 58 # a' @ r = 58 # b' @ s"
    using eq by (intro string_unambiguous) (simp add: a'(2) b'(2))
  moreover from this have "json_norm (snd kv) = json_norm (snd lw) \<and> a' = b'"
    using unambiguous_atD [OF assms a'(1) b'(1), of r s] stops by simp
  ultimately show "(fst kv, json_norm (snd kv)) = (fst lw, json_norm (snd lw)) \<and> a = b"
    by (simp add: a'(2) b'(2))
qed

lemma canonicalize_unambiguous: "unambiguous_at canonicalize_json json_norm v"
proof (induction v rule: canonicalize_json.induct)
  case (5 items)
  show ?case
    unfolding unambiguous_at_def
  proof (intro allI impI)
    fix w a b r s
    assume a: "canonicalize_json (JArray items) = Inr a" and b: "canonicalize_json w = Inr b" and eq: "a @ r = b @ s"
    then obtain items' where w: "w = JArray items'"
      using canonicalize_same_kind [OF a b] by blast
    obtain a' b' where ab: "comma_sep (map canonicalize_json items) = Inr a'" "a = 91 # a' @ [93]"
        "comma_sep (map canonicalize_json items') = Inr b'" "b = 91 # b' @ [93]"
      using a b by (auto simp: w)
    have "map json_norm items = map json_norm items' \<and> a' = b'"
    proof (rule comma_sep_unambiguous [where e = canonicalize_json and close = 93, OF _ _ _ _ ab(1,3)])
      show "a \<noteq> [] \<and> hd a \<noteq> 93" if "canonicalize_json x = Inr a" for x a
        using canonicalize_head [OF that] json_head_not_close by auto
    qed (use 5 eq ab in auto)
    then show "json_norm (JArray items) = json_norm w \<and> a = b"
      by (simp add: w ab)
  qed
next
  case (6 members)
  show ?case
    unfolding unambiguous_at_def
  proof (intro allI impI)
    fix w a b r s
    assume a: "canonicalize_json (JObject members) = Inr a" and b: "canonicalize_json w = Inr b" and eq: "a @ r = b @ s"
    then obtain members' where w: "w = JObject members'"
      using canonicalize_same_kind [OF a b] by blast
    let ?e = "\<lambda>kv. pushes [Inr (encode_json_string (fst kv)), Inr [58], canonicalize_json (snd kv)]"
    obtain a' b' where ab: "comma_sep (map ?e (sorted_members members)) = Inr a'" "a = 123 # a' @ [125]"
        "comma_sep (map ?e (sorted_members members')) = Inr b'" "b = 123 # b' @ [125]"
      using a b by (auto simp: w)
    have "map (\<lambda>kv. (fst kv, json_norm (snd kv))) (sorted_members members) =
        map (\<lambda>kv. (fst kv, json_norm (snd kv))) (sorted_members members') \<and> a' = b'"
    proof (rule comma_sep_unambiguous [where e = ?e and close = 125, OF _ _ _ _ ab(1,3)])
      show "unambiguous_at ?e (\<lambda>kv. (fst kv, json_norm (snd kv))) x" if "x \<in> set (sorted_members members)" for x
        by (rule member_unambiguous) (rule 6 [OF that])
      show "a \<noteq> [] \<and> hd a \<noteq> 125" if "?e x = Inr a" for x a
        using that by (auto simp: encode_json_string_def)
    qed (use eq ab in auto)
    then show "json_norm (JObject members) = json_norm w \<and> a = b"
      by (simp add: w ab)
  qed
next
  case (3 n)
  show ?case
    unfolding unambiguous_at_def
  proof (intro allI impI)
    fix w a b r s
    assume a: "canonicalize_json (JNumber n) = Inr a" and b: "canonicalize_json w = Inr b"
      and eq: "a @ r = b @ s" "stop r" "stop s"
    then obtain n' where w: "w = JNumber n'"
      using canonicalize_same_kind [OF a b] by blast
    obtain i j where "n = Integer i" "a = int_to_string i" "n' = Integer j" "b = int_to_string j"
      using a b number_text_shape [of n a] number_text_shape [of n' b] by (auto simp: w)
    with int_to_string_unambiguous [OF eq(2,3), of i j] eq(1) show "json_norm (JNumber n) = json_norm w \<and> a = b"
      by (simp add: w)
  qed
next
  case (4 t)
  show ?case
    unfolding unambiguous_at_def
  proof (intro allI impI)
    fix w a b r s
    assume a: "canonicalize_json (JString t) = Inr a" and b: "canonicalize_json w = Inr b" and eq: "a @ r = b @ s"
    then obtain t' where w: "w = JString t'"
      using canonicalize_same_kind [OF a b] by blast
    with a b eq string_unambiguous [of t r t' s] show "json_norm (JString t) = json_norm w \<and> a = b"
      by auto
  qed
next
  case 1
  have "JNull = w" if "canonicalize_json JNull = Inr a" "canonicalize_json w = Inr b" "a @ r = b @ s" for w a b r s
    using canonicalize_same_kind [OF that] by blast
  then show ?case
    unfolding unambiguous_at_def by (metis Inr_inject)
next
  case (2 t)
  have "JBool t = w" if "canonicalize_json (JBool t) = Inr a" "canonicalize_json w = Inr b" "a @ r = b @ s" for w a b r s
    using canonicalize_same_kind [OF that] by blast
  then show ?case
    unfolding unambiguous_at_def by (metis Inr_inject)
qed

section \<open>One text per value\<close>

lemma sorted_members_map:
  "sorted_members (map (\<lambda>kv. (fst kv, f (snd kv))) ms) = map (\<lambda>kv. (fst kv, f (snd kv))) (sorted_members ms)"
  unfolding sorted_members_def
proof (induction ms)
  case (Cons kv ms)
  have "insort_key (\<lambda>kv. str_bytes (fst kv)) (fst x, f (snd x)) (map (\<lambda>kv. (fst kv, f (snd kv))) ys) =
      map (\<lambda>kv. (fst kv, f (snd kv))) (insort_key (\<lambda>kv. str_bytes (fst kv)) x ys)" for x ys
    by (induction ys) auto
  with Cons show ?case by simp
qed simp

lemma sorted_members_idem [simp]: "sorted_members (sorted_members ms) = sorted_members ms"
  by (simp add: sorted_members_def sort_key_id_if_sorted)

lemma canonicalize_norm: "canonicalize_json (json_norm v) = canonicalize_json v"
proof (induction v rule: canonicalize_json.induct)
  case (5 items)
  then have "map canonicalize_json (map json_norm items) = map canonicalize_json items"
    by simp
  then show ?case by (simp only: json_norm.simps canonicalize_json.simps)
next
  case (6 members)
  then have "map (\<lambda>kv. pushes [Inr (encode_json_string (fst kv)), Inr [58], canonicalize_json (snd kv)])
        (map (\<lambda>kv. (fst kv, json_norm (snd kv))) (sorted_members members)) =
      map (\<lambda>kv. pushes [Inr (encode_json_string (fst kv)), Inr [58], canonicalize_json (snd kv)]) (sorted_members members)"
    by simp
  then show ?case
    by (simp only: json_norm.simps canonicalize_json.simps sorted_members_map sorted_members_idem)
qed simp_all

lemma canonicalize_eq_iff:
  assumes "canonicalize_json v = Inr a" and "canonicalize_json w = Inr b"
  shows "a = b \<longleftrightarrow> json_norm v = json_norm w"
proof
  assume "a = b"
  then show "json_norm v = json_norm w"
    using unambiguous_atD [OF canonicalize_unambiguous assms, of "[]" "[]"] by (simp add: stop_def)
next
  assume "json_norm v = json_norm w"
  then show "a = b"
    using assms canonicalize_norm by (metis Inr_inject)
qed

lemma json_norm_perm:
  assumes "distinct (map fst ms)" and "mset ms = mset ns"
  shows "json_norm (JObject ms) = json_norm (JObject ns)"
proof -
  have "distinct (map (\<lambda>kv. str_bytes (fst kv)) ms)"
    using assms(1) by (auto simp: distinct_map inj_on_def)
  then have "sorted_members ms = sorted_members ns"
    unfolding sorted_members_def using assms(2) by (intro sort_key_perm_eq)
  then show ?thesis by simp
qed

lemma encode_attributes_Inr:
  "encode_canonical_attributes parse t = Inr a \<longleftrightarrow>
     (\<exists>v. parse t = Inr v \<and> is_object v \<and> canonicalize_json v = Inr a)"
  by (auto simp: encode_canonical_attributes_def)

lemma validate_attributes_Inr:
  "validate_canonical_attributes parse bs = Inr u \<longleftrightarrow>
     (\<exists>t v. bs = str_bytes t \<and> parse t = Inr v \<and> is_object v \<and> canonicalize_json v = Inr bs)"
  by (auto simp: validate_canonical_attributes_def encode_attributes_Inr)

section \<open>Properties\<close>


definition toy_text :: bytes where
  "toy_text = [123, 34, 97, 34, 58] @ ascii ''true'' @ [44, 34, 98, 34, 58] @ ascii ''null'' @ [125]"

definition toy_parse :: "rstring \<Rightarrow> error + json" where
  "toy_parse t =
    (if str_bytes t = ascii ''{}'' then Inr (JObject [])
     else if str_bytes t = toy_text then Inr (JObject [(mk_str [97], JBool True), (mk_str [98], JNull)])
     else Inr (JObject [(mk_str [98], JNull), (mk_str [97], JBool True)]))"

lemma toy_canonical:
  "canonicalize_json (JObject [(mk_str [97], JBool True), (mk_str [98], JNull)]) = Inr toy_text"
  "canonicalize_json (JObject [(mk_str [98], JNull), (mk_str [97], JBool True)]) = Inr toy_text"
  by (simp_all add: sorted_members_def encode_json_string_def escape_char_def pushes.simps toy_text_def ascii_def)


end
