(* ===== verification/SeriesLeaf.thy ===== *)
theory SeriesLeaf
  imports SeriesRows SeriesAttributes
begin

text \<open>
  Logical leaves, from \<open>content/series_leaf.rs\<close>: the leaf preimage, the identity hash of a table
  leaf and of a file leaf, and the two incremental hashers. \<open>blake3\<close> is the one-shot hash and
  \<open>ops\<close> the streaming interface of the same crate; \<open>hasher_spec\<close> is their documented relation.
\<close>

section \<open>The leaf preimage and the leaf hashes\<close>

definition LEAF_MAGIC :: bytes where "LEAF_MAGIC = ascii ''watertown.series-leaf.v1'' @ [10]"
definition LEAF_KIND_TABLE :: byte where "LEAF_KIND_TABLE = 0"
definition LEAF_KIND_FILE :: byte where "LEAF_KIND_FILE = 1"

definition leaf_preimage ::
    "bytes \<Rightarrow> byte \<Rightarrow> bytes \<Rightarrow> u64 \<Rightarrow> bytes \<Rightarrow> i64 option \<Rightarrow> i64 option \<Rightarrow> bytes \<Rightarrow> error + bytes" where
  "leaf_preimage magic payload_kind fingerprint logical_count payload mn mx attrs = pushes
    [Inr magic, Inr [payload_kind], push_len_prefixed fingerprint, Inr (le64 logical_count),
     push_len_prefixed_u64 payload, push_bounds mn mx, push_len_prefixed attrs]"

definition leaf_hash_with_magic ::
    "(bytes \<Rightarrow> hash32) \<Rightarrow> bytes \<Rightarrow> byte \<Rightarrow> bytes \<Rightarrow> u64 \<Rightarrow> bytes \<Rightarrow> i64 option \<Rightarrow> i64 option \<Rightarrow> bytes \<Rightarrow> error + hash32" where
  "leaf_hash_with_magic blake3 magic payload_kind fingerprint logical_count payload mn mx attrs =
    res_bind (leaf_preimage magic payload_kind fingerprint logical_count payload mn mx attrs) (\<lambda>bs. Inr (blake3 bs))"

text \<open>\<open>attributes.unwrap_or(&[])\<close>.\<close>

definition or_empty :: "bytes option \<Rightarrow> bytes" where
  "or_empty attrs = (case attrs of None \<Rightarrow> [] | Some a \<Rightarrow> a)"

definition table_leaf_hash_canonical_with_magic ::
    "(bytes \<Rightarrow> hash32) \<Rightarrow> cast_fn \<Rightarrow> schema \<Rightarrow> record_batch list \<Rightarrow> i64 option \<Rightarrow> i64 option \<Rightarrow> bytes option \<Rightarrow>
     bytes \<Rightarrow> bytes \<Rightarrow> bytes \<Rightarrow> error + hash32" where
  "table_leaf_hash_canonical_with_magic blake3 cast s batches mn mx attrs leaf_magic schema_magic rows_magic =
    res_bind (schema_fingerprint_with_magic blake3 s schema_magic) (\<lambda>fingerprint.
    res_bind (encode_canonical_rows_with_magic cast s batches rows_magic) (\<lambda>payload.
    res_bind (row_total ''table leaf row count exceeds u64::MAX'' 0 batches) (\<lambda>logical_count.
    res_bind (require (logical_count \<noteq> 0) (Reject ''a logical table leaf must contain at least one row'')) (\<lambda>_.
      leaf_hash_with_magic blake3 leaf_magic LEAF_KIND_TABLE (as_bytes fingerprint) (of_nat logical_count)
        payload mn mx (or_empty attrs)))))"

definition table_leaf_hash_canonical ::
    "(bytes \<Rightarrow> hash32) \<Rightarrow> cast_fn \<Rightarrow> schema \<Rightarrow> record_batch list \<Rightarrow> i64 option \<Rightarrow> i64 option \<Rightarrow> bytes option \<Rightarrow> error + hash32" where
  "table_leaf_hash_canonical blake3 cast s batches mn mx attrs =
    table_leaf_hash_canonical_with_magic blake3 cast s batches mn mx attrs LEAF_MAGIC SCHEMA_MAGIC ROWS_MAGIC"

text \<open>\<open>match attributes { Some(json) => Some(encode_canonical_attributes(json)?), None => None }\<close>.\<close>

definition canonical_option :: "(rstring \<Rightarrow> error + json) \<Rightarrow> rstring option \<Rightarrow> error + bytes option" where
  "canonical_option parse attrs =
    (case attrs of Some text \<Rightarrow> res_bind (encode_canonical_attributes parse text) (\<lambda>a. Inr (Some a)) | None \<Rightarrow> Inr None)"

definition table_leaf_hash ::
    "(bytes \<Rightarrow> hash32) \<Rightarrow> (rstring \<Rightarrow> error + json) \<Rightarrow> cast_fn \<Rightarrow> schema \<Rightarrow> record_batch list \<Rightarrow> i64 option \<Rightarrow> i64 option \<Rightarrow>
     rstring option \<Rightarrow> error + hash32" where
  "table_leaf_hash blake3 parse cast s batches mn mx attrs =
    res_bind (canonical_option parse attrs) (\<lambda>attrs. table_leaf_hash_canonical blake3 cast s batches mn mx attrs)"

definition file_leaf_hash_canonical_with_magic ::
    "(bytes \<Rightarrow> hash32) \<Rightarrow> bytes \<Rightarrow> i64 option \<Rightarrow> i64 option \<Rightarrow> bytes option \<Rightarrow> bytes \<Rightarrow> error + hash32" where
  "file_leaf_hash_canonical_with_magic blake3 bs mn mx attrs magic =
    res_bind (require (bs \<noteq> []) (Reject ''a logical file leaf must contain at least one byte'')) (\<lambda>_.
      leaf_hash_with_magic blake3 magic LEAF_KIND_FILE [] (of_nat (length bs)) bs mn mx (or_empty attrs))"

definition file_leaf_hash_canonical ::
    "(bytes \<Rightarrow> hash32) \<Rightarrow> bytes \<Rightarrow> i64 option \<Rightarrow> i64 option \<Rightarrow> bytes option \<Rightarrow> error + hash32" where
  "file_leaf_hash_canonical blake3 bs mn mx attrs = file_leaf_hash_canonical_with_magic blake3 bs mn mx attrs LEAF_MAGIC"

definition file_leaf_hash ::
    "(bytes \<Rightarrow> hash32) \<Rightarrow> (rstring \<Rightarrow> error + json) \<Rightarrow> bytes \<Rightarrow> i64 option \<Rightarrow> i64 option \<Rightarrow> rstring option \<Rightarrow> error + hash32" where
  "file_leaf_hash blake3 parse bs mn mx attrs =
    res_bind (canonical_option parse attrs) (\<lambda>attrs. file_leaf_hash_canonical blake3 bs mn mx attrs)"

section \<open>Incremental hashers\<close>

text \<open>The streaming interface of the hash: \<open>Hasher::new\<close>, \<open>update\<close> and \<open>finalize\<close>.\<close>

record 'h hasher_ops =
  h_new :: 'h
  h_update :: "'h \<Rightarrow> bytes \<Rightarrow> 'h"
  h_finalize :: "'h \<Rightarrow> hash32"

definition updates :: "'h hasher_ops \<Rightarrow> 'h \<Rightarrow> bytes list \<Rightarrow> 'h" where
  "updates ops h chunks = foldl (h_update ops) h chunks"

definition hasher_spec :: "'h hasher_ops \<Rightarrow> (bytes \<Rightarrow> hash32) \<Rightarrow> bool" where
  "hasher_spec ops blake3 \<longleftrightarrow> (\<forall>chunks. h_finalize ops (updates ops (h_new ops) chunks) = blake3 (concat chunks))"

text \<open>The updates both \<open>finish\<close> functions end with: bounds, then the attributes and their length.\<close>

definition bounds_chunks :: "i64 option \<Rightarrow> i64 option \<Rightarrow> bytes list" where
  "bounds_chunks mn mx =
    (let flags = 0 OR flag_if mn LEAF_HAS_MIN OR flag_if mx LEAF_HAS_MAX
     in [[flags]] @ (case mn of Some v \<Rightarrow> [le64 v] | None \<Rightarrow> []) @ (case mx of Some v \<Rightarrow> [le64 v] | None \<Rightarrow> []))"

definition finish_leaf :: "'h hasher_ops \<Rightarrow> 'h \<Rightarrow> i64 option \<Rightarrow> i64 option \<Rightarrow> bytes \<Rightarrow> string \<Rightarrow> error + hash32" where
  "finish_leaf ops h mn mx attrs msg =
    (let h = updates ops h (bounds_chunks mn mx) in
     res_bind (require (length attrs \<le> u32_max) (Reject msg)) (\<lambda>_.
       Inr (h_finalize ops (updates ops h [le32 (of_nat (length attrs)), attrs]))))"

record 'h incremental_file =
  if_hasher :: 'h
  if_logical_count :: u64
  if_written :: nat
  if_min :: "i64 option"
  if_max :: "i64 option"
  if_attributes :: bytes

definition file_hasher_new ::
    "'h hasher_ops \<Rightarrow> bytes \<Rightarrow> u64 \<Rightarrow> i64 option \<Rightarrow> i64 option \<Rightarrow> bytes option \<Rightarrow> error + 'h incremental_file" where
  "file_hasher_new ops magic logical_count mn mx attrs =
    res_bind (require (logical_count \<noteq> 0) (Reject ''a logical file leaf must contain at least one byte'')) (\<lambda>_.
      Inr \<lparr>if_hasher = updates ops (h_new ops)
             [magic, [LEAF_KIND_FILE], le32 0, le64 logical_count, le64 logical_count],
           if_logical_count = logical_count, if_written = 0, if_min = mn, if_max = mx,
           if_attributes = or_empty attrs\<rparr>)"

definition file_hasher_remaining :: "'h incremental_file \<Rightarrow> nat" where
  "file_hasher_remaining st = unat (if_logical_count st) - if_written st"

definition file_hasher_write :: "'h hasher_ops \<Rightarrow> 'h incremental_file \<Rightarrow> bytes \<Rightarrow> error + 'h incremental_file" where
  "file_hasher_write ops st chunk =
    (let new_written = if_written st + length chunk in
     res_bind (require (new_written \<le> u64_max) (Reject ''file leaf byte count exceeds u64::MAX'')) (\<lambda>_.
     res_bind (require (new_written \<le> unat (if_logical_count st))
       (Reject ''file leaf received more bytes than its declared logical_count'')) (\<lambda>_.
       Inr (st\<lparr>if_hasher := h_update ops (if_hasher st) chunk, if_written := new_written\<rparr>))))"

definition file_hasher_finish :: "'h hasher_ops \<Rightarrow> 'h incremental_file \<Rightarrow> error + hash32" where
  "file_hasher_finish ops st =
    res_bind (require (if_written st = unat (if_logical_count st)) (Reject ''file leaf truncated'')) (\<lambda>_.
      finish_leaf ops (if_hasher st) (if_min st) (if_max st) (if_attributes st)
        ''file leaf canonical attributes length exceeds u32::MAX'')"

record 'h incremental_table =
  it_hasher :: 'h
  it_schema :: schema
  it_logical_count :: u64
  it_rows_written :: nat
  it_canonical_rows_len :: u64
  it_canonical_rows_written :: nat
  it_min :: "i64 option"
  it_max :: "i64 option"
  it_attributes :: bytes

definition table_hasher_new_with_domains ::
    "'h hasher_ops \<Rightarrow> (bytes \<Rightarrow> hash32) \<Rightarrow> bytes \<Rightarrow> schema \<Rightarrow> u64 \<Rightarrow> u64 \<Rightarrow> i64 option \<Rightarrow> i64 option \<Rightarrow> bytes option \<Rightarrow>
     bytes \<Rightarrow> bytes \<Rightarrow> error + 'h incremental_table" where
  "table_hasher_new_with_domains ops blake3 magic s logical_count rows_len mn mx attrs rows_magic schema_magic =
    res_bind (require (logical_count \<noteq> 0) (Reject ''a logical table leaf must contain at least one row'')) (\<lambda>_.
    res_bind (schema_fingerprint_with_magic blake3 s schema_magic) (\<lambda>fingerprint.
    let payload_len = length rows_magic + 8 + unat rows_len in
    res_bind (require (payload_len \<le> u64_max) (Reject ''canonical table payload length exceeds u64::MAX'')) (\<lambda>_.
      Inr \<lparr>it_hasher = updates ops (h_new ops)
             [magic, [LEAF_KIND_TABLE], le32 32, as_bytes fingerprint, le64 logical_count,
              le64 (of_nat payload_len), rows_magic, le64 logical_count],
           it_schema = s, it_logical_count = logical_count, it_rows_written = 0,
           it_canonical_rows_len = rows_len, it_canonical_rows_written = 0,
           it_min = mn, it_max = mx, it_attributes = or_empty attrs\<rparr>)))"

definition table_hasher_new ::
    "'h hasher_ops \<Rightarrow> (bytes \<Rightarrow> hash32) \<Rightarrow> schema \<Rightarrow> u64 \<Rightarrow> u64 \<Rightarrow> i64 option \<Rightarrow> i64 option \<Rightarrow> bytes option \<Rightarrow>
     error + 'h incremental_table" where
  "table_hasher_new ops blake3 s logical_count rows_len mn mx attrs =
    table_hasher_new_with_domains ops blake3 LEAF_MAGIC s logical_count rows_len mn mx attrs ROWS_MAGIC SCHEMA_MAGIC"

definition table_hasher_write_batch ::
    "'h hasher_ops \<Rightarrow> cast_fn \<Rightarrow> 'h incremental_table \<Rightarrow> record_batch \<Rightarrow> error + 'h incremental_table" where
  "table_hasher_write_batch ops cast st batch =
    res_bind (encode_canonical_batch_rows cast (it_schema st) batch) (\<lambda>rows.
    let new_row_count = it_rows_written st + num_rows batch;
        new_byte_count = it_canonical_rows_written st + length rows in
    res_bind (require (new_row_count \<le> u64_max) (Reject ''table leaf row count exceeds u64::MAX'')) (\<lambda>_.
    res_bind (require (new_byte_count \<le> u64_max) (Reject ''canonical table row bytes exceed u64::MAX'')) (\<lambda>_.
    res_bind (require (\<not> (unat (it_logical_count st) < new_row_count \<or> unat (it_canonical_rows_len st) < new_byte_count))
       (Reject ''table leaf received more rows or bytes than declared'')) (\<lambda>_.
       Inr (st\<lparr>it_hasher := h_update ops (it_hasher st) rows, it_rows_written := new_row_count,
               it_canonical_rows_written := new_byte_count\<rparr>)))))"

definition table_hasher_finish :: "'h hasher_ops \<Rightarrow> 'h incremental_table \<Rightarrow> error + hash32" where
  "table_hasher_finish ops st =
    res_bind (require (it_rows_written st = unat (it_logical_count st) \<and>
        it_canonical_rows_written st = unat (it_canonical_rows_len st)) (Reject ''table leaf rows or bytes missing'')) (\<lambda>_.
      finish_leaf ops (it_hasher st) (it_min st) (it_max st) (it_attributes st)
        ''table leaf canonical attributes length exceeds u32::MAX'')"

text \<open>A whole run of a hasher: \<open>new\<close>, one \<open>write\<close> per chunk, \<open>finish\<close>.\<close>

fun res_fold :: "('s \<Rightarrow> 'a \<Rightarrow> error + 's) \<Rightarrow> 's \<Rightarrow> 'a list \<Rightarrow> error + 's" where
  "res_fold f st [] = Inr st"
| "res_fold f st (x # xs) = res_bind (f st x) (\<lambda>st. res_fold f st xs)"

definition hash_file_chunks ::
    "'h hasher_ops \<Rightarrow> u64 \<Rightarrow> i64 option \<Rightarrow> i64 option \<Rightarrow> bytes option \<Rightarrow> bytes list \<Rightarrow> error + hash32" where
  "hash_file_chunks ops logical_count mn mx attrs chunks =
    res_bind (file_hasher_new ops LEAF_MAGIC logical_count mn mx attrs) (\<lambda>st.
    res_bind (res_fold (file_hasher_write ops) st chunks) (file_hasher_finish ops))"

definition hash_table_batches ::
    "'h hasher_ops \<Rightarrow> (bytes \<Rightarrow> hash32) \<Rightarrow> cast_fn \<Rightarrow> schema \<Rightarrow> u64 \<Rightarrow> u64 \<Rightarrow> i64 option \<Rightarrow> i64 option \<Rightarrow> bytes option \<Rightarrow>
     record_batch list \<Rightarrow> error + hash32" where
  "hash_table_batches ops blake3 cast s logical_count rows_len mn mx attrs batches =
    res_bind (table_hasher_new ops blake3 s logical_count rows_len mn mx attrs) (\<lambda>st.
    res_bind (res_fold (table_hasher_write_batch ops cast) st batches) (table_hasher_finish ops))"

section \<open>Incremental equals one-shot\<close>

lemma updates_updates: "updates ops (updates ops h a) b = updates ops h (a @ b)"
  by (simp add: updates_def)

lemma concat_bounds_chunks: "push_bounds mn mx = Inr (concat (bounds_chunks mn mx))"
  by (cases mn; cases mx; simp add: push_bounds_def bounds_chunks_def push_opt_i64_def pushes.simps Let_def)

lemma finish_leaf_iff:
  assumes "hasher_spec ops H"
  shows "finish_leaf ops (updates ops (h_new ops) chunks) mn mx attrs msg = Inr r \<longleftrightarrow>
    (\<exists>b c. push_bounds mn mx = Inr b \<and> push_len_prefixed attrs = Inr c \<and> r = H (concat chunks @ b @ c))"
  using assms
  by (auto simp: finish_leaf_def updates_updates concat_bounds_chunks push_len_prefixed_def hasher_spec_def)

lemma file_writes:
  "res_fold (file_hasher_write ops) st chunks = Inr st' \<longleftrightarrow>
     (if_written st + length (concat chunks) \<le> unat (if_logical_count st) \<or> chunks = []) \<and>
     st' = st\<lparr>if_hasher := updates ops (if_hasher st) chunks, if_written := if_written st + length (concat chunks)\<rparr>"
proof (induction chunks arbitrary: st)
  case Nil
  then show ?case by (auto simp: updates_def)
next
  case (Cons c cs)
  have u: "unat (if_logical_count st) \<le> u64_max" by (rule unat_u64_le)
  show ?case
  proof (cases "if_written st + length c \<le> unat (if_logical_count st)")
    case True
    then have "file_hasher_write ops st c =
        Inr (st\<lparr>if_hasher := h_update ops (if_hasher st) c, if_written := if_written st + length c\<rparr>)"
      using u by (simp add: file_hasher_write_def Let_def)
    then show ?thesis
      using True by (cases "cs = []") (auto simp: Cons.IH updates_def add.assoc)
  next
    case False
    then have "\<exists>e. file_hasher_write ops st c = Inl e"
      by (auto simp: file_hasher_write_def Let_def require_def)
    with False show ?thesis by auto
  qed
qed

lemma leaf_hash_Inr:
  "leaf_hash_with_magic H magic kind fp n payload mn mx attrs = Inr r \<longleftrightarrow>
    (\<exists>f b c. push_len_prefixed fp = Inr f \<and> length payload \<le> u64_max \<and> push_bounds mn mx = Inr b \<and>
      push_len_prefixed attrs = Inr c \<and>
      r = H (magic @ [kind] @ f @ le64 n @ le64 (of_nat (length payload)) @ payload @ b @ c))"
  by (auto simp: leaf_hash_with_magic_def leaf_preimage_def push_len_prefixed_u64_def)

lemma file_chunks_iff:
  assumes "hasher_spec ops H"
  shows "hash_file_chunks ops n mn mx attrs chunks = Inr r \<longleftrightarrow>
    length (concat chunks) = unat n \<and> file_leaf_hash_canonical H (concat chunks) mn mx attrs = Inr r"
proof (cases "length (concat chunks) = unat n")
  case False
  then show ?thesis
    by (auto simp: hash_file_chunks_def file_hasher_new_def file_writes file_hasher_finish_def)
next
  case True
  have ne: "concat chunks \<noteq> [] \<longleftrightarrow> n \<noteq> 0"
    using True by (metis length_0_conv unat_eq_zero)
  have n: "word_of_nat (length (concat chunks)) = n"
    using True by simp
  have le: "length (concat chunks) \<le> u64_max"
    unfolding True by (rule unat_u64_le)
  have fp: "push_len_prefixed [] = Inr (le32 0)"
    by (simp add: push_len_prefixed_def)
  have "hash_file_chunks ops n mn mx attrs chunks = Inr r \<longleftrightarrow> n \<noteq> 0 \<and>
      finish_leaf ops (updates ops (h_new ops) ([LEAF_MAGIC, [LEAF_KIND_FILE], le32 0, le64 n, le64 n] @ chunks))
        mn mx (or_empty attrs) ''file leaf canonical attributes length exceeds u32::MAX'' = Inr r"
    using True by (auto simp: hash_file_chunks_def file_hasher_new_def file_writes file_hasher_finish_def updates_updates)
  also have "\<dots> \<longleftrightarrow> n \<noteq> 0 \<and> leaf_hash_with_magic H LEAF_MAGIC LEAF_KIND_FILE [] n (concat chunks) mn mx (or_empty attrs) = Inr r"
    unfolding finish_leaf_iff [OF assms] leaf_hash_Inr n fp using le by simp
  also have "\<dots> \<longleftrightarrow> file_leaf_hash_canonical H (concat chunks) mn mx attrs = Inr r"
    unfolding file_leaf_hash_canonical_def file_leaf_hash_canonical_with_magic_def n using ne by auto
  finally show ?thesis using True by simp
qed

lemma pushes_res_map: "pushes (map f xs) = Inr body \<longleftrightarrow> (\<exists>rs. res_map f xs = Inr rs \<and> body = concat rs)"
  by (induction xs arbitrary: body) auto

lemma table_write_ok:
  "encode_canonical_batch_rows cast (it_schema st) b = Inr rows \<Longrightarrow>
   it_rows_written st + num_rows b \<le> unat (it_logical_count st) \<Longrightarrow>
   it_canonical_rows_written st + length rows \<le> unat (it_canonical_rows_len st) \<Longrightarrow>
   table_hasher_write_batch ops cast st b = Inr (st\<lparr>it_hasher := h_update ops (it_hasher st) rows,
     it_rows_written := it_rows_written st + num_rows b,
     it_canonical_rows_written := it_canonical_rows_written st + length rows\<rparr>)"
  using unat_u64_le [of "it_logical_count st"] unat_u64_le [of "it_canonical_rows_len st"]
  by (simp add: table_hasher_write_batch_def Let_def)

lemma table_write_Inr:
  assumes "table_hasher_write_batch ops cast st b = Inr st'"
  shows "\<exists>rows. encode_canonical_batch_rows cast (it_schema st) b = Inr rows \<and>
    it_rows_written st + num_rows b \<le> unat (it_logical_count st) \<and>
    it_canonical_rows_written st + length rows \<le> unat (it_canonical_rows_len st)"
  using assms by (auto simp: table_hasher_write_batch_def Let_def)

lemma table_writes:
  "res_fold (table_hasher_write_batch ops cast) st batches = Inr st' \<longleftrightarrow>
    (\<exists>rs. res_map (encode_canonical_batch_rows cast (it_schema st)) batches = Inr rs \<and>
      (it_rows_written st + sum_list (map num_rows batches) \<le> unat (it_logical_count st) \<and>
       it_canonical_rows_written st + length (concat rs) \<le> unat (it_canonical_rows_len st) \<or> batches = []) \<and>
      st' = st\<lparr>it_hasher := updates ops (it_hasher st) rs,
        it_rows_written := it_rows_written st + sum_list (map num_rows batches),
        it_canonical_rows_written := it_canonical_rows_written st + length (concat rs)\<rparr>)"
proof (induction batches arbitrary: st)
  case Nil
  then show ?case by (auto simp: updates_def)
next
  case (Cons b bs)
  show ?case
  proof (cases "\<exists>rows. encode_canonical_batch_rows cast (it_schema st) b = Inr rows \<and>
      it_rows_written st + num_rows b \<le> unat (it_logical_count st) \<and>
      it_canonical_rows_written st + length rows \<le> unat (it_canonical_rows_len st)")
    case True
    then obtain rows where rows: "encode_canonical_batch_rows cast (it_schema st) b = Inr rows"
        "it_rows_written st + num_rows b \<le> unat (it_logical_count st)"
        "it_canonical_rows_written st + length rows \<le> unat (it_canonical_rows_len st)" by blast
    show ?thesis
      using rows by (cases "bs = []") (auto simp: table_write_ok [OF rows] Cons.IH updates_def add.assoc)
  next
    case False
    then have "table_hasher_write_batch ops cast st b \<noteq> Inr x" for x
      using table_write_Inr by blast
    moreover have "\<not> (\<exists>rs. res_map (encode_canonical_batch_rows cast (it_schema st)) (b # bs) = Inr rs \<and>
      it_rows_written st + sum_list (map num_rows (b # bs)) \<le> unat (it_logical_count st) \<and>
      it_canonical_rows_written st + length (concat rs) \<le> unat (it_canonical_rows_len st))"
      using False by auto
    ultimately show ?thesis by auto
  qed
qed

lemma table_leaf_Inr:
  "table_leaf_hash_canonical H cast s batches mn mx attrs = Inr r \<longleftrightarrow>
    (\<exists>sb payload. encode_canonical_schema s = Inr sb \<and> encode_canonical_rows cast s batches = Inr payload \<and>
      sum_list (map num_rows batches) \<noteq> 0 \<and>
      leaf_hash_with_magic H LEAF_MAGIC LEAF_KIND_TABLE (as_bytes (H sb)) (of_nat (sum_list (map num_rows batches)))
        payload mn mx (or_empty attrs) = Inr r)"
proof (cases "encode_canonical_schema s")
  case (Inl e)
  then show ?thesis
    by (simp add: table_leaf_hash_canonical_def table_leaf_hash_canonical_with_magic_def
        schema_fingerprint_with_magic_def encode_canonical_schema_def)
next
  case (Inr sb)
  note sb = this
  show ?thesis
  proof (cases "encode_canonical_rows cast s batches")
    case (Inl e)
    with sb show ?thesis
      by (simp add: table_leaf_hash_canonical_def table_leaf_hash_canonical_with_magic_def
          schema_fingerprint_with_magic_def encode_canonical_schema_def encode_canonical_rows_def)
  next
    case (Inr payload)
    then have "row_total ''table leaf row count exceeds u64::MAX'' 0 batches = Inr (sum_list (map num_rows batches))"
      unfolding encode_canonical_rows_def encode_canonical_rows_with_magic_def res_bind_eq_Inr row_total_eq by auto
    with sb Inr show ?thesis
      by (simp add: table_leaf_hash_canonical_def table_leaf_hash_canonical_with_magic_def
          schema_fingerprint_with_magic_def encode_canonical_schema_def encode_canonical_rows_def
          del: sum_list_eq_0_iff)
  qed
qed

lemma encode_rows_Inr:
  "encode_canonical_rows cast s batches = Inr payload \<longleftrightarrow>
    (\<exists>rs. res_map (encode_canonical_batch_rows cast s) batches = Inr rs \<and>
      (sum_list (map num_rows batches) \<le> u64_max \<or> batches = []) \<and>
      payload = ROWS_MAGIC @ le64 (of_nat (sum_list (map num_rows batches))) @ concat rs)"
  unfolding encode_canonical_rows_def encode_canonical_rows_with_magic_def
  by (auto simp: row_total_eq pushes_res_map)

lemma table_batches_iff:
  assumes "hasher_spec ops H"
  shows "hash_table_batches ops H cast s n len mn mx attrs batches = Inr r \<longleftrightarrow>
    sum_list (map num_rows batches) = unat n \<and>
    (\<exists>rs. res_map (encode_canonical_batch_rows cast s) batches = Inr rs \<and> length (concat rs) = unat len) \<and>
    table_leaf_hash_canonical H cast s batches mn mx attrs = Inr r"
proof (cases "sum_list (map num_rows batches) = unat n \<and>
    (\<exists>rs. res_map (encode_canonical_batch_rows cast s) batches = Inr rs \<and> length (concat rs) = unat len)")
  case False
  then show ?thesis
    by (auto simp: hash_table_batches_def table_hasher_new_def table_hasher_new_with_domains_def table_writes
        table_hasher_finish_def Let_def)
next
  case True
  then obtain rs where rs: "res_map (encode_canonical_batch_rows cast s) batches = Inr rs" "length (concat rs) = unat len"
      and sum: "sum_list (map num_rows batches) = unat n" by blast
  let ?p = "ROWS_MAGIC @ le64 n @ concat rs"
  have plen: "length ROWS_MAGIC + 8 + unat len = length ?p"
    using rs(2) by simp
  have n: "word_of_nat (sum_list (map num_rows batches)) = n"
    unfolding sum by simp
  have rows: "encode_canonical_rows cast s batches = Inr payload \<longleftrightarrow> payload = ?p" for payload
    unfolding encode_rows_Inr rs(1) n using unat_u64_le [of n] by (auto simp: sum)
  have fp: "push_len_prefixed (as_bytes h) = Inr (le32 32 @ as_bytes h)" for h
    by (simp add: push_len_prefixed_def)
  have "hash_table_batches ops H cast s n len mn mx attrs batches = Inr r \<longleftrightarrow>
      (\<exists>sb. encode_canonical_schema s = Inr sb \<and> n \<noteq> 0 \<and> length ?p \<le> u64_max \<and>
        finish_leaf ops (updates ops (h_new ops) ([LEAF_MAGIC, [LEAF_KIND_TABLE], le32 32, as_bytes (H sb), le64 n,
            le64 (of_nat (length ?p)), ROWS_MAGIC, le64 n] @ rs)) mn mx (or_empty attrs)
          ''table leaf canonical attributes length exceeds u32::MAX'' = Inr r)"
    unfolding plen [symmetric] using sum rs
    by (auto simp: hash_table_batches_def table_hasher_new_def table_hasher_new_with_domains_def table_writes
        table_hasher_finish_def updates_updates Let_def schema_fingerprint_with_magic_def encode_canonical_schema_def)
  also have "\<dots> \<longleftrightarrow> (\<exists>sb. encode_canonical_schema s = Inr sb \<and> n \<noteq> 0 \<and>
      leaf_hash_with_magic H LEAF_MAGIC LEAF_KIND_TABLE (as_bytes (H sb)) n ?p mn mx (or_empty attrs) = Inr r)"
    unfolding finish_leaf_iff [OF assms] leaf_hash_Inr fp by auto
  also have "\<dots> \<longleftrightarrow> table_leaf_hash_canonical H cast s batches mn mx attrs = Inr r"
    unfolding table_leaf_Inr rows n by (auto simp: sum unat_eq_zero)
  finally show ?thesis using sum rs by blast
qed

section \<open>What a leaf hash commits to\<close>

lemma leaf_preimage_inj:
  assumes "leaf_preimage magic k f n p mn mx at = Inr a" and "leaf_preimage magic k' f' n' p' mn' mx' at' = Inr a"
  shows "k = k' \<and> f = f' \<and> n = n' \<and> p = p' \<and> mn = mn' \<and> mx = mx' \<and> at = at'"
proof -
  have code: "prefix_code (\<lambda>t. pushes [Inr magic, Inr [K t], push_len_prefixed (F t), Inr (le64 (N t)),
      push_len_prefixed_u64 (P t), push_bounds (fst (B t)) (snd (B t)), push_len_prefixed (A t)])
      (\<lambda>t. (K t, F t, N t, P t, B t, A t))" for K F N P B and A :: "bool \<Rightarrow> bytes"
    by (rule prefix_code_weaken [OF
        prefix_code_Cons [OF prefix_code_const
        prefix_code_Cons [OF prefix_code_vimage [OF u8_field.code.prefix_code_axioms, of K]
        prefix_code_Cons [OF prefix_code_vimage [OF len_prefixed.code.prefix_code_axioms, of F]
        prefix_code_Cons [OF prefix_code_vimage [OF u64_field.code.prefix_code_axioms, of N]
        prefix_code_Cons [OF prefix_code_vimage [OF prefix_code_len_prefixed_u64, of P]
        prefix_code_Cons [OF prefix_code_vimage [OF bounds.code.prefix_code_axioms, of B]
        prefix_code_Cons [OF prefix_code_vimage [OF len_prefixed.code.prefix_code_axioms, of A]
        prefix_code_Nil]]]]]]]]) auto
  let ?i = "\<lambda>x y b. if b then x else y"
  from prefix_code.determined [OF code [of "?i k k'" "?i f f'" "?i n n'" "?i p p'" "?i (mn, mx) (mn', mx')" "?i at at'"],
      of True a False] assms
  show ?thesis by (simp add: leaf_preimage_def)
qed

lemma res_map_id: "res_map f xs = res_map id (map f xs)"
  by (induction xs) simp_all

lemma resolved_fields_canon:
  assumes "map field_canon (sch_fields s) = map field_canon (sch_fields t)"
  shows "resolved_fields s = resolved_fields t"
proof -
  have eq: "resolved_fields x = res_map id (map (\<lambda>f. canonical_data_type (fd_data_type f)) (sch_fields x))" for x
    unfolding resolved_fields_def by (rule res_map_id)
  have "map (\<lambda>f. canonical_data_type (fd_data_type f)) (sch_fields s) =
      map (\<lambda>f. canonical_data_type (fd_data_type f)) (sch_fields t)"
    by (rule map_eq_transfer [OF assms]) (simp add: field_canon_def)
  then show ?thesis by (simp only: eq)
qed

text \<open>The byte strings hashed on the way to a table leaf's identity: the schema and the preimage.\<close>

definition table_leaf_inputs ::
    "(bytes \<Rightarrow> hash32) \<Rightarrow> cast_fn \<Rightarrow> schema \<Rightarrow> record_batch list \<Rightarrow> i64 option \<Rightarrow> i64 option \<Rightarrow> bytes option \<Rightarrow> bytes set" where
  "table_leaf_inputs H cast s batches mn mx attrs =
    {bs. encode_canonical_schema s = Inr bs \<or>
      (\<exists>sb p. encode_canonical_schema s = Inr sb \<and> encode_canonical_rows cast s batches = Inr p \<and>
        leaf_preimage LEAF_MAGIC LEAF_KIND_TABLE (as_bytes (H sb)) (of_nat (sum_list (map num_rows batches))) p mn mx
          (or_empty attrs) = Inr bs)}"

lemma table_leaf_commits:
  assumes "cast_to_type cast" and "schema_ok s" and "schema_ok t"
    and "table_leaf_hash_canonical H cast s batches mn mx attrs = Inr h"
    and "table_leaf_hash_canonical H cast t batches' mn' mx' attrs' = Inr h"
    and inj: "inj_on H (table_leaf_inputs H cast s batches mn mx attrs \<union> table_leaf_inputs H cast t batches' mn' mx' attrs')"
  shows "(\<exists>s' t'. canonicalize_schema s = Inr s' \<and> canonicalize_schema t = Inr t' \<and> schema_eq s' t') \<and>
    logical_rows cast s batches = logical_rows cast t batches' \<and> mn = mn' \<and> mx = mx' \<and> or_empty attrs = or_empty attrs'"
proof -
  obtain sb p a where 1: "encode_canonical_schema s = Inr sb" "encode_canonical_rows cast s batches = Inr p"
      "leaf_preimage LEAF_MAGIC LEAF_KIND_TABLE (as_bytes (H sb)) (of_nat (sum_list (map num_rows batches))) p mn mx
        (or_empty attrs) = Inr a" "h = H a"
    using assms(4) by (auto simp: table_leaf_Inr leaf_hash_with_magic_def)
  obtain tb q b where 2: "encode_canonical_schema t = Inr tb" "encode_canonical_rows cast t batches' = Inr q"
      "leaf_preimage LEAF_MAGIC LEAF_KIND_TABLE (as_bytes (H tb)) (of_nat (sum_list (map num_rows batches'))) q mn' mx'
        (or_empty attrs') = Inr b" "h = H b"
    using assms(5) by (auto simp: table_leaf_Inr leaf_hash_with_magic_def)
  have in1: "sb \<in> table_leaf_inputs H cast s batches mn mx attrs" "a \<in> table_leaf_inputs H cast s batches mn mx attrs"
    using 1 unfolding table_leaf_inputs_def by blast+
  have in2: "tb \<in> table_leaf_inputs H cast t batches' mn' mx' attrs'" "b \<in> table_leaf_inputs H cast t batches' mn' mx' attrs'"
    using 2 unfolding table_leaf_inputs_def by blast+
  have "a = b"
    using inj_onD [OF inj, of a b] 1(4) 2(4) in1 in2 by blast
  from leaf_preimage_inj [OF 1(3) 2(3) [folded this]]
  have same: "H sb = H tb" "p = q" "mn = mn'" "mx = mx'" "or_empty attrs = or_empty attrs'"
    by auto
  have sb: "sb = tb"
    using inj_onD [OF inj same(1)] in1 in2 by blast
  have schema: "\<exists>s' t'. canonicalize_schema s = Inr s' \<and> canonicalize_schema t = Inr t' \<and> schema_eq s' t'"
    using schema_bytes_eq_iff [OF assms(2,3) 1(1) [unfolded encode_canonical_schema_def] 2(1) [unfolded encode_canonical_schema_def]]
      sb by blast
  have "map field_canon (sch_fields s) = map field_canon (sch_fields t)"
    using schema_code.determined [OF 1(1) [unfolded encode_canonical_schema_def]] 2(1) sb
    by (simp add: encode_canonical_schema_def)
  then have fields: "resolved_fields s = resolved_fields t"
    by (rule resolved_fields_canon)
  have cols: "canonical_columns cast s = canonical_columns cast t"
    by (simp add: fun_eq_iff canonical_columns_def fields)
  have rows: "encode_canonical_rows cast t batches' = encode_canonical_rows cast s batches'"
    unfolding encode_canonical_rows_def encode_canonical_rows_with_magic_def encode_canonical_batch_rows_def [abs_def] cols
    by (rule refl)
  have logical: "logical_rows cast t batches' = logical_rows cast s batches'"
    unfolding logical_rows_def cols by (rule refl)
  have "logical_rows cast s batches = logical_rows cast t batches'"
    unfolding logical
    using rows_payload_eq_iff [OF assms(1), of s batches ROWS_MAGIC p batches' q] 1(2) 2(2) [unfolded rows] same(2)
    by (simp add: encode_canonical_rows_def)
  with schema same show ?thesis by blast
qed

section \<open>Properties\<close>

text \<open>C29: feeding a file leaf to the incremental hasher in any chunks succeeds exactly when the
  chunks have the declared length and the one-shot hash of the whole leaf succeeds, and the two
  hashes agree; too few or too many bytes never give a hash.\<close>

theorem incremental_file_leaf:
  assumes "hasher_spec ops blake3"
  shows "hash_file_chunks ops n mn mx attrs chunks = Inr h \<longleftrightarrow>
    length (concat chunks) = unat n \<and> file_leaf_hash_canonical blake3 (concat chunks) mn mx attrs = Inr h"
  using assms by (rule file_chunks_iff)

definition toy_hasher :: "bytes hasher_ops" where
  "toy_hasher = \<lparr>h_new = [], h_update = (@), h_finalize = toy_hash\<rparr>"

lemma toy_hasher_spec: "hasher_spec toy_hasher toy_hash"
proof -
  have "foldl (@) x chunks = x @ concat chunks" for x :: bytes and chunks
    by (induction chunks arbitrary: x) simp_all
  then show ?thesis
    by (simp add: hasher_spec_def updates_def toy_hasher_def)
qed

theorem incremental_file_leaf_witness:
  "(\<exists>h. hash_file_chunks toy_hasher 3 None (Some 7) None [[1], [2, 3]] = Inr h \<and>
     file_leaf_hash_canonical toy_hash [1, 2, 3] None (Some 7) None = Inr h) \<and>
   (\<forall>h. hash_file_chunks toy_hasher 3 None (Some 7) None [[1], [2]] \<noteq> Inr h)"
proof -
  obtain h where "file_leaf_hash_canonical toy_hash [1, 2, 3] None (Some 7) None = Inr h"
    by (simp add: file_leaf_hash_canonical_def file_leaf_hash_canonical_with_magic_def leaf_hash_with_magic_def
        leaf_preimage_def push_len_prefixed_def push_len_prefixed_u64_def or_empty_def concat_bounds_chunks pushes.simps)
  then show ?thesis
    using incremental_file_leaf [OF toy_hasher_spec, of 3 None "Some 7" None "[[1], [2, 3]]"]
      incremental_file_leaf [OF toy_hasher_spec, of 3 None "Some 7" None "[[1], [2]]"] by auto
qed

text \<open>C28: feeding a table leaf to the incremental hasher batch by batch succeeds exactly when the
  batches have the declared number of rows and of canonical row bytes and the one-shot hash
  succeeds, and the two hashes agree.\<close>

theorem incremental_table_leaf:
  assumes "hasher_spec ops blake3"
  shows "hash_table_batches ops blake3 cast s n len mn mx attrs batches = Inr h \<longleftrightarrow>
    sum_list (map num_rows batches) = unat n \<and>
    (\<exists>rs. res_map (encode_canonical_batch_rows cast s) batches = Inr rs \<and> length (concat rs) = unat len) \<and>
    table_leaf_hash_canonical blake3 cast s batches mn mx attrs = Inr h"
  using assms by (rule table_batches_iff)

lemmas toy_leaf_defs = encode_canonical_rows_def encode_canonical_rows_with_magic_def encode_canonical_batch_rows_def
  canonical_columns_def canonical_column_def resolved_fields_def toy_schema_def toy_batch_def is_dictionary_def
  encode_scalar_def encode_cell_def encode_present_def value32_def pushes.simps upt_rec [of 0]
  encode_canonical_schema_def encode_canonical_schema_with_magic_def encode_field_def encode_metadata_def sorted_pairs_def
  encode_resolved_data_type_def push_len_prefixed_def push_count_def push_len_prefixed_u64_def leaf_hash_with_magic_def
  leaf_preimage_def or_empty_def concat_bounds_chunks

lemma toy_table_leaf: "\<exists>h. table_leaf_hash_canonical toy_hash toy_cast (toy_schema Float32 []) [toy_batch [1], toy_batch [2]] None None None = Inr h"
  unfolding table_leaf_Inr by (simp add: toy_leaf_defs ROWS_MAGIC_def)

theorem incremental_table_leaf_witness:
  "\<exists>h. hash_table_batches toy_hasher toy_hash toy_cast (toy_schema Float32 []) 2 10 None None None [toy_batch [1], toy_batch [2]] = Inr h \<and>
     table_leaf_hash_canonical toy_hash toy_cast (toy_schema Float32 []) [toy_batch [1], toy_batch [2]] None None None = Inr h"
proof -
  obtain h where h: "table_leaf_hash_canonical toy_hash toy_cast (toy_schema Float32 []) [toy_batch [1], toy_batch [2]] None None None = Inr h"
    using toy_table_leaf by blast
  have "\<exists>rs. res_map (encode_canonical_batch_rows toy_cast (toy_schema Float32 [])) [toy_batch [1], toy_batch [2]] = Inr rs \<and>
      length (concat rs) = unat (10 :: u64)"
    by (simp add: toy_leaf_defs)
  with h incremental_table_leaf [OF toy_hasher_spec, of toy_cast "toy_schema Float32 []" 2 10 None None None "[toy_batch [1], toy_batch [2]]" h]
  show ?thesis by (auto simp: toy_batch_def)
qed

text \<open>C30: a table leaf hash commits to the canonical schema, the logical rows, the event-time
  bounds and the attributes: two leaves with the same hash agree on all of them, under a hash
  function that does not collide on the four byte strings that are hashed.\<close>

theorem table_leaf_binding:
  assumes "cast_to_type cast" and "schema_ok s" and "schema_ok t"
    and "table_leaf_hash_canonical blake3 cast s batches mn mx attrs = Inr h"
    and "table_leaf_hash_canonical blake3 cast t batches' mn' mx' attrs' = Inr h"
    and "inj_on blake3 (table_leaf_inputs blake3 cast s batches mn mx attrs \<union>
      table_leaf_inputs blake3 cast t batches' mn' mx' attrs')"
  shows "(\<exists>s' t'. canonicalize_schema s = Inr s' \<and> canonicalize_schema t = Inr t' \<and> schema_eq s' t') \<and>
    logical_rows cast s batches = logical_rows cast t batches' \<and> mn = mn' \<and> mx = mx' \<and> or_empty attrs = or_empty attrs'"
  using assms by (rule table_leaf_commits)

theorem table_leaf_binding_witness:
  "logical_rows toy_cast (toy_schema Float32 []) [toy_batch [1, 2]] =
   logical_rows toy_cast (toy_schema Float32 []) [toy_batch [1], toy_batch [2]]"
proof -
  let ?s = "toy_schema Float32 []"
  let ?f = "\<lambda>bs. digest (bs ! 17)"
  let ?x = "[toy_batch [1, 2]]" and ?y = "[toy_batch [1], toy_batch [2]]"
  have n: "sum_list (map num_rows ?x) = 2" "sum_list (map num_rows ?y) = 2"
    by (simp_all add: toy_batch_def)
  obtain sb where sb: "encode_canonical_schema ?s = Inr (SCHEMA_MAGIC @ sb)"
    by (simp add: toy_leaf_defs)
  obtain p where p: "encode_canonical_rows toy_cast ?s ?x = Inr p" "encode_canonical_rows toy_cast ?s ?y = Inr p" "length p = 43"
    by (simp add: toy_leaf_defs ROWS_MAGIC_def)
  obtain a where a: "leaf_preimage LEAF_MAGIC LEAF_KIND_TABLE (as_bytes (?f (SCHEMA_MAGIC @ sb))) 2 p None None (or_empty None) =
      Inr (LEAF_MAGIC @ a)"
    using p(3) by (simp add: leaf_preimage_def push_len_prefixed_def push_len_prefixed_u64_def or_empty_def
        concat_bounds_chunks pushes.simps)
  have inputs: "table_leaf_inputs ?f toy_cast ?s b None None None = {SCHEMA_MAGIC @ sb, LEAF_MAGIC @ a}"
    if "encode_canonical_rows toy_cast ?s b = Inr p" "sum_list (map num_rows b) = 2" for b
    using a that by (auto simp: table_leaf_inputs_def sb)
  have h: "table_leaf_hash_canonical ?f toy_cast ?s b None None None = Inr (?f (LEAF_MAGIC @ a))"
    if "encode_canonical_rows toy_cast ?s b = Inr p" "sum_list (map num_rows b) = 2" for b
    unfolding table_leaf_Inr leaf_hash_with_magic_def using a that sb by simp
  have inj: "inj_on ?f (table_leaf_inputs ?f toy_cast ?s ?x None None None \<union> table_leaf_inputs ?f toy_cast ?s ?y None None None)"
    unfolding inputs [OF p(1) n(1)] inputs [OF p(2) n(2)]
    by (simp add: SCHEMA_MAGIC_def LEAF_MAGIC_def ascii_def)
  have cast: "cast_to_type toy_cast"
    by (auto simp: cast_to_type_def toy_cast_def)
  have ok: "schema_ok ?s"
    by (simp add: schema_ok_def toy_schema_def)
  from table_leaf_binding [OF cast ok ok h [OF p(1) n(1)] h [OF p(2) n(2)] inj] show ?thesis
    by blast
qed

end
