(* ===== verification/SeriesManifest.thy ===== *)
theory SeriesManifest
  imports SeriesLeaf SeriesMerkle
begin

text \<open>
  Series manifests, from \<open>content/series_manifest.rs\<close>: the fetchable identity of one logical
  series, its constructor, its wire format and their shared invariant. \<open>parse\<close> stands for
  \<open>serde_json::from_str\<close> and \<open>blake3\<close> for the hash function.
\<close>

section \<open>Manifests\<close>

definition MANIFEST_MAGIC :: bytes where "MANIFEST_MAGIC = ascii ''watertown.series.v3'' @ [10]"

datatype payload_kind = Table | File

definition payload_to_wire :: "payload_kind \<Rightarrow> byte" where
  "payload_to_wire k = (case k of Table \<Rightarrow> LEAF_KIND_TABLE | File \<Rightarrow> LEAF_KIND_FILE)"

definition payload_from_wire :: "byte \<Rightarrow> error + payload_kind" where
  "payload_from_wire b =
    (if b = LEAF_KIND_TABLE then Inr Table
     else if b = LEAF_KIND_FILE then Inr File
     else Inl (Reject ''unknown series payload kind byte''))"

record series_manifest =
  sm_payload_kind :: payload_kind
  sm_logical_count :: u64
  sm_leaf_count :: u64
  sm_min_event_time :: "i64 option"
  sm_max_event_time :: "i64 option"
  sm_logical_attributes :: "bytes option"
  sm_leaf_merkle_root :: hash32
  sm_merkle_frontier :: merkle_frontier

text \<open>The check of optional attributes that manifests and pack descriptors share.\<close>

definition validate_attributes :: "(rstring \<Rightarrow> error + json) \<Rightarrow> bytes option \<Rightarrow> error + unit" where
  "validate_attributes parse attrs =
    (case attrs of
       Some a \<Rightarrow> res_bind (require (a \<noteq> []) (Reject ''logical attributes must be None, not empty'')) (\<lambda>_.
         validate_canonical_attributes parse a)
     | None \<Rightarrow> Inr ())"

definition validate_manifest ::
    "(rstring \<Rightarrow> error + json) \<Rightarrow> (bytes \<Rightarrow> hash32) \<Rightarrow> u64 \<Rightarrow> u64 \<Rightarrow> bytes option \<Rightarrow> hash32 \<Rightarrow> merkle_frontier \<Rightarrow> error + unit" where
  "validate_manifest parse blake3 logical_count n attrs root f =
    res_bind (require ((n = 0) = (logical_count = 0)) (Reject ''logical_count and leaf_count must both be zero or both be nonzero'')) (\<lambda>_.
    res_bind (validate_attributes parse attrs) (\<lambda>_.
    res_bind (require (leaf_count f = unat n) (Reject ''series Merkle frontier leaf count mismatch'')) (\<lambda>_.
      require (frontier_root blake3 f = root) (Reject ''series Merkle frontier does not reduce to leaf_merkle_root''))))"

definition manifest_new ::
    "(rstring \<Rightarrow> error + json) \<Rightarrow> (bytes \<Rightarrow> hash32) \<Rightarrow> payload_kind \<Rightarrow> u64 \<Rightarrow> u64 \<Rightarrow> i64 option \<Rightarrow> i64 option \<Rightarrow>
     bytes option \<Rightarrow> merkle_frontier \<Rightarrow> error + series_manifest" where
  "manifest_new parse blake3 kind logical_count n mn mx attrs f =
    (let root = frontier_root blake3 f in
     res_bind (validate_manifest parse blake3 logical_count n attrs root f) (\<lambda>_.
       Inr \<lparr>sm_payload_kind = kind, sm_logical_count = logical_count, sm_leaf_count = n,
            sm_min_event_time = mn, sm_max_event_time = mx, sm_logical_attributes = attrs,
            sm_leaf_merkle_root = root, sm_merkle_frontier = f\<rparr>))"

definition encode_manifest :: "series_manifest \<Rightarrow> error + bytes" where
  "encode_manifest m = pushes
    [Inr MANIFEST_MAGIC,
     Inr [payload_to_wire (sm_payload_kind m)],
     Inr (le64 (sm_logical_count m)),
     Inr (le64 (sm_leaf_count m)),
     push_bounds (sm_min_event_time m) (sm_max_event_time m),
     push_attributes (sm_logical_attributes m),
     Inr (as_bytes (sm_leaf_merkle_root m)),
     push_count (length (peak_hashes (sm_merkle_frontier m))),
     pushes (map (\<lambda>h. Inr (as_bytes h)) (peak_hashes (sm_merkle_frontier m)))]"

definition manifest_hash :: "(bytes \<Rightarrow> hash32) \<Rightarrow> series_manifest \<Rightarrow> error + hash32" where
  "manifest_hash blake3 m = res_bind (encode_manifest m) (\<lambda>bs. Inr (blake3 bs))"

text \<open>The fields in wire order; the frontier is still its peak hashes.\<close>

record manifest_fields =
  mf_payload_kind :: payload_kind
  mf_logical_count :: u64
  mf_leaf_count :: u64
  mf_bounds :: "i64 option \<times> i64 option"
  mf_attributes :: "bytes option"
  mf_root :: hash32
  mf_peaks :: "hash32 list"

definition take_manifest_fields :: "manifest_fields dec" where
  "take_manifest_fields =
     dec_bind (dec_bind take_u8 (\<lambda>b. dec_lift (payload_from_wire b))) (\<lambda>k.
     dec_bind take_u64 (\<lambda>lc.
     dec_bind take_u64 (\<lambda>n.
     dec_bind (take_bounds ''unknown series bounds flags'') (\<lambda>b.
     dec_bind take_attributes (\<lambda>attrs.
     dec_bind take_hash (\<lambda>root.
     dec_bind (dec_bind take_u32 (\<lambda>c. take_times (unat c) take_hash)) (\<lambda>peaks.
       dec_return \<lparr>mf_payload_kind = k, mf_logical_count = lc, mf_leaf_count = n, mf_bounds = b,
         mf_attributes = attrs, mf_root = root, mf_peaks = peaks\<rparr>)))))))"

definition decode_manifest :: "(rstring \<Rightarrow> error + json) \<Rightarrow> (bytes \<Rightarrow> hash32) \<Rightarrow> bytes \<Rightarrow> error + series_manifest" where
  "decode_manifest parse blake3 bs =
    res_bind (run_dec
      (dec_bind (expect_tag MANIFEST_MAGIC) (\<lambda>_.
       dec_bind take_manifest_fields (\<lambda>w. dec_bind expect_end (\<lambda>_. dec_return w)))) bs) (\<lambda>w.
    res_bind (from_peak_hashes (unat (mf_leaf_count w)) (mf_peaks w)) (\<lambda>f.
    res_bind (validate_manifest parse blake3 (mf_logical_count w) (mf_leaf_count w) (mf_attributes w) (mf_root w) f) (\<lambda>_.
      Inr \<lparr>sm_payload_kind = mf_payload_kind w, sm_logical_count = mf_logical_count w, sm_leaf_count = mf_leaf_count w,
           sm_min_event_time = fst (mf_bounds w), sm_max_event_time = snd (mf_bounds w),
           sm_logical_attributes = mf_attributes w, sm_leaf_merkle_root = mf_root w, sm_merkle_frontier = f\<rparr>)))"

section \<open>The invariant\<close>

definition attributes_ok :: "(rstring \<Rightarrow> error + json) \<Rightarrow> bytes option \<Rightarrow> bool" where
  "attributes_ok parse attrs \<longleftrightarrow> (case attrs of None \<Rightarrow> True | Some a \<Rightarrow> a \<noteq> [] \<and> validate_canonical_attributes parse a = Inr ())"

lemma validate_attributes_iff: "validate_attributes parse attrs = Inr u \<longleftrightarrow> attributes_ok parse attrs"
  by (cases attrs) (auto simp: validate_attributes_def attributes_ok_def)

text \<open>A frontier is the list of the perfect subtrees of its leaf count, largest first.\<close>

definition frontier_ok :: "merkle_frontier \<Rightarrow> bool" where
  "frontier_ok f \<longleftrightarrow> map fp_count (peaks f) = frontier_peak_counts (leaf_count f)"

lemma from_peak_hashes_iff:
  "from_peak_hashes n hs = Inr f \<longleftrightarrow> leaf_count f = n \<and> peak_hashes f = hs \<and> frontier_ok f"
proof
  assume "from_peak_hashes n hs = Inr f"
  then have len: "length (frontier_peak_counts n) = length hs"
    and f: "f = \<lparr>leaf_count = n, peaks = map (\<lambda>(c, h). \<lparr>fp_count = c, fp_hash = h\<rparr>) (zip (frontier_peak_counts n) hs)\<rparr>"
    by (auto simp: from_peak_hashes_def Let_def split: if_splits)
  have "map fp_hash (map (\<lambda>(c, h). \<lparr>fp_count = c, fp_hash = h\<rparr>) (zip cs hs)) = hs"
    "map fp_count (map (\<lambda>(c, h). \<lparr>fp_count = c, fp_hash = h\<rparr>) (zip cs hs)) = cs" if "length cs = length hs" for cs
    using that by (induction cs hs rule: list_induct2) simp_all
  with len show "leaf_count f = n \<and> peak_hashes f = hs \<and> frontier_ok f"
    by (simp add: f peak_hashes_def frontier_ok_def)
next
  assume f: "leaf_count f = n \<and> peak_hashes f = hs \<and> frontier_ok f"
  have "map (\<lambda>(c, h). \<lparr>fp_count = c, fp_hash = h\<rparr>) (zip (map fp_count ps) (map fp_hash ps)) = ps" for ps
    by (induction ps) simp_all
  from this [of "peaks f"] f have ps: "map (\<lambda>(c, h). \<lparr>fp_count = c, fp_hash = h\<rparr>) (zip (frontier_peak_counts n) hs) = peaks f"
    by (simp add: frontier_ok_def peak_hashes_def)
  have "length (frontier_peak_counts n) = length (peaks f)"
    using f by (metis frontier_ok_def length_map)
  moreover have "length hs = length (peaks f)"
    using f by (metis peak_hashes_def length_map)
  moreover have "f = \<lparr>leaf_count = n, peaks = peaks f\<rparr>"
    using f by simp
  ultimately show "from_peak_hashes n hs = Inr f"
    unfolding from_peak_hashes_def Let_def ps by simp
qed

definition manifest_ok :: "(rstring \<Rightarrow> error + json) \<Rightarrow> (bytes \<Rightarrow> hash32) \<Rightarrow> series_manifest \<Rightarrow> bool" where
  "manifest_ok parse blake3 m \<longleftrightarrow>
    (sm_leaf_count m = 0) = (sm_logical_count m = 0) \<and>
    attributes_ok parse (sm_logical_attributes m) \<and>
    leaf_count (sm_merkle_frontier m) = unat (sm_leaf_count m) \<and>
    frontier_ok (sm_merkle_frontier m) \<and>
    sm_leaf_merkle_root m = frontier_root blake3 (sm_merkle_frontier m)"

lemma validate_manifest_iff:
  "validate_manifest parse blake3 lc n attrs root f = Inr u \<longleftrightarrow>
    (n = 0) = (lc = 0) \<and> attributes_ok parse attrs \<and> leaf_count f = unat n \<and> root = frontier_root blake3 f"
  by (auto simp: validate_manifest_def validate_attributes_iff)

lemma payload_wire_iff [simp]: "payload_from_wire b = Inr k \<longleftrightarrow> b = payload_to_wire k"
  by (cases k) (auto simp: payload_from_wire_def payload_to_wire_def LEAF_KIND_TABLE_def LEAF_KIND_FILE_def)

lemma take_payload_kind_iff [simp]:
  "dec_bind take_u8 (\<lambda>b. dec_lift (payload_from_wire b)) c = Inr (k, c') \<longleftrightarrow> eats c [payload_to_wire k] c'"
  by auto

definition push_manifest_fields :: "manifest_fields \<Rightarrow> error + bytes" where
  "push_manifest_fields w = pushes
    [Inr [payload_to_wire (mf_payload_kind w)], Inr (le64 (mf_logical_count w)), Inr (le64 (mf_leaf_count w)),
     push_bounds (fst (mf_bounds w)) (snd (mf_bounds w)), push_attributes (mf_attributes w), Inr (as_bytes (mf_root w)),
     pushes [push_count (length (mf_peaks w)), pushes (map (\<lambda>h. Inr (as_bytes h)) (mf_peaks w))]]"

interpretation manifest_fields: codec
  "guarded (\<lambda>w. mf_attributes w \<noteq> Some []) push_manifest_fields" take_manifest_fields
proof
  fix c c' w
  obtain k lc n b attrs root ps where w: "w = \<lparr>mf_payload_kind = k, mf_logical_count = lc, mf_leaf_count = n, mf_bounds = b,
    mf_attributes = attrs, mf_root = root, mf_peaks = ps\<rparr>" by (cases w)
  show "take_manifest_fields c = Inr (w, c') \<longleftrightarrow> writes (guarded (\<lambda>w. mf_attributes w \<noteq> Some []) push_manifest_fields w) c c'"
    unfolding take_manifest_fields_def push_manifest_fields_def w manifest_fields.select_convs writes_guarded
      dec_bind_iff [of "dec_bind take_u8 f" for f] take_payload_kind_iff
      dec_bind_iff [of take_u64] dec_bind_iff [of "take_bounds msg" for msg] dec_bind_iff [of take_attributes]
      dec_bind_iff [of take_hash] dec_bind_iff [of "dec_bind take_u32 f" for f] hash_field.counted_iff
      take_words_iff take_bounds_iff take_attributes_iff take_hash_iff dec_return_iff
      manifest_fields.ext_inject writes_simps(1) writes_simps(3) [of "Inr x" for x] writes_simps(3) [of "push_bounds x y" for x y]
      writes_simps(3) [of "push_attributes x" for x] writes_simps(3) [of "pushes xs" for xs] writes_simps(2)
    by (rule iffI, (clarify, intro exI conjI, (assumption | rule refl)+)+)
qed

definition fields_of :: "series_manifest \<Rightarrow> manifest_fields" where
  "fields_of m = \<lparr>mf_payload_kind = sm_payload_kind m, mf_logical_count = sm_logical_count m, mf_leaf_count = sm_leaf_count m,
     mf_bounds = (sm_min_event_time m, sm_max_event_time m), mf_attributes = sm_logical_attributes m,
     mf_root = sm_leaf_merkle_root m, mf_peaks = peak_hashes (sm_merkle_frontier m)\<rparr>"

lemma pushes_nest:
  "pushes [x, pushes ys] = Inr bs \<longleftrightarrow> pushes (x # ys) = Inr bs"
  "pushes (xs @ [pushes ys]) = Inr bs \<longleftrightarrow> pushes (xs @ ys) = Inr bs"
  by (auto simp: pushes_append_iff)

lemma encode_manifest_fields:
  "encode_manifest m = Inr bs \<longleftrightarrow> pushes [Inr MANIFEST_MAGIC, push_manifest_fields (fields_of m)] = Inr bs"
  using pushes_nest(2) [of "[Inr MANIFEST_MAGIC, Inr [payload_to_wire (sm_payload_kind m)],
     Inr (le64 (sm_logical_count m)), Inr (le64 (sm_leaf_count m)),
     push_bounds (sm_min_event_time m) (sm_max_event_time m), push_attributes (sm_logical_attributes m),
     Inr (as_bytes (sm_leaf_merkle_root m))]"
     "[push_count (length (peak_hashes (sm_merkle_frontier m))),
       pushes (map (\<lambda>h. Inr (as_bytes h)) (peak_hashes (sm_merkle_frontier m)))]" bs]
  unfolding encode_manifest_def push_manifest_fields_def fields_of_def pushes_nest(1) manifest_fields.select_convs
    fst_conv snd_conv append_Cons append_Nil by simp

lemma decode_fields_iff:
  "run_dec (dec_bind (expect_tag MANIFEST_MAGIC) (\<lambda>_.
     dec_bind take_manifest_fields (\<lambda>w. dec_bind expect_end (\<lambda>_. dec_return w)))) bs = Inr w \<longleftrightarrow>
   mf_attributes w \<noteq> Some [] \<and> pushes [Inr MANIFEST_MAGIC, push_manifest_fields w] = Inr bs"
  unfolding manifest_fields.strict_iff by auto

lemma decode_manifest_iff:
  "decode_manifest parse H bs = Inr m \<longleftrightarrow> encode_manifest m = Inr bs \<and> manifest_ok parse H m"
proof
  assume "decode_manifest parse H bs = Inr m"
  then obtain w f where w: "mf_attributes w \<noteq> Some []" "pushes [Inr MANIFEST_MAGIC, push_manifest_fields w] = Inr bs"
      and f: "from_peak_hashes (unat (mf_leaf_count w)) (mf_peaks w) = Inr f"
      and v: "validate_manifest parse H (mf_logical_count w) (mf_leaf_count w) (mf_attributes w) (mf_root w) f = Inr ()"
      and m: "m = \<lparr>sm_payload_kind = mf_payload_kind w, sm_logical_count = mf_logical_count w, sm_leaf_count = mf_leaf_count w,
           sm_min_event_time = fst (mf_bounds w), sm_max_event_time = snd (mf_bounds w),
           sm_logical_attributes = mf_attributes w, sm_leaf_merkle_root = mf_root w, sm_merkle_frontier = f\<rparr>"
    unfolding decode_manifest_def res_bind_eq_Inr decode_fields_iff by auto
  have "fields_of m = w"
    using f by (cases w) (simp add: m fields_of_def from_peak_hashes_iff)
  with w(2) have "encode_manifest m = Inr bs"
    by (simp only: encode_manifest_fields)
  moreover have "manifest_ok parse H m"
    using v f by (simp add: m manifest_ok_def validate_manifest_iff from_peak_hashes_iff)
  ultimately show "encode_manifest m = Inr bs \<and> manifest_ok parse H m" ..
next
  assume e: "encode_manifest m = Inr bs \<and> manifest_ok parse H m"
  let ?w = "fields_of m"
  have "mf_attributes ?w \<noteq> Some []"
    using e by (auto simp: fields_of_def manifest_ok_def attributes_ok_def split: option.splits)
  then have "run_dec (dec_bind (expect_tag MANIFEST_MAGIC) (\<lambda>_.
     dec_bind take_manifest_fields (\<lambda>w. dec_bind expect_end (\<lambda>_. dec_return w)))) bs = Inr ?w"
    using e unfolding decode_fields_iff encode_manifest_fields by blast
  moreover have "from_peak_hashes (unat (mf_leaf_count ?w)) (mf_peaks ?w) = Inr (sm_merkle_frontier m)"
    using e by (simp add: from_peak_hashes_iff fields_of_def manifest_ok_def)
  moreover have "validate_manifest parse H (mf_logical_count ?w) (mf_leaf_count ?w) (mf_attributes ?w) (mf_root ?w)
      (sm_merkle_frontier m) = Inr ()"
    using e by (simp add: validate_manifest_iff fields_of_def manifest_ok_def)
  ultimately show "decode_manifest parse H bs = Inr m"
    by (simp add: decode_manifest_def fields_of_def)
qed

section \<open>Size\<close>

lemma peak_counts_bound: "n < 2 ^ k \<Longrightarrow> length (frontier_peak_counts n) \<le> k"
proof (induction n arbitrary: k rule: less_induct)
  case (less n)
  show ?case
  proof (cases "n = 0")
    case True
    then show ?thesis by (simp add: frontier_peak_counts.simps)
  next
    case False
    let ?h = "highest_bit n"
    have "Suc ?h = bit_length n"
      using False bit_length_eq_0 [of n] by (cases "bit_length n") (simp_all add: highest_bit_def)
    then have b: "2 ^ ?h \<le> n" "n < 2 ^ Suc ?h"
      using bit_length_bounds [of n] False by (simp_all add: highest_bit_def)
    have "?h < k"
      using le_less_trans [OF b(1) less.prems] by simp
    moreover have "length (frontier_peak_counts (n - 2 ^ ?h)) \<le> ?h"
      using False b by (intro less.IH) auto
    ultimately show ?thesis
      using False by (subst frontier_peak_counts.simps) (simp add: Let_def)
  qed
qed

lemma frontier_peaks_bound:
  assumes "frontier_ok f" and "leaf_count f \<le> u64_max"
  shows "length (peak_hashes f) \<le> 64"
proof -
  have "length (peak_hashes f) = length (frontier_peak_counts (leaf_count f))"
    using assms(1) by (metis frontier_ok_def length_map peak_hashes_def)
  also have "\<dots> \<le> 64"
    using assms(2) by (intro peak_counts_bound) simp
  finally show ?thesis .
qed

lemma represents_frontier_ok: "represents H f xs \<Longrightarrow> frontier_ok f \<and> leaf_count f = length xs \<and> length xs \<le> u64_max"
  using represents_counts [of H f xs] by (auto simp: frontier_ok_def represents_def)

lemma from_leaves_represents: "from_leaves H xs = Inr f \<Longrightarrow> length xs \<le> u64_max \<Longrightarrow> represents H f xs"
  using extended_represents [OF represents_empty, of xs H] by (auto simp: from_leaves_def)

lemma length_pushes:
  "pushes xs = Inr bs \<Longrightarrow> list_all2 (\<lambda>x n. \<forall>a. x = Inr a \<longrightarrow> length a \<le> n) xs ns \<Longrightarrow> length bs \<le> sum_list ns"
proof (induction xs arbitrary: bs ns)
  case (Cons x xs)
  then obtain a b m ms where "x = Inr a" "pushes xs = Inr b" "bs = a @ b" "ns = m # ms" "length a \<le> m"
      "list_all2 (\<lambda>x n. \<forall>a. x = Inr a \<longrightarrow> length a \<le> n) xs ms"
    by (auto simp: list_all2_Cons1)
  with Cons.IH [of b ms] show ?case by simp
qed simp

lemma length_push_bounds: "push_bounds mn mx = Inr a \<Longrightarrow> length a \<le> 17"
  by (cases mn; cases mx; auto simp: push_bounds_def push_opt_i64_def Let_def)

lemma length_push_hashes: "pushes (map (\<lambda>h. Inr (as_bytes h)) hs) = Inr a \<Longrightarrow> length a = 32 * length hs"
  by (induction hs arbitrary: a) auto

lemma encode_manifest_bound:
  assumes "encode_manifest m = Inr bs" and "length (peak_hashes (sm_merkle_frontier m)) \<le> 64"
  shows "length bs \<le> 2142 + length (or_empty (sm_logical_attributes m))"
proof -
  have "length bs \<le> sum_list [20, 1, 8, 8, 17, 4 + length (or_empty (sm_logical_attributes m)), 32, 4, 2048]"
  proof (rule length_pushes [OF assms(1) [unfolded encode_manifest_def]], simp only: list_all2_Cons list_all2_Nil, intro conjI TrueI)
    show "\<forall>a. pushes (map (\<lambda>h. Inr (as_bytes h)) (peak_hashes (sm_merkle_frontier m))) = Inr a \<longrightarrow> length a \<le> 2048"
      using assms(2) by (auto dest!: length_push_hashes)
  qed (auto simp: MANIFEST_MAGIC_def push_attributes_def push_len_prefixed_def or_empty_def dest: length_push_bounds
      split: if_splits option.splits)
  then show ?thesis by simp
qed

lemma encode_manifest_total:
  assumes "length (or_empty (sm_logical_attributes m)) \<le> u32_max" and "length (peak_hashes (sm_merkle_frontier m)) \<le> 64"
  shows "\<exists>bs. encode_manifest m = Inr bs"
  unfolding encode_manifest_def pushes_Inr_ex
  using assms by (auto simp: push_attributes_def push_len_prefixed_def or_empty_def concat_bounds_chunks push_count_def
      pushes_Inr_ex split: option.splits)

section \<open>Properties\<close>

text \<open>C26: \<open>SeriesManifest::decode\<close> accepts exactly the encodings of manifests that satisfy the
  invariant: both counts zero or both nonzero, absent or canonical attributes, a frontier with
  the perfect subtrees of the leaf count, and the root that frontier reduces to.\<close>

theorem series_manifest_codec:
  "decode_manifest parse blake3 bs = Inr m \<longleftrightarrow> encode_manifest m = Inr bs \<and> manifest_ok parse blake3 m"
  by (rule decode_manifest_iff)

text \<open>C27: the manifest built over the frontier of a list of leaves commits to the Merkle root and
  the number of these leaves, holds at most 64 peaks, is encoded without panic when its
  attributes fit a \<open>u32\<close> length, in at most 2142 bytes besides the attributes, and decodes to
  itself.\<close>

theorem series_manifest_of_leaves:
  assumes "length xs \<le> u64_max" and "from_leaves blake3 xs = Inr f"
    and "manifest_new parse blake3 kind lc n mn mx attrs f = Inr m" and "length (or_empty attrs) \<le> u32_max"
  shows "unat (sm_leaf_count m) = length xs \<and> sm_leaf_merkle_root m = subtree_hash blake3 xs \<and>
    length (peak_hashes (sm_merkle_frontier m)) \<le> 64 \<and>
    (\<exists>bs. encode_manifest m = Inr bs \<and> length bs \<le> 2142 + length (or_empty attrs) \<and> decode_manifest parse blake3 bs = Inr m)"
proof -
  have f: "represents blake3 f xs"
    using from_leaves_represents [OF assms(2,1)] .
  have v: "(n = 0) = (lc = 0)" "attributes_ok parse attrs" "leaf_count f = unat n"
      and m: "m = \<lparr>sm_payload_kind = kind, sm_logical_count = lc, sm_leaf_count = n, sm_min_event_time = mn,
        sm_max_event_time = mx, sm_logical_attributes = attrs, sm_leaf_merkle_root = frontier_root blake3 f,
        sm_merkle_frontier = f\<rparr>"
    using assms(3) by (auto simp: manifest_new_def Let_def validate_manifest_iff)
  have ok: "manifest_ok parse blake3 m"
    using v represents_frontier_ok [OF f] by (simp add: m manifest_ok_def)
  have peaks: "length (peak_hashes f) \<le> 64"
    using represents_frontier_ok [OF f] by (auto intro: frontier_peaks_bound)
  obtain bs where bs: "encode_manifest m = Inr bs"
    using encode_manifest_total [of m] assms(4) peaks by (auto simp: m)
  have "length bs \<le> 2142 + length (or_empty attrs)"
    using encode_manifest_bound [OF bs] peaks by (simp add: m)
  moreover have "decode_manifest parse blake3 bs = Inr m"
    using bs ok by (simp add: decode_manifest_iff)
  moreover have "unat (sm_leaf_count m) = length xs" "sm_leaf_merkle_root m = subtree_hash blake3 xs"
    using v(3) represents_frontier_ok [OF f] represents_root [OF f] by (simp_all add: m)
  ultimately show ?thesis
    using bs peaks by (auto simp: m)
qed

theorem series_manifest_of_leaves_witness:
  "\<exists>f m bs. from_leaves toy_hash [digest 1, digest 2, digest 3] = Inr f \<and>
     manifest_new toy_parse toy_hash Table 5 3 None (Some 9) None f = Inr m \<and> encode_manifest m = Inr bs \<and>
     length bs \<le> 2142 \<and> sm_leaf_merkle_root m = subtree_hash toy_hash [digest 1, digest 2, digest 3]"
proof -
  obtain f where f: "from_leaves toy_hash [digest 1, digest 2, digest 3] = Inr f"
      "represents toy_hash f [digest 1, digest 2, digest 3]"
    using extended_represents [OF represents_empty, of "[digest 1, digest 2, digest 3]" toy_hash]
    by (auto simp: from_leaves_def)
  obtain m where m: "manifest_new toy_parse toy_hash Table 5 3 None (Some 9) None f = Inr m"
    using represents_frontier_ok [OF f(2)]
    by (simp add: manifest_new_def validate_manifest_def validate_attributes_def)
  show ?thesis
    using series_manifest_of_leaves [OF _ f(1) m] f(1) m by (auto simp: or_empty_def)
qed

end
