(* ===== verification/SeriesPack.thy ===== *)
theory SeriesPack
  imports SeriesManifest
begin

text \<open>
  Pack indexes, from \<open>content/series_pack.rs\<close>: the per-leaf descriptors and object spans of a
  physical pack, the validation of an index, its wire format, and the verification of a pack
  against a series manifest. Interval endpoints and counts are \<open>u64\<close> words; sums and cursors are
  natural numbers with the checked arithmetic of the source written out.
\<close>

section \<open>Leaf descriptors\<close>

definition PACK_MAGIC :: bytes where "PACK_MAGIC = ascii ''watertown.series-pack.v4'' @ [10]"

record pack_leaf_descriptor =
  pd_logical_leaf_hash :: hash32
  pd_logical_count :: u64
  pd_schema_fingerprint :: "hash32 option"
  pd_min_event_time :: "i64 option"
  pd_max_event_time :: "i64 option"
  pd_logical_attributes :: "bytes option"

definition validate_descriptor :: "(rstring \<Rightarrow> error + json) \<Rightarrow> u64 \<Rightarrow> bytes option \<Rightarrow> error + unit" where
  "validate_descriptor parse logical_count attrs =
    res_bind (require (logical_count \<noteq> 0) (Reject ''pack leaf descriptor logical_count must be positive'')) (\<lambda>_.
      validate_attributes parse attrs)"

definition new_with_leaf_hash_and_schema ::
    "(rstring \<Rightarrow> error + json) \<Rightarrow> hash32 \<Rightarrow> u64 \<Rightarrow> hash32 option \<Rightarrow> i64 option \<Rightarrow> i64 option \<Rightarrow> bytes option \<Rightarrow>
     error + pack_leaf_descriptor" where
  "new_with_leaf_hash_and_schema parse h logical_count fingerprint mn mx attrs =
    res_bind (validate_descriptor parse logical_count attrs) (\<lambda>_.
      Inr \<lparr>pd_logical_leaf_hash = h, pd_logical_count = logical_count, pd_schema_fingerprint = fingerprint,
           pd_min_event_time = mn, pd_max_event_time = mx, pd_logical_attributes = attrs\<rparr>)"

definition new_with_leaf_hash ::
    "(rstring \<Rightarrow> error + json) \<Rightarrow> hash32 \<Rightarrow> u64 \<Rightarrow> i64 option \<Rightarrow> i64 option \<Rightarrow> bytes option \<Rightarrow> error + pack_leaf_descriptor" where
  "new_with_leaf_hash parse h logical_count mn mx attrs =
    res_bind (validate_descriptor parse logical_count attrs) (\<lambda>_.
      Inr \<lparr>pd_logical_leaf_hash = h, pd_logical_count = logical_count, pd_schema_fingerprint = None,
           pd_min_event_time = mn, pd_max_event_time = mx, pd_logical_attributes = attrs\<rparr>)"

definition with_schema_fingerprint :: "pack_leaf_descriptor \<Rightarrow> hash32 \<Rightarrow> pack_leaf_descriptor" where
  "with_schema_fingerprint d fingerprint = d\<lparr>pd_schema_fingerprint := Some fingerprint\<rparr>"

definition with_logical_leaf_hash :: "pack_leaf_descriptor \<Rightarrow> hash32 \<Rightarrow> pack_leaf_descriptor" where
  "with_logical_leaf_hash d h = d\<lparr>pd_logical_leaf_hash := h\<rparr>"

definition push_fingerprint :: "hash32 option \<Rightarrow> error + bytes" where
  "push_fingerprint fp = (case fp of Some f \<Rightarrow> push_len_prefixed (as_bytes f) | None \<Rightarrow> push_len_prefixed [])"

definition encode_descriptor :: "pack_leaf_descriptor \<Rightarrow> error + bytes" where
  "encode_descriptor d = pushes
    [Inr (as_bytes (pd_logical_leaf_hash d)), Inr (le64 (pd_logical_count d)),
     push_fingerprint (pd_schema_fingerprint d),
     push_bounds (pd_min_event_time d) (pd_max_event_time d),
     push_attributes (pd_logical_attributes d)]"

definition fingerprint_of_bytes :: "bytes \<Rightarrow> error + hash32 option" where
  "fingerprint_of_bytes bs =
    (if bs = [] then Inr None
     else if length bs = 32 then Inr (Some (from_bytes bs))
     else Inl (Reject ''pack leaf schema fingerprint must be 0 or 32 bytes''))"

definition take_fingerprint :: "hash32 option dec" where
  "take_fingerprint = dec_bind take_len_prefixed (\<lambda>bs. dec_lift (fingerprint_of_bytes bs))"

definition decode_descriptor :: "(rstring \<Rightarrow> error + json) \<Rightarrow> pack_leaf_descriptor dec" where
  "decode_descriptor parse =
     dec_bind take_hash (\<lambda>h.
     dec_bind take_u64 (\<lambda>lc.
     dec_bind take_fingerprint (\<lambda>fp.
     dec_bind (take_bounds ''unknown pack leaf descriptor bounds flags'') (\<lambda>b.
     dec_bind take_attributes (\<lambda>attrs.
       dec_lift (new_with_leaf_hash_and_schema parse h lc fp (fst b) (snd b) attrs))))))"

section \<open>Object spans\<close>

record pack_object_span =
  os_object_hash :: hash32
  os_logical_start :: u64
  os_logical_end :: u64
  os_physical_start :: u64
  os_physical_end :: u64

definition span_new :: "hash32 \<Rightarrow> u64 \<Rightarrow> u64 \<Rightarrow> u64 \<Rightarrow> u64 \<Rightarrow> error + pack_object_span" where
  "span_new h ls le ps pe =
    res_bind (require (ls < le) (Reject ''pack object logical span must be nonempty'')) (\<lambda>_.
    res_bind (require (ps < pe) (Reject ''pack object physical span must be nonempty'')) (\<lambda>_.
      Inr \<lparr>os_object_hash = h, os_logical_start = ls, os_logical_end = le, os_physical_start = ps, os_physical_end = pe\<rparr>))"

definition physical_len :: "pack_object_span \<Rightarrow> u64" where
  "physical_len sp = os_physical_end sp - os_physical_start sp"

definition push_span :: "pack_object_span \<Rightarrow> error + bytes" where
  "push_span sp = pushes
    [Inr (as_bytes (os_object_hash sp)), Inr (le64 (os_logical_start sp)), Inr (le64 (os_logical_end sp)),
     Inr (le64 (os_physical_start sp)), Inr (le64 (os_physical_end sp))]"

definition take_span :: "pack_object_span dec" where
  "take_span =
     dec_bind take_hash (\<lambda>h. dec_bind take_u64 (\<lambda>ls. dec_bind take_u64 (\<lambda>le.
     dec_bind take_u64 (\<lambda>ps. dec_bind take_u64 (\<lambda>pe. dec_lift (span_new h ls le ps pe))))))"

text \<open>The leaf ranges of a pack, with the checked running sum.\<close>

fun leaf_ranges :: "nat \<Rightarrow> pack_leaf_descriptor list \<Rightarrow> error + (nat \<times> nat \<times> hash32 option) list" where
  "leaf_ranges leaf_cursor [] = Inr []"
| "leaf_ranges leaf_cursor (d # ds) =
    (let e = leaf_cursor + unat (pd_logical_count d) in
     res_bind (require (e \<le> u64_max) (Reject ''pack leaf logical range overflows u64'')) (\<lambda>_.
     res_bind (leaf_ranges e ds) (\<lambda>r. Inr ((leaf_cursor, e, pd_schema_fingerprint d) # r))))"

text \<open>The loop over the leaves a table span intersects: one fingerprint for all of them.\<close>

fun span_fingerprint :: "(nat \<times> nat \<times> hash32 option) list \<Rightarrow> nat \<Rightarrow> nat \<Rightarrow> hash32 option \<Rightarrow> error + hash32 option" where
  "span_fingerprint [] ls le fp = Inr fp"
| "span_fingerprint ((a, b, sch) # r) ls le fp =
    (if b \<le> ls \<or> le \<le> a then span_fingerprint r ls le fp
     else if fp \<noteq> None \<and> fp \<noteq> sch then Inl (Reject ''table pack object span crosses a schema-fingerprint transition'')
     else span_fingerprint r ls le sch)"

record span_state =
  logical_cursor :: nat
  physical_cursor :: nat
  lengths_by_hash :: "hash32 \<rightharpoonup> nat"

definition check_span ::
    "bool \<Rightarrow> bool \<Rightarrow> (nat \<times> nat \<times> hash32 option) list \<Rightarrow> span_state \<Rightarrow> pack_object_span \<Rightarrow> error + span_state" where
  "check_span all_file all_table ranges st sp =
    (let ls = unat (os_logical_start sp); le = unat (os_logical_end sp);
         ps = unat (os_physical_start sp); pe = unat (os_physical_end sp) in
     res_bind (require (ls = logical_cursor st) (Reject ''logical_start does not continue cursor'')) (\<lambda>_.
     res_bind (require (ps = physical_cursor st) (Reject ''physical_start does not continue cursor'')) (\<lambda>_.
     res_bind (require (ls \<le> le) (Reject ''inverted logical interval'')) (\<lambda>_.
     res_bind (require (ps \<le> pe) (Reject ''inverted physical interval'')) (\<lambda>_.
     res_bind (require (\<not> (le - ls = 0 \<or> pe - ps = 0)) (Reject ''pack object span must be nonempty'')) (\<lambda>_.
     res_bind (require (\<not> (all_file \<and> le - ls \<noteq> pe - ps)) (Reject ''file pack object span lengths differ'')) (\<lambda>_.
     res_bind (if all_table then
         res_bind (span_fingerprint ranges ls le None) (\<lambda>fp.
           require (fp \<noteq> None) (Reject ''table pack object span intersects no logical leaf''))
       else Inr ()) (\<lambda>_.
     res_bind (case lengths_by_hash st (os_object_hash sp) of
         Some previous \<Rightarrow> require (previous = pe - ps) (Reject ''repeated physical object declares conflicting byte lengths'')
       | None \<Rightarrow> Inr ()) (\<lambda>_.
       Inr \<lparr>logical_cursor = le, physical_cursor = pe,
            lengths_by_hash = (lengths_by_hash st)(os_object_hash sp \<mapsto> pe - ps)\<rparr>)))))))))"

definition validate_object_spans ::
    "pack_object_span list \<Rightarrow> pack_leaf_descriptor list \<Rightarrow> u64 \<Rightarrow> u64 \<Rightarrow> error + unit" where
  "validate_object_spans spans ds logical_count physical_byte_count =
    (let all_file = list_all (\<lambda>d. pd_schema_fingerprint d = None) ds;
         all_table = list_all (\<lambda>d. pd_schema_fingerprint d \<noteq> None) ds in
     res_bind (require (all_file \<or> all_table) (Reject ''pack leaf descriptors mix absent and present schema fingerprints'')) (\<lambda>_.
     res_bind (leaf_ranges 0 ds) (\<lambda>ranges.
     res_bind (res_fold (check_span all_file all_table ranges)
       \<lparr>logical_cursor = 0, physical_cursor = 0, lengths_by_hash = Map.empty\<rparr> spans) (\<lambda>st.
     res_bind (require (logical_cursor st = unat logical_count) (Reject ''pack object logical spans cover another count'')) (\<lambda>_.
       require (physical_cursor st = unat physical_byte_count) (Reject ''pack object physical spans cover another count''))))))"

section \<open>Pack indexes\<close>

record pack_index =
  pk_series_hash :: hash32
  pk_parent_series_hash :: "hash32 option"
  pk_leaf_start :: u64
  pk_leaf_end :: u64
  pk_total_leaf_count :: u64
  pk_range_root :: hash32
  pk_range_proof :: range_proof
  pk_object_spans :: "pack_object_span list"
  pk_physical_object_hashes :: "hash32 list"
  pk_logical_count :: u64
  pk_physical_byte_count :: u64
  pk_leaf_descriptors :: "pack_leaf_descriptor list"

fun descriptor_sum :: "nat \<Rightarrow> pack_leaf_descriptor list \<Rightarrow> error + nat" where
  "descriptor_sum acc [] = Inr acc"
| "descriptor_sum acc (d # ds) =
    (if acc + unat (pd_logical_count d) \<le> u64_max then descriptor_sum (acc + unat (pd_logical_count d)) ds
     else Inl (Reject ''pack leaf descriptor logical_count sum overflows u64''))"

definition validate_pack ::
    "(bytes \<Rightarrow> hash32) \<Rightarrow> u64 \<Rightarrow> u64 \<Rightarrow> u64 \<Rightarrow> hash32 \<Rightarrow> range_proof \<Rightarrow> pack_object_span list \<Rightarrow>
     pack_leaf_descriptor list \<Rightarrow> u64 \<Rightarrow> u64 \<Rightarrow> error + unit" where
  "validate_pack blake3 ls le tot root pf spans ds logical_count physical_byte_count =
    res_bind (require (ls < le) (Reject ''pack leaf range must be nonempty'')) (\<lambda>_.
    res_bind (require (le \<le> tot) (Reject ''pack leaf_end exceeds total_leaf_count'')) (\<lambda>_.
    res_bind (require (spans \<noteq> []) (Reject ''pack must name at least one physical object'')) (\<lambda>_.
    res_bind (require (length ds \<le> u64_max) (Reject ''pack leaf descriptor count exceeds u64::MAX'')) (\<lambda>_.
    res_bind (require (length ds = unat (le - ls)) (Reject ''pack needs exactly one descriptor per leaf'')) (\<lambda>_.
    res_bind (descriptor_sum 0 ds) (\<lambda>sum.
    res_bind (require (sum = unat logical_count) (Reject ''descriptor logical_count sum does not equal logical_count'')) (\<lambda>_.
    res_bind (verify_range_proof blake3 (unat tot) (unat ls) (unat le) (map pd_logical_leaf_hash ds) pf) (\<lambda>computed.
    res_bind (require (computed = root) (Reject ''descriptor leaf hashes and range proof do not reduce to range_root'')) (\<lambda>_.
    res_bind (validate_object_spans spans ds logical_count physical_byte_count) (\<lambda>_.
      validate_range_proof_shape pf (unat tot) (unat ls) (unat le)))))))))))"

definition new_segment_with_spans ::
    "(bytes \<Rightarrow> hash32) \<Rightarrow> hash32 \<Rightarrow> hash32 option \<Rightarrow> u64 \<Rightarrow> u64 \<Rightarrow> u64 \<Rightarrow> hash32 \<Rightarrow> range_proof \<Rightarrow> pack_object_span list \<Rightarrow>
     u64 \<Rightarrow> u64 \<Rightarrow> pack_leaf_descriptor list \<Rightarrow> error + pack_index" where
  "new_segment_with_spans blake3 series parent ls le tot root pf spans logical_count physical_byte_count ds =
    res_bind (require (parent \<noteq> Some series) (Reject ''pack parent_series_hash must not equal series_hash'')) (\<lambda>_.
    res_bind (validate_pack blake3 ls le tot root pf spans ds logical_count physical_byte_count) (\<lambda>_.
      Inr \<lparr>pk_series_hash = series, pk_parent_series_hash = parent, pk_leaf_start = ls, pk_leaf_end = le,
           pk_total_leaf_count = tot, pk_range_root = root, pk_range_proof = pf, pk_object_spans = spans,
           pk_physical_object_hashes = map os_object_hash spans, pk_logical_count = logical_count,
           pk_physical_byte_count = physical_byte_count, pk_leaf_descriptors = ds\<rparr>))"

definition new_with_spans ::
    "(bytes \<Rightarrow> hash32) \<Rightarrow> hash32 \<Rightarrow> u64 \<Rightarrow> u64 \<Rightarrow> u64 \<Rightarrow> hash32 \<Rightarrow> range_proof \<Rightarrow> pack_object_span list \<Rightarrow>
     u64 \<Rightarrow> u64 \<Rightarrow> pack_leaf_descriptor list \<Rightarrow> error + pack_index" where
  "new_with_spans blake3 series ls le tot root pf spans logical_count physical_byte_count ds =
    new_segment_with_spans blake3 series None ls le tot root pf spans logical_count physical_byte_count ds"

definition validate_series_segment :: "pack_index \<Rightarrow> error + unit" where
  "validate_series_segment p =
    res_bind (require (pk_leaf_end p = pk_total_leaf_count p) (Reject ''canonical series segment must end at total_leaf_count'')) (\<lambda>_.
      case pk_parent_series_hash p of
        None \<Rightarrow> require (pk_leaf_start p = 0) (Reject ''root series segment must start at leaf 0'')
      | Some _ \<Rightarrow> require (0 < pk_leaf_start p) (Reject ''append series segment must start after leaf 0''))"

definition encode_pack :: "pack_index \<Rightarrow> error + bytes" where
  "encode_pack p = pushes
    [Inr PACK_MAGIC,
     Inr (as_bytes (pk_series_hash p)),
     push_flagged (\<lambda>h. Inr (as_bytes h)) (pk_parent_series_hash p),
     Inr (le64 (pk_leaf_start p)),
     Inr (le64 (pk_leaf_end p)),
     Inr (le64 (pk_total_leaf_count p)),
     Inr (as_bytes (pk_range_root p)),
     push_nested encode_range_proof (pk_range_proof p),
     Inr (le64 (pk_logical_count p)),
     Inr (le64 (pk_physical_byte_count p)),
     push_count (length (pk_leaf_descriptors p)),
     pushes (map encode_descriptor (pk_leaf_descriptors p)),
     push_count (length (pk_object_spans p)),
     pushes (map push_span (pk_object_spans p))]"

definition pack_hash :: "(bytes \<Rightarrow> hash32) \<Rightarrow> pack_index \<Rightarrow> error + hash32" where
  "pack_hash blake3 p = res_bind (encode_pack p) (\<lambda>bs. Inr (blake3 bs))"

text \<open>The fields of a pack in wire order, before the index is validated.\<close>

record pack_fields =
  pf_series :: hash32
  pf_parent :: "hash32 option"
  pf_start :: u64
  pf_end :: u64
  pf_total :: u64
  pf_root :: hash32
  pf_proof :: range_proof
  pf_logical :: u64
  pf_physical :: u64
  pf_descriptors :: "pack_leaf_descriptor list"
  pf_spans :: "pack_object_span list"

definition take_pack_fields :: "(rstring \<Rightarrow> error + json) \<Rightarrow> pack_fields dec" where
  "take_pack_fields parse =
     dec_bind take_hash (\<lambda>series.
     dec_bind (take_flagged ''invalid pack parent flag'' take_hash) (\<lambda>parent.
     dec_bind take_u64 (\<lambda>ls.
     dec_bind take_u64 (\<lambda>le.
     dec_bind take_u64 (\<lambda>tot.
     dec_bind take_hash (\<lambda>root.
     dec_bind (take_nested (\<lambda>bs. decode_range_proof bs (unat tot) (unat ls) (unat le))) (\<lambda>pf.
     dec_bind take_u64 (\<lambda>lc.
     dec_bind take_u64 (\<lambda>pc.
     dec_bind (dec_bind take_u32 (\<lambda>n. take_times (unat n) (decode_descriptor parse))) (\<lambda>ds.
     dec_bind (dec_bind take_u32 (\<lambda>n. take_times (unat n) take_span)) (\<lambda>spans.
       dec_return \<lparr>pf_series = series, pf_parent = parent, pf_start = ls, pf_end = le, pf_total = tot, pf_root = root,
         pf_proof = pf, pf_logical = lc, pf_physical = pc, pf_descriptors = ds, pf_spans = spans\<rparr>)))))))))))"

definition decode_pack :: "(rstring \<Rightarrow> error + json) \<Rightarrow> (bytes \<Rightarrow> hash32) \<Rightarrow> bytes \<Rightarrow> error + pack_index" where
  "decode_pack parse blake3 bs =
    res_bind (run_dec
      (dec_bind (expect_tag PACK_MAGIC) (\<lambda>_.
       dec_bind (take_pack_fields parse) (\<lambda>w. dec_bind expect_end (\<lambda>_. dec_return w)))) bs) (\<lambda>w.
      new_segment_with_spans blake3 (pf_series w) (pf_parent w) (pf_start w) (pf_end w) (pf_total w) (pf_root w)
        (pf_proof w) (pf_spans w) (pf_logical w) (pf_physical w) (pf_descriptors w))"

section \<open>Verification against a manifest\<close>

definition effective_leaf_schema_fingerprint ::
    "series_manifest \<Rightarrow> pack_index \<Rightarrow> pack_leaf_descriptor \<Rightarrow> error + hash32 option" where
  "effective_leaf_schema_fingerprint m p d =
    (case sm_payload_kind m of
       File \<Rightarrow> if pd_schema_fingerprint d \<noteq> None
         then Inl (Reject ''a file pack leaf descriptor must not carry a schema fingerprint'') else Inr None
     | Table \<Rightarrow> (case pd_schema_fingerprint d of
         Some f \<Rightarrow> Inr (Some f)
       | None \<Rightarrow> Inl (Reject ''a table pack leaf descriptor requires a schema fingerprint'')))"

definition verify_pack_against_manifest ::
    "(bytes \<Rightarrow> hash32) \<Rightarrow> hash32 \<Rightarrow> series_manifest \<Rightarrow> pack_index \<Rightarrow> hash32 list \<Rightarrow> error + unit" where
  "verify_pack_against_manifest blake3 mh m p leaves =
    res_bind (require (pk_series_hash p = mh) (Reject ''pack series_hash does not match the manifest hash'')) (\<lambda>_.
    res_bind (require (pk_total_leaf_count p = sm_leaf_count m) (Reject ''pack total_leaf_count differs from manifest'')) (\<lambda>_.
    res_bind (res_map (effective_leaf_schema_fingerprint m p) (pk_leaf_descriptors p)) (\<lambda>_.
    res_bind (require (length leaves = unat (pk_leaf_end p - pk_leaf_start p)) (Reject ''wrong number of recomputed leaf hashes'')) (\<lambda>_.
    res_bind (require (list_all (\<lambda>(d, h). pd_logical_leaf_hash d = h) (zip (pk_leaf_descriptors p) leaves))
      (Reject ''descriptor hash differs from the recomputed hash'')) (\<lambda>_.
    res_bind (verify_range_proof blake3 (unat (pk_total_leaf_count p)) (unat (pk_leaf_start p)) (unat (pk_leaf_end p))
      leaves (pk_range_proof p)) (\<lambda>computed.
    res_bind (require (computed = pk_range_root p) (Reject ''range proof does not reduce to the range root'')) (\<lambda>_.
      require (computed = sm_leaf_merkle_root m) (Reject ''range proof root does not match the manifest root''))))))))"

text \<open>The running minimum and maximum of the bounds that are present; \<open>i64\<close> is compared signed.\<close>

definition min_i64 :: "i64 \<Rightarrow> i64 \<Rightarrow> i64" where "min_i64 a b = (if sint a \<le> sint b then a else b)"
definition max_i64 :: "i64 \<Rightarrow> i64 \<Rightarrow> i64" where "max_i64 a b = (if sint a \<le> sint b then b else a)"

fun fold_bound :: "(i64 \<Rightarrow> i64 \<Rightarrow> i64) \<Rightarrow> i64 option \<Rightarrow> i64 option list \<Rightarrow> i64 option" where
  "fold_bound f acc [] = acc"
| "fold_bound f acc (None # xs) = fold_bound f acc xs"
| "fold_bound f acc (Some v # xs) = fold_bound f (Some (case acc of None \<Rightarrow> v | Some c \<Rightarrow> f c v)) xs"

definition verify_complete_pack_against_manifest ::
    "(bytes \<Rightarrow> hash32) \<Rightarrow> hash32 \<Rightarrow> series_manifest \<Rightarrow> pack_index \<Rightarrow> error + unit" where
  "verify_complete_pack_against_manifest blake3 mh m p =
    res_bind (validate_series_segment p) (\<lambda>_.
    res_bind (require (\<not> (pk_parent_series_hash p \<noteq> None \<or> pk_leaf_start p \<noteq> 0 \<or> pk_leaf_end p \<noteq> sm_leaf_count m))
      (Reject ''consolidated pack must be a parentless whole-range series segment'')) (\<lambda>_.
    let ds = pk_leaf_descriptors p; leaves = map pd_logical_leaf_hash ds in
    res_bind (verify_pack_against_manifest blake3 mh m p leaves) (\<lambda>_.
    res_bind (require (pk_logical_count p = sm_logical_count m) (Reject ''complete pack logical count differs'')) (\<lambda>_.
    res_bind (require (\<not> (fold_bound min_i64 None (map pd_min_event_time ds) \<noteq> sm_min_event_time m \<or>
        fold_bound max_i64 None (map pd_max_event_time ds) \<noteq> sm_max_event_time m))
      (Reject ''complete pack aggregate event bounds disagree with the manifest'')) (\<lambda>_.
    res_bind (require ((case rev ds of [] \<Rightarrow> None | d # _ \<Rightarrow> pd_logical_attributes d) = sm_logical_attributes m)
      (Reject ''complete pack latest logical attributes disagree with the manifest'')) (\<lambda>_.
    res_bind (from_leaves blake3 leaves) (\<lambda>f.
      require (f = sm_merkle_frontier m) (Reject ''complete pack leaf descriptors do not reconstruct the manifest frontier''))))))))"

section \<open>The codecs meet their contract\<close>

lemma validate_descriptor_iff:
  "validate_descriptor parse lc attrs = Inr u \<longleftrightarrow> lc \<noteq> 0 \<and> attributes_ok parse attrs"
  by (auto simp: validate_descriptor_def validate_attributes_iff)

definition descriptor_ok :: "(rstring \<Rightarrow> error + json) \<Rightarrow> pack_leaf_descriptor \<Rightarrow> bool" where
  "descriptor_ok parse d \<longleftrightarrow> pd_logical_count d \<noteq> 0 \<and> attributes_ok parse (pd_logical_attributes d)"

lemma take_fingerprint_iff [simp]:
  "take_fingerprint c = Inr (fp, c') \<longleftrightarrow> writes (push_fingerprint fp) c c'"
proof -
  have "fingerprint_of_bytes bs = Inr fp \<longleftrightarrow> bs = (case fp of None \<Rightarrow> [] | Some f \<Rightarrow> as_bytes f)" for bs
    by (cases fp) (auto simp: fingerprint_of_bytes_def split: if_splits dest: arg_cong [where f = length])
  then show ?thesis
    by (cases fp) (auto simp: take_fingerprint_def push_fingerprint_def)
qed

lemma attributes_ok_nonempty: "attributes_ok parse attrs \<Longrightarrow> attrs \<noteq> Some []"
  by (auto simp: attributes_ok_def)

lemma descriptor_new_iff:
  "new_with_leaf_hash_and_schema parse h lc fp mn mx attrs = Inr d \<longleftrightarrow>
    descriptor_ok parse d \<and> d = \<lparr>pd_logical_leaf_hash = h, pd_logical_count = lc, pd_schema_fingerprint = fp,
      pd_min_event_time = mn, pd_max_event_time = mx, pd_logical_attributes = attrs\<rparr>"
  by (auto simp: new_with_leaf_hash_and_schema_def validate_descriptor_iff descriptor_ok_def)

interpretation descriptor: codec "guarded (descriptor_ok parse) encode_descriptor" "decode_descriptor parse" for parse
proof
  fix c c' d
  obtain h lc fp mn mx attrs where d: "d = \<lparr>pd_logical_leaf_hash = h, pd_logical_count = lc, pd_schema_fingerprint = fp,
      pd_min_event_time = mn, pd_max_event_time = mx, pd_logical_attributes = attrs\<rparr>" by (cases d)
  have *: "decode_descriptor parse c = Inr (d, c') \<longleftrightarrow> attrs \<noteq> Some [] \<and> descriptor_ok parse d \<and> writes (encode_descriptor d) c c'"
    unfolding decode_descriptor_def encode_descriptor_def dec_bind_iff take_hash_iff take_words_iff take_fingerprint_iff
      take_bounds_iff take_attributes_iff dec_lift_iff descriptor_new_iff d pack_leaf_descriptor.select_convs
      pack_leaf_descriptor.ext_inject writes_simps
    by (auto; force)
  have "descriptor_ok parse d \<Longrightarrow> attrs \<noteq> Some []"
    by (auto simp: d descriptor_ok_def dest: attributes_ok_nonempty)
  then show "decode_descriptor parse c = Inr (d, c') \<longleftrightarrow> writes (guarded (descriptor_ok parse) encode_descriptor d) c c'"
    unfolding * by auto
qed

definition span_ok :: "pack_object_span \<Rightarrow> bool" where
  "span_ok sp \<longleftrightarrow> os_logical_start sp < os_logical_end sp \<and> os_physical_start sp < os_physical_end sp"

lemma span_new_iff:
  "span_new h ls le ps pe = Inr sp \<longleftrightarrow> span_ok sp \<and>
    sp = \<lparr>os_object_hash = h, os_logical_start = ls, os_logical_end = le, os_physical_start = ps, os_physical_end = pe\<rparr>"
  by (auto simp: span_new_def span_ok_def)

interpretation span: codec "guarded span_ok push_span" take_span
proof
  fix c c' sp
  obtain h ls le ps pe where sp: "sp = \<lparr>os_object_hash = h, os_logical_start = ls, os_logical_end = le,
      os_physical_start = ps, os_physical_end = pe\<rparr>" by (cases sp)
  show "take_span c = Inr (sp, c') \<longleftrightarrow> writes (guarded span_ok push_span sp) c c'"
    unfolding take_span_def push_span_def dec_bind_iff take_hash_iff take_words_iff dec_lift_iff span_new_iff
      sp pack_object_span.select_convs pack_object_span.ext_inject writes_guarded writes_simps
    by (auto; force)
qed

definition proof_ok :: "nat \<Rightarrow> nat \<Rightarrow> nat \<Rightarrow> range_proof \<Rightarrow> bool" where
  "proof_ok tot start end pf \<longleftrightarrow> start < end \<and> end \<le> tot \<and> validate_range_proof_shape pf tot start end = Inr ()"

lemma take_proof_iff:
  "take_nested (\<lambda>bs. decode_range_proof bs tot start end) c = Inr (pf, c') \<longleftrightarrow>
    proof_ok tot start end pf \<and> writes (push_nested encode_range_proof pf) c c'"
proof -
  have "take_nested (\<lambda>bs. decode_range_proof bs tot start end) c = Inr (pf, c') \<longleftrightarrow>
      writes (push_nested (guarded (proof_ok tot start end) encode_range_proof) pf) c c'"
    by (rule take_nested_iff) (auto simp: decode_range_proof_iff proof_ok_def)
  then show ?thesis by simp
qed

lemma writes_guarded_list:
  "writes (pushes (map (guarded P enc) xs)) c c' \<longleftrightarrow> list_all P xs \<and> writes (pushes (map enc xs)) c c'"
  by (rule writes_map_guarded) simp

lemma take_descriptors_iff:
  "dec_bind take_u32 (\<lambda>n. take_times (unat n) (decode_descriptor parse)) c = Inr (ds, c') \<longleftrightarrow>
    list_all (descriptor_ok parse) ds \<and> writes (pushes [push_count (length ds), pushes (map encode_descriptor ds)]) c c'"
  unfolding descriptor.counted_iff
  by (auto simp: writes_guarded_list)

lemma take_spans_iff:
  "dec_bind take_u32 (\<lambda>n. take_times (unat n) take_span) c = Inr (sps, c') \<longleftrightarrow>
    list_all span_ok sps \<and> writes (pushes [push_count (length sps), pushes (map push_span sps)]) c c'"
  unfolding span.counted_iff
  by (auto simp: writes_guarded_list)

definition push_pack_fields :: "pack_fields \<Rightarrow> error + bytes" where
  "push_pack_fields w = pushes
    [Inr (as_bytes (pf_series w)), push_flagged (\<lambda>h. Inr (as_bytes h)) (pf_parent w),
     Inr (le64 (pf_start w)), Inr (le64 (pf_end w)), Inr (le64 (pf_total w)), Inr (as_bytes (pf_root w)),
     push_nested encode_range_proof (pf_proof w), Inr (le64 (pf_logical w)), Inr (le64 (pf_physical w)),
     pushes [push_count (length (pf_descriptors w)), pushes (map encode_descriptor (pf_descriptors w))],
     pushes [push_count (length (pf_spans w)), pushes (map push_span (pf_spans w))]]"

definition fields_ok :: "(rstring \<Rightarrow> error + json) \<Rightarrow> pack_fields \<Rightarrow> bool" where
  "fields_ok parse w \<longleftrightarrow> proof_ok (unat (pf_total w)) (unat (pf_start w)) (unat (pf_end w)) (pf_proof w) \<and>
     list_all (descriptor_ok parse) (pf_descriptors w) \<and> list_all span_ok (pf_spans w)"

interpretation pack_fields: codec "guarded (fields_ok parse) push_pack_fields" "take_pack_fields parse" for parse
proof
  fix c c' w
  obtain se pa st en tot ro pf lc pc ds sps where w: "w = \<lparr>pf_series = se, pf_parent = pa, pf_start = st, pf_end = en,
      pf_total = tot, pf_root = ro, pf_proof = pf, pf_logical = lc, pf_physical = pc, pf_descriptors = ds, pf_spans = sps\<rparr>"
    by (cases w)
  show "take_pack_fields parse c = Inr (w, c') \<longleftrightarrow> writes (guarded (fields_ok parse) push_pack_fields w) c c'"
    unfolding take_pack_fields_def push_pack_fields_def w pack_fields.select_convs writes_guarded fields_ok_def
      dec_bind_iff [of take_u64] dec_bind_iff [of take_hash] dec_bind_iff [of "take_flagged msg d" for msg d]
      dec_bind_iff [of "take_nested d" for d] dec_bind_iff [of "dec_bind take_u32 f" for f]
      take_descriptors_iff take_spans_iff take_proof_iff hash_field.flagged_iff
      take_words_iff take_hash_iff dec_return_iff pack_fields.ext_inject
      writes_simps(1) writes_simps(3) [of "Inr x" for x] writes_simps(3) [of "push_flagged f x" for f x]
      writes_simps(3) [of "push_nested f x" for f x] writes_simps(3) [of "pushes xs" for xs] writes_simps(2)
    by (rule iffI, (clarify, intro exI conjI, (assumption | rule refl)+)+)
qed

definition pack_fields_of :: "pack_index \<Rightarrow> pack_fields" where
  "pack_fields_of p = \<lparr>pf_series = pk_series_hash p, pf_parent = pk_parent_series_hash p, pf_start = pk_leaf_start p,
     pf_end = pk_leaf_end p, pf_total = pk_total_leaf_count p, pf_root = pk_range_root p, pf_proof = pk_range_proof p,
     pf_logical = pk_logical_count p, pf_physical = pk_physical_byte_count p,
     pf_descriptors = pk_leaf_descriptors p, pf_spans = pk_object_spans p\<rparr>"

lemma encode_pack_fields:
  "encode_pack p = Inr bs \<longleftrightarrow> pushes [Inr PACK_MAGIC, push_pack_fields (pack_fields_of p)] = Inr bs"
proof -
  have flat: "pushes (xs @ [pushes [a, b], pushes [c, d]]) = Inr bs \<longleftrightarrow> pushes (xs @ [a, b, c, d]) = Inr bs" for xs a b c d
    unfolding pushes_append_iff by auto
  show ?thesis
    using flat [of "[Inr PACK_MAGIC, Inr (as_bytes (pk_series_hash p)),
       push_flagged (\<lambda>h. Inr (as_bytes h)) (pk_parent_series_hash p), Inr (le64 (pk_leaf_start p)),
       Inr (le64 (pk_leaf_end p)), Inr (le64 (pk_total_leaf_count p)), Inr (as_bytes (pk_range_root p)),
       push_nested encode_range_proof (pk_range_proof p), Inr (le64 (pk_logical_count p)),
       Inr (le64 (pk_physical_byte_count p))]" "push_count (length (pk_leaf_descriptors p))"
       "pushes (map encode_descriptor (pk_leaf_descriptors p))" "push_count (length (pk_object_spans p))"
       "pushes (map push_span (pk_object_spans p))"]
    unfolding encode_pack_def push_pack_fields_def pack_fields_of_def pushes_nest(1) pack_fields.select_convs
      append_Cons append_Nil by simp
qed

text \<open>The invariant of an index: what construction checks, and the valid parts it is built from.\<close>

definition pack_ok :: "(rstring \<Rightarrow> error + json) \<Rightarrow> (bytes \<Rightarrow> hash32) \<Rightarrow> pack_index \<Rightarrow> bool" where
  "pack_ok parse blake3 p \<longleftrightarrow>
    list_all (descriptor_ok parse) (pk_leaf_descriptors p) \<and> list_all span_ok (pk_object_spans p) \<and>
    pk_parent_series_hash p \<noteq> Some (pk_series_hash p) \<and>
    pk_physical_object_hashes p = map os_object_hash (pk_object_spans p) \<and>
    validate_pack blake3 (pk_leaf_start p) (pk_leaf_end p) (pk_total_leaf_count p) (pk_range_root p) (pk_range_proof p)
      (pk_object_spans p) (pk_leaf_descriptors p) (pk_logical_count p) (pk_physical_byte_count p) = Inr ()"

lemma validate_pack_proof_ok:
  "validate_pack H ls le tot root pf spans ds lc pc = Inr u \<Longrightarrow> proof_ok (unat tot) (unat ls) (unat le) pf"
  by (auto simp: validate_pack_def proof_ok_def word_less_nat_alt word_le_nat_alt)

lemma decode_pack_iff:
  "decode_pack parse H bs = Inr p \<longleftrightarrow> encode_pack p = Inr bs \<and> pack_ok parse H p"
proof
  assume "decode_pack parse H bs = Inr p"
  then obtain w where w: "fields_ok parse w" "pushes [Inr PACK_MAGIC, push_pack_fields w] = Inr bs"
      and n: "new_segment_with_spans H (pf_series w) (pf_parent w) (pf_start w) (pf_end w) (pf_total w) (pf_root w)
        (pf_proof w) (pf_spans w) (pf_logical w) (pf_physical w) (pf_descriptors w) = Inr p"
    unfolding decode_pack_def res_bind_eq_Inr pack_fields.strict_iff by auto
  have "pack_fields_of p = w"
    using n by (cases w) (auto simp: new_segment_with_spans_def pack_fields_of_def)
  with w(2) have "encode_pack p = Inr bs"
    by (simp only: encode_pack_fields)
  moreover have "pack_ok parse H p"
    using n w(1) by (auto simp: new_segment_with_spans_def pack_ok_def fields_ok_def)
  ultimately show "encode_pack p = Inr bs \<and> pack_ok parse H p" ..
next
  assume p: "encode_pack p = Inr bs \<and> pack_ok parse H p"
  let ?w = "pack_fields_of p"
  have "fields_ok parse ?w"
    using p validate_pack_proof_ok [of H "pk_leaf_start p" "pk_leaf_end p" "pk_total_leaf_count p" "pk_range_root p"]
    by (auto simp: fields_ok_def pack_fields_of_def pack_ok_def)
  then have "run_dec (dec_bind (expect_tag PACK_MAGIC) (\<lambda>_.
      dec_bind (take_pack_fields parse) (\<lambda>w. dec_bind expect_end (\<lambda>_. dec_return w)))) bs = Inr ?w"
    using p unfolding pack_fields.strict_iff encode_pack_fields by auto
  moreover have "new_segment_with_spans H (pf_series ?w) (pf_parent ?w) (pf_start ?w) (pf_end ?w) (pf_total ?w) (pf_root ?w)
      (pf_proof ?w) (pf_spans ?w) (pf_logical ?w) (pf_physical ?w) (pf_descriptors ?w) = Inr p"
    using p by (cases p) (simp add: new_segment_with_spans_def pack_fields_of_def pack_ok_def)
  ultimately show "decode_pack parse H bs = Inr p"
    by (simp add: decode_pack_def)
qed

end
