(* ===== verification/SeriesPackCorrect.thy ===== *)
theory SeriesPackCorrect
  imports SeriesPack
begin

text \<open>
  What a validated pack index guarantees: its object spans tile the logical and the physical
  stream, its descriptors tile the leaf range, a pack verified against a manifest holds the
  leaves of the series, and a complete pack determines its manifest.
\<close>

section \<open>Tilings\<close>

text \<open>Consecutive non-empty intervals from \<open>a\<close> to \<open>b\<close>.\<close>

fun tiles :: "nat \<Rightarrow> nat \<Rightarrow> (nat \<times> nat) list \<Rightarrow> bool" where
  "tiles a b [] \<longleftrightarrow> a = b"
| "tiles a b (iv # ivs) \<longleftrightarrow> fst iv = a \<and> fst iv < snd iv \<and> tiles (snd iv) b ivs"

lemma tiles_le: "tiles a b ivs \<Longrightarrow> a \<le> b"
  by (induction ivs arbitrary: a) fastforce+

lemma tiles_bounds: "tiles a b ivs \<Longrightarrow> iv \<in> set ivs \<Longrightarrow> a \<le> fst iv \<and> snd iv \<le> b"
  by (induction ivs arbitrary: a) (auto dest: tiles_le, fastforce)

lemma tiles_cover:
  "tiles a b ivs \<Longrightarrow> a \<le> u \<Longrightarrow> u < b \<Longrightarrow> \<exists>!i. i < length ivs \<and> fst (ivs ! i) \<le> u \<and> u < snd (ivs ! i)"
proof (induction ivs arbitrary: a)
  case (Cons iv ivs)
  have t: "fst iv = a" "tiles (snd iv) b ivs" using Cons.prems(1) by auto
  show ?case
  proof (cases "u < snd iv")
    case True
    have zero: "i = 0" if "i < length (iv # ivs) \<and> fst ((iv # ivs) ! i) \<le> u \<and> u < snd ((iv # ivs) ! i)" for i
    proof (rule ccontr)
      assume "i \<noteq> 0"
      then obtain j where j: "i = Suc j" by (cases i) auto
      have "snd iv \<le> fst (ivs ! j)"
        using tiles_bounds [OF t(2), of "ivs ! j"] that by (simp add: j)
      moreover have "fst (ivs ! j) \<le> u"
        using that by (simp add: j)
      ultimately show False using True by linarith
    qed
    show ?thesis
      by (rule ex1I [of _ 0]) (use True t(1) Cons.prems(2) in simp, rule zero)
  next
    case False
    then have "\<exists>!i. i < length ivs \<and> fst (ivs ! i) \<le> u \<and> u < snd (ivs ! i)"
      using Cons.IH [OF t(2)] Cons.prems(3) by linarith
    then obtain i where i: "i < length ivs \<and> fst (ivs ! i) \<le> u \<and> u < snd (ivs ! i)"
        and uniq: "\<forall>j. j < length ivs \<and> fst (ivs ! j) \<le> u \<and> u < snd (ivs ! j) \<longrightarrow> j = i"
      by (rule ex1E)
    show ?thesis
    proof (rule ex1I [of _ "Suc i"])
      show "Suc i < length (iv # ivs) \<and> fst ((iv # ivs) ! Suc i) \<le> u \<and> u < snd ((iv # ivs) ! Suc i)"
        using i by simp
      fix k
      assume k: "k < length (iv # ivs) \<and> fst ((iv # ivs) ! k) \<le> u \<and> u < snd ((iv # ivs) ! k)"
      with False obtain j where j: "k = Suc j" by (cases k) auto
      with k uniq show "k = Suc i" by simp
    qed
  qed
qed simp

lemma tiles_sum: "tiles a b ivs \<Longrightarrow> a + sum_list (map (\<lambda>iv. snd iv - fst iv) ivs) = b"
proof (induction ivs arbitrary: a)
  case (Cons iv ivs)
  then have "fst iv = a" "a < snd iv" "snd iv + sum_list (map (\<lambda>iv. snd iv - fst iv) ivs) = b" by auto
  then show ?case by simp
qed simp

section \<open>Spans\<close>

abbreviation logical_interval :: "pack_object_span \<Rightarrow> nat \<times> nat" where
  "logical_interval sp \<equiv> (unat (os_logical_start sp), unat (os_logical_end sp))"

abbreviation physical_interval :: "pack_object_span \<Rightarrow> nat \<times> nat" where
  "physical_interval sp \<equiv> (unat (os_physical_start sp), unat (os_physical_end sp))"

abbreviation interval_len :: "nat \<times> nat \<Rightarrow> nat" where
  "interval_len iv \<equiv> snd iv - fst iv"

definition meets :: "nat \<times> nat \<Rightarrow> nat \<times> nat \<Rightarrow> bool" where
  "meets x y \<longleftrightarrow> fst x < snd y \<and> fst y < snd x"

lemma check_span_Inr:
  assumes "check_span all_file all_table ranges st sp = Inr st'"
  shows "fst (logical_interval sp) = logical_cursor st" "fst (physical_interval sp) = physical_cursor st"
    "fst (logical_interval sp) < snd (logical_interval sp)" "fst (physical_interval sp) < snd (physical_interval sp)"
    "all_file \<Longrightarrow> interval_len (logical_interval sp) = interval_len (physical_interval sp)"
    "all_table \<Longrightarrow> \<exists>f. span_fingerprint ranges (fst (logical_interval sp)) (snd (logical_interval sp)) None = Inr (Some f)"
    "lengths_by_hash st (os_object_hash sp) \<in> {None, Some (interval_len (physical_interval sp))}"
    "st' = \<lparr>logical_cursor = snd (logical_interval sp), physical_cursor = snd (physical_interval sp),
      lengths_by_hash = (lengths_by_hash st)(os_object_hash sp \<mapsto> interval_len (physical_interval sp))\<rparr>"
  using assms by (auto simp: check_span_def Let_def split: option.splits if_splits)

lemma check_spans_tile:
  assumes "res_fold (check_span all_file all_table ranges) st spans = Inr st'"
  shows "tiles (logical_cursor st) (logical_cursor st') (map logical_interval spans)"
    and "tiles (physical_cursor st) (physical_cursor st') (map physical_interval spans)"
  using assms
proof (induction spans arbitrary: st)
  case (Cons sp spans)
  case 1
  then obtain st1 where "check_span all_file all_table ranges st sp = Inr st1"
      "res_fold (check_span all_file all_table ranges) st1 spans = Inr st'" by auto
  with Cons.IH(1) [of st1] check_span_Inr [of all_file all_table ranges st sp st1] show ?case by simp
next
  case (Cons sp spans)
  case 2
  then obtain st1 where "check_span all_file all_table ranges st sp = Inr st1"
      "res_fold (check_span all_file all_table ranges) st1 spans = Inr st'" by auto
  with Cons.IH(2) [of st1] check_span_Inr [of all_file all_table ranges st sp st1] show ?case by simp
qed simp_all

lemma check_spans_each:
  assumes "res_fold (check_span all_file all_table ranges) st spans = Inr st'" and "sp \<in> set spans"
  shows "\<exists>st1 st2. check_span all_file all_table ranges st1 sp = Inr st2"
  using assms by (induction spans arbitrary: st) auto

lemma check_spans_lengths:
  assumes "res_fold (check_span all_file all_table ranges) st spans = Inr st'"
  shows "(\<forall>h n. lengths_by_hash st h = Some n \<longrightarrow> lengths_by_hash st' h = Some n) \<and>
    (\<forall>sp \<in> set spans. lengths_by_hash st' (os_object_hash sp) = Some (interval_len (physical_interval sp)))"
  using assms
proof (induction spans arbitrary: st)
  case (Cons sp spans)
  then obtain st1 where c: "check_span all_file all_table ranges st sp = Inr st1"
      and r: "res_fold (check_span all_file all_table ranges) st1 spans = Inr st'" by auto
  have l: "lengths_by_hash st1 = (lengths_by_hash st)(os_object_hash sp \<mapsto> interval_len (physical_interval sp))"
    using check_span_Inr(8) [OF c] by simp
  have keep: "lengths_by_hash st1 h = Some n" if "lengths_by_hash st h = Some n" for h n
    using that check_span_Inr(7) [OF c] by (cases "h = os_object_hash sp") (auto simp: l)
  show ?case
    using Cons.IH [OF r] keep l by auto
qed simp

text \<open>The loop over the leaf ranges accepts a span only when all leaves it meets have one schema.\<close>

lemma span_fingerprint_some:
  assumes "span_fingerprint ranges ls le (Some f) = Inr fp"
  shows "fp = Some f \<and> (\<forall>(a, b, sch) \<in> set ranges. meets (a, b) (ls, le) \<longrightarrow> sch = Some f)"
  using assms
proof (induction ranges)
  case (Cons r ranges)
  then show ?case
    by (cases r) (auto simp: meets_def split: if_splits)
qed simp

lemma span_fingerprint_none:
  assumes "span_fingerprint ranges ls le None = Inr fp" and "\<forall>(a, b, sch) \<in> set ranges. sch \<noteq> None"
  shows "\<forall>(a, b, sch) \<in> set ranges. meets (a, b) (ls, le) \<longrightarrow> sch = fp"
  using assms
proof (induction ranges)
  case (Cons r ranges)
  obtain a b sch where r: "r = (a, b, sch)" by (cases r)
  show ?case
  proof (cases "b \<le> ls \<or> le \<le> a")
    case True
    then show ?thesis using Cons by (auto simp: r meets_def)
  next
    case False
    then obtain f where f: "sch = Some f" "span_fingerprint ranges ls le (Some f) = Inr fp"
      using Cons.prems by (auto simp: r)
    then show ?thesis
      using span_fingerprint_some [OF f(2)] by (auto simp: r)
  qed
qed simp

lemma leaf_ranges_tile:
  assumes "leaf_ranges a ds = Inr rs" and "\<forall>d \<in> set ds. pd_logical_count d \<noteq> 0"
  shows "tiles a (a + sum_list (map (\<lambda>d. unat (pd_logical_count d)) ds)) (map (\<lambda>r. (fst r, fst (snd r))) rs) \<and>
    map (\<lambda>r. snd (snd r)) rs = map pd_schema_fingerprint ds"
  using assms
proof (induction ds arbitrary: a rs)
  case (Cons d ds)
  then obtain r where r: "leaf_ranges (a + unat (pd_logical_count d)) ds = Inr r"
      "rs = (a, a + unat (pd_logical_count d), pd_schema_fingerprint d) # r"
    by (auto simp: Let_def)
  have "unat (pd_logical_count d) \<noteq> 0"
    using Cons.prems(2) by (simp add: unat_eq_zero)
  with Cons.IH [OF r(1)] Cons.prems(2) show ?case
    by (simp add: r(2) add.assoc)
qed simp

lemma leaf_ranges_schemas: "leaf_ranges a ds = Inr rs \<Longrightarrow> map (\<lambda>r. snd (snd r)) rs = map pd_schema_fingerprint ds"
  by (induction ds arbitrary: a rs) (auto simp: Let_def)

lemma descriptor_sum_eq:
  "descriptor_sum acc ds = Inr n \<Longrightarrow> n = acc + sum_list (map (\<lambda>d. unat (pd_logical_count d)) ds)"
proof (induction ds arbitrary: acc)
  case (Cons d ds)
  then have "descriptor_sum (acc + unat (pd_logical_count d)) ds = Inr n"
    by (auto split: if_splits)
  from Cons.IH [OF this] show ?case by simp
qed simp

section \<open>What validation guarantees\<close>

lemma validate_pack_Inr:
  assumes "validate_pack H ls le tot root pf spans ds lc pc = Inr u"
  shows "ls < le" "le \<le> tot" "spans \<noteq> []" "length ds = unat le - unat ls"
    "sum_list (map (\<lambda>d. unat (pd_logical_count d)) ds) = unat lc"
    "verify_range_proof H (unat tot) (unat ls) (unat le) (map pd_logical_leaf_hash ds) pf = Inr root"
    "validate_object_spans spans ds lc pc = Inr ()"
proof -
  obtain sm where v: "ls < le" "le \<le> tot" "spans \<noteq> []" "length ds = unat (le - ls)" "descriptor_sum 0 ds = Inr sm"
      "sm = unat lc" "verify_range_proof H (unat tot) (unat ls) (unat le) (map pd_logical_leaf_hash ds) pf = Inr root"
      "validate_object_spans spans ds lc pc = Inr ()"
    using assms by (auto simp: validate_pack_def)
  then show "ls < le" "le \<le> tot" "spans \<noteq> []"
    "verify_range_proof H (unat tot) (unat ls) (unat le) (map pd_logical_leaf_hash ds) pf = Inr root"
    "validate_object_spans spans ds lc pc = Inr ()" by blast+
  show "length ds = unat le - unat ls"
    using v(1,4) by (simp add: unat_sub word_less_nat_alt word_le_nat_alt)
  show "sum_list (map (\<lambda>d. unat (pd_logical_count d)) ds) = unat lc"
    using descriptor_sum_eq [OF v(5)] v(6) by simp
qed

definition spans_wf :: "pack_object_span list \<Rightarrow> pack_leaf_descriptor list \<Rightarrow> nat \<Rightarrow> nat \<Rightarrow> bool" where
  "spans_wf spans ds lc pc \<longleftrightarrow>
    tiles 0 lc (map logical_interval spans) \<and> tiles 0 pc (map physical_interval spans) \<and>
    (\<forall>sp \<in> set spans. \<forall>sp' \<in> set spans. os_object_hash sp = os_object_hash sp' \<longrightarrow>
       interval_len (physical_interval sp) = interval_len (physical_interval sp')) \<and>
    (list_all (\<lambda>d. pd_schema_fingerprint d = None) ds \<longrightarrow>
       (\<forall>sp \<in> set spans. interval_len (logical_interval sp) = interval_len (physical_interval sp)))"

text \<open>The logical interval of each leaf of the pack, with its schema.\<close>

definition leaf_intervals :: "pack_leaf_descriptor list \<Rightarrow> (nat \<times> nat \<times> hash32 option) list" where
  "leaf_intervals ds = (case leaf_ranges 0 ds of Inr r \<Rightarrow> r | Inl _ \<Rightarrow> [])"

lemma validate_spans_wf:
  assumes "validate_object_spans spans ds lc pc = Inr u"
  shows "spans_wf spans ds (unat lc) (unat pc)"
    and "\<forall>sp \<in> set spans. \<exists>fp. \<forall>(a, b, sch) \<in> set (leaf_intervals ds). meets (a, b) (logical_interval sp) \<longrightarrow> sch = fp"
    and "\<exists>rs. leaf_ranges 0 ds = Inr rs"
proof -
  let ?all_file = "list_all (\<lambda>d. pd_schema_fingerprint d = None) ds" and ?all_table = "list_all (\<lambda>d. pd_schema_fingerprint d \<noteq> None) ds"
  let ?st = "\<lparr>logical_cursor = 0, physical_cursor = 0, lengths_by_hash = Map.empty\<rparr>"
  obtain rs st where kinds: "?all_file \<or> ?all_table" and rs: "leaf_ranges 0 ds = Inr rs"
      and st: "res_fold (check_span ?all_file ?all_table rs) ?st spans = Inr st"
      and ends: "logical_cursor st = unat lc" "physical_cursor st = unat pc"
    using assms by (auto simp: validate_object_spans_def Let_def)
  show "\<exists>rs. leaf_ranges 0 ds = Inr rs" using rs by blast
  have lens: "lengths_by_hash st (os_object_hash sp) = Some (interval_len (physical_interval sp))" if "sp \<in> set spans" for sp
    using check_spans_lengths [OF st] that by blast
  have repeated: "interval_len (physical_interval sp) = interval_len (physical_interval sp')"
    if "sp \<in> set spans" "sp' \<in> set spans" "os_object_hash sp = os_object_hash sp'" for sp sp'
    using lens [OF that(1)] lens [OF that(2)] that(3) by simp
  have same: "interval_len (logical_interval sp) = interval_len (physical_interval sp)" if f: "?all_file" and sp: "sp \<in> set spans" for sp
  proof -
    obtain s1 s2 where "check_span ?all_file ?all_table rs s1 sp = Inr s2"
      using check_spans_each [OF st sp] by blast
    from check_span_Inr(5) [OF this f] show ?thesis .
  qed
  show "spans_wf spans ds (unat lc) (unat pc)"
    unfolding spans_wf_def
  proof (intro conjI ballI impI)
    show "tiles 0 (unat lc) (map logical_interval spans)" "tiles 0 (unat pc) (map physical_interval spans)"
      using check_spans_tile [OF st] by (simp_all only: ends span_state.select_convs)
  qed (erule (2) repeated, erule (1) same)
  have schemas: "sch \<in> pd_schema_fingerprint ` set ds" if "(a, b, sch) \<in> set rs" for a b sch
  proof -
    have "snd (snd (a, b, sch)) \<in> set (map (\<lambda>r. snd (snd r)) rs)"
      using that by (auto intro: rev_image_eqI)
    then show ?thesis
      unfolding leaf_ranges_schemas [OF rs] by simp
  qed
  show "\<forall>sp \<in> set spans. \<exists>fp. \<forall>(a, b, sch) \<in> set (leaf_intervals ds). meets (a, b) (logical_interval sp) \<longrightarrow> sch = fp"
  proof
    fix sp
    assume sp: "sp \<in> set spans"
    show "\<exists>fp. \<forall>(a, b, sch) \<in> set (leaf_intervals ds). meets (a, b) (logical_interval sp) \<longrightarrow> sch = fp"
    proof (cases ?all_table)
      case False
      then have ?all_file using kinds by blast
      then have "sch = None" if "(a, b, sch) \<in> set rs" for a b sch
        using schemas [OF that] by (auto simp: list_all_iff)
      then show ?thesis by (intro exI [of _ None]) (auto simp: leaf_intervals_def rs)
    next
      case True
      obtain s1 s2 where c: "check_span ?all_file ?all_table rs s1 sp = Inr s2"
        using check_spans_each [OF st sp] by blast
      obtain f where f: "span_fingerprint rs (fst (logical_interval sp)) (snd (logical_interval sp)) None = Inr (Some f)"
        using check_span_Inr(6) [OF c True] by blast
      have "sch \<noteq> None" if "(a, b, sch) \<in> set rs" for a b sch
        using schemas [OF that] True by (auto simp: list_all_iff)
      then have "\<forall>(a, b, sch) \<in> set rs. sch \<noteq> None" by blast
      from span_fingerprint_none [OF f this] show ?thesis
        by (intro exI [of _ "Some f"]) (simp add: leaf_intervals_def rs)
    qed
  qed
qed

lemma pack_ok_valid:
  assumes "pack_ok parse H p"
  shows "pk_leaf_start p < pk_leaf_end p" "pk_leaf_end p \<le> pk_total_leaf_count p"
    "length (pk_leaf_descriptors p) = unat (pk_leaf_end p) - unat (pk_leaf_start p)"
    "sum_list (map (\<lambda>d. unat (pd_logical_count d)) (pk_leaf_descriptors p)) = unat (pk_logical_count p)"
    "verify_range_proof H (unat (pk_total_leaf_count p)) (unat (pk_leaf_start p)) (unat (pk_leaf_end p))
      (map pd_logical_leaf_hash (pk_leaf_descriptors p)) (pk_range_proof p) = Inr (pk_range_root p)"
    "validate_object_spans (pk_object_spans p) (pk_leaf_descriptors p) (pk_logical_count p) (pk_physical_byte_count p) = Inr ()"
    "list_all (descriptor_ok parse) (pk_leaf_descriptors p)"
proof -
  have v: "validate_pack H (pk_leaf_start p) (pk_leaf_end p) (pk_total_leaf_count p) (pk_range_root p) (pk_range_proof p)
      (pk_object_spans p) (pk_leaf_descriptors p) (pk_logical_count p) (pk_physical_byte_count p) = Inr ()"
    and d: "list_all (descriptor_ok parse) (pk_leaf_descriptors p)"
    using assms by (simp_all add: pack_ok_def)
  note v = validate_pack_Inr [OF v]
  show "pk_leaf_start p < pk_leaf_end p" by (rule v(1))
  show "pk_leaf_end p \<le> pk_total_leaf_count p" by (rule v(2))
  show "length (pk_leaf_descriptors p) = unat (pk_leaf_end p) - unat (pk_leaf_start p)" by (rule v(4))
  show "sum_list (map (\<lambda>d. unat (pd_logical_count d)) (pk_leaf_descriptors p)) = unat (pk_logical_count p)" by (rule v(5))
  show "verify_range_proof H (unat (pk_total_leaf_count p)) (unat (pk_leaf_start p)) (unat (pk_leaf_end p))
      (map pd_logical_leaf_hash (pk_leaf_descriptors p)) (pk_range_proof p) = Inr (pk_range_root p)" by (rule v(6))
  show "validate_object_spans (pk_object_spans p) (pk_leaf_descriptors p) (pk_logical_count p) (pk_physical_byte_count p) = Inr ()"
    by (rule v(7))
  show "list_all (descriptor_ok parse) (pk_leaf_descriptors p)" by (rule d)
qed

lemma pack_leaf_intervals:
  assumes "pack_ok parse H p"
  shows "tiles 0 (unat (pk_logical_count p)) (map (\<lambda>(a, b, sch). (a, b)) (leaf_intervals (pk_leaf_descriptors p)))"
proof -
  obtain rs where rs: "leaf_ranges 0 (pk_leaf_descriptors p) = Inr rs"
    using validate_spans_wf(3) [OF pack_ok_valid(6) [OF assms]] by blast
  have "\<forall>d \<in> set (pk_leaf_descriptors p). pd_logical_count d \<noteq> 0"
    using pack_ok_valid(7) [OF assms] by (auto simp: list_all_iff descriptor_ok_def)
  with leaf_ranges_tile [OF rs] pack_ok_valid(4) [OF assms] show ?thesis
    by (simp add: leaf_intervals_def rs case_prod_unfold)
qed

lemma verify_full_range:
  assumes "verify_range_proof H n 0 n leaves pf = Inr r"
  shows "r = subtree_hash H leaves" "length leaves = n"
proof -
  have v: "length leaves = n" "fold_node H 0 n 0 n 0 leaves (rp_nodes pf) = Inr (r, [])" "0 < n"
    using assms by (auto simp: verify_range_proof_def)
  then show "length leaves = n" by simp
  show "r = subtree_hash H leaves"
    using v(1,3) v(2) [unfolded fold_node.simps [of H 0 n]] by (auto simp: Let_def slice_def)
qed

lemma full_range_verifies:
  assumes "length leaves = n" and "0 < n"
  shows "verify_range_proof H n 0 n leaves \<lparr>rp_nodes = []\<rparr> = Inr (subtree_hash H leaves)"
proof -
  have "expected_positions n 0 n = []"
    using assms(2) by (simp add: expected_positions_def collect_positions.simps)
  moreover have "fold_node H 0 n 0 n 0 leaves [] = Inr (subtree_hash H leaves, [])"
    using assms by (subst fold_node.simps) (simp add: slice_def)
  ultimately show ?thesis
    using assms by (simp add: verify_range_proof_def validate_range_proof_shape_def)
qed

section \<open>Packs against manifests\<close>

lemma verify_pack_Inr:
  assumes "verify_pack_against_manifest H mh m p leaves = Inr u"
  shows "pk_series_hash p = mh" "pk_total_leaf_count p = sm_leaf_count m"
    "list_all (\<lambda>d. (pd_schema_fingerprint d \<noteq> None) = (sm_payload_kind m = Table)) (pk_leaf_descriptors p)"
    "length leaves = unat (pk_leaf_end p - pk_leaf_start p)"
    "list_all (\<lambda>(d, h). pd_logical_leaf_hash d = h) (zip (pk_leaf_descriptors p) leaves)"
    "verify_range_proof H (unat (pk_total_leaf_count p)) (unat (pk_leaf_start p)) (unat (pk_leaf_end p)) leaves (pk_range_proof p) =
      Inr (sm_leaf_merkle_root m)" "pk_range_root p = sm_leaf_merkle_root m"
proof -
  obtain fps where fps: "res_map (effective_leaf_schema_fingerprint m p) (pk_leaf_descriptors p) = Inr fps"
    using assms by (auto simp: verify_pack_against_manifest_def)
  have "(pd_schema_fingerprint d \<noteq> None) = (sm_payload_kind m = Table)"
    if "effective_leaf_schema_fingerprint m p d = Inr fp" for d fp
    using that by (cases "sm_payload_kind m"; cases "pd_schema_fingerprint d")
      (auto simp: effective_leaf_schema_fingerprint_def)
  with fps show "list_all (\<lambda>d. (pd_schema_fingerprint d \<noteq> None) = (sm_payload_kind m = Table)) (pk_leaf_descriptors p)"
    unfolding res_map_Inr_iff by (auto simp: list_all_length list_all2_conv_all_nth)
qed (use assms in \<open>auto simp: verify_pack_against_manifest_def\<close>)

lemma res_map_fingerprints:
  assumes "list_all (\<lambda>d. (pd_schema_fingerprint d \<noteq> None) = (sm_payload_kind m = Table)) ds"
  shows "\<exists>fps. res_map (effective_leaf_schema_fingerprint m p) ds = Inr fps"
  using assms
proof (induction ds)
  case (Cons d ds)
  then obtain fps where "res_map (effective_leaf_schema_fingerprint m p) ds = Inr fps" by auto
  moreover have "effective_leaf_schema_fingerprint m p d = Inr (pd_schema_fingerprint d)"
    using Cons.prems by (cases "sm_payload_kind m"; cases "pd_schema_fingerprint d")
      (auto simp: effective_leaf_schema_fingerprint_def)
  ultimately show ?case by simp
qed simp

lemma verify_pack_leaves:
  assumes "pack_ok parse H p" and "verify_pack_against_manifest H mh m p leaves = Inr u"
  shows "leaves = map pd_logical_leaf_hash (pk_leaf_descriptors p)"
proof -
  have "length leaves = length (pk_leaf_descriptors p)"
    using verify_pack_Inr(4) [OF assms(2)] pack_ok_valid(1,3) [OF assms(1)]
    by (simp add: unat_sub word_less_nat_alt word_le_nat_alt)
  then show ?thesis
    using verify_pack_Inr(5) [OF assms(2)] by (auto simp: list_all_length list_eq_iff_nth_eq)
qed

text \<open>The manifest a complete pack implies.\<close>

definition implied_manifest ::
    "(rstring \<Rightarrow> error + json) \<Rightarrow> (bytes \<Rightarrow> hash32) \<Rightarrow> payload_kind \<Rightarrow> pack_index \<Rightarrow> error + series_manifest" where
  "implied_manifest parse H kind p =
    (let ds = pk_leaf_descriptors p in
     res_bind (from_leaves H (map pd_logical_leaf_hash ds)) (\<lambda>f.
       manifest_new parse H kind (pk_logical_count p) (of_nat (length ds))
         (fold_bound min_i64 None (map pd_min_event_time ds)) (fold_bound max_i64 None (map pd_max_event_time ds))
         (pd_logical_attributes (last ds)) f))"

lemma complete_pack_iff:
  assumes p: "pack_ok parse H p" and m: "manifest_ok parse H m"
  shows "verify_complete_pack_against_manifest H mh m p = Inr () \<longleftrightarrow>
    pk_series_hash p = mh \<and> pk_parent_series_hash p = None \<and> pk_leaf_start p = 0 \<and>
    pk_leaf_end p = pk_total_leaf_count p \<and>
    list_all (\<lambda>d. (pd_schema_fingerprint d \<noteq> None) = (sm_payload_kind m = Table)) (pk_leaf_descriptors p) \<and>
    implied_manifest parse H (sm_payload_kind m) p = Inr m"
    (is "?v \<longleftrightarrow> ?r")
proof -
  let ?ds = "pk_leaf_descriptors p"
  let ?hs = "map pd_logical_leaf_hash ?ds"
  have ne: "?ds \<noteq> []"
    using pack_ok_valid(1,3) [OF p] by (auto simp: word_less_nat_alt)
  have att: "(case rev ?ds of [] \<Rightarrow> None | d # _ \<Rightarrow> pd_logical_attributes d) = pd_logical_attributes (last ?ds)"
    using ne by (cases ?ds rule: rev_cases) auto
  have len: "length ?ds \<le> u64_max"
    using pack_ok_valid(3) [OF p] unat_u64_le [of "pk_leaf_end p"] by linarith
  obtain f where f: "from_leaves H ?hs = Inr f" "represents H f ?hs"
    using extended_represents [OF represents_empty, of ?hs H] len by (auto simp: from_leaves_def)
  have lc: "leaf_count f = length ?ds"
    using represents_frontier_ok [OF f(2)] by simp
  have d: "descriptor_ok parse (last ?ds)"
    using pack_ok_valid(7) [OF p] ne by (auto simp: list_all_iff)
  have zero: "pk_logical_count p \<noteq> 0"
  proof -
    have "unat (pd_logical_count (last ?ds)) \<in> set (map (\<lambda>d. unat (pd_logical_count d)) ?ds)"
      using ne by auto
    then have "unat (pd_logical_count (last ?ds)) \<le> unat (pk_logical_count p)"
      unfolding pack_ok_valid(4) [OF p, symmetric] by (rule member_le_sum_list) simp
    then show ?thesis
      using d by (auto simp: descriptor_ok_def unat_eq_zero)
  qed
  show ?thesis
  proof
    assume ?v
    then have v: "pk_leaf_end p = pk_total_leaf_count p" "pk_parent_series_hash p = None" "pk_leaf_start p = 0"
        "pk_leaf_end p = sm_leaf_count m" "verify_pack_against_manifest H mh m p ?hs = Inr ()"
        "pk_logical_count p = sm_logical_count m" "fold_bound min_i64 None (map pd_min_event_time ?ds) = sm_min_event_time m"
        "fold_bound max_i64 None (map pd_max_event_time ?ds) = sm_max_event_time m"
        "pd_logical_attributes (last ?ds) = sm_logical_attributes m" "f = sm_merkle_frontier m"
      unfolding verify_complete_pack_against_manifest_def validate_series_segment_def Let_def att by (auto simp: f(1))
    have n: "of_nat (length ?ds) = sm_leaf_count m"
      using pack_ok_valid(3) [OF p] v(3,4) by simp
    have "implied_manifest parse H (sm_payload_kind m) p = Inr m"
      using m v n unfolding implied_manifest_def Let_def f(1)
      by (simp add: manifest_new_def validate_manifest_def validate_attributes_iff manifest_ok_def)
    with v verify_pack_Inr(1,3) [OF v(5)] show ?r by blast
  next
    assume r: ?r
    then have mm: "m = \<lparr>sm_payload_kind = sm_payload_kind m, sm_logical_count = pk_logical_count p, sm_leaf_count = of_nat (length ?ds),
        sm_min_event_time = fold_bound min_i64 None (map pd_min_event_time ?ds),
        sm_max_event_time = fold_bound max_i64 None (map pd_max_event_time ?ds),
        sm_logical_attributes = pd_logical_attributes (last ?ds), sm_leaf_merkle_root = frontier_root H f, sm_merkle_frontier = f\<rparr>"
      by (auto simp: implied_manifest_def Let_def f(1) manifest_new_def)
    have n: "sm_leaf_count m = pk_total_leaf_count p"
      using r pack_ok_valid(3) [OF p] by (subst mm) simp
    have full: "verify_range_proof H (unat (pk_total_leaf_count p)) 0 (unat (pk_total_leaf_count p)) ?hs (pk_range_proof p) = Inr (pk_range_root p)"
      using pack_ok_valid(5) [OF p] r by simp
    have root: "pk_range_root p = sm_leaf_merkle_root m"
      using verify_full_range(1) [OF full] represents_root [OF f(2)] by (subst mm) simp
    obtain fps where "res_map (effective_leaf_schema_fingerprint m p) ?ds = Inr fps"
      using r res_map_fingerprints by blast
    moreover have "list_all (\<lambda>(d, h). pd_logical_leaf_hash d = h) (zip ?ds ?hs)"
      by (simp add: list_all_length)
    ultimately have "verify_pack_against_manifest H mh m p ?hs = Inr ()"
      using r n full root verify_full_range(2) [OF full] by (simp add: verify_pack_against_manifest_def)
    moreover have "pk_logical_count p = sm_logical_count m" "fold_bound min_i64 None (map pd_min_event_time ?ds) = sm_min_event_time m"
        "fold_bound max_i64 None (map pd_max_event_time ?ds) = sm_max_event_time m"
        "pd_logical_attributes (last ?ds) = sm_logical_attributes m" "f = sm_merkle_frontier m"
      by (subst mm, simp)+
    ultimately show ?v
      using r n f(1) unfolding verify_complete_pack_against_manifest_def validate_series_segment_def Let_def att by simp
  qed
qed

section \<open>An example pack\<close>

definition ex_descriptor :: "byte \<Rightarrow> u64 \<Rightarrow> pack_leaf_descriptor" where
  "ex_descriptor b n = \<lparr>pd_logical_leaf_hash = digest b, pd_logical_count = n, pd_schema_fingerprint = None,
     pd_min_event_time = Some n, pd_max_event_time = None, pd_logical_attributes = None\<rparr>"

definition ex_span :: "byte \<Rightarrow> u64 \<Rightarrow> u64 \<Rightarrow> pack_object_span" where
  "ex_span b s e = \<lparr>os_object_hash = digest b, os_logical_start = s, os_logical_end = e, os_physical_start = s, os_physical_end = e\<rparr>"

definition ex_pack :: pack_index where
  "ex_pack = \<lparr>pk_series_hash = digest 9, pk_parent_series_hash = None, pk_leaf_start = 0, pk_leaf_end = 2,
     pk_total_leaf_count = 2, pk_range_root = subtree_hash toy_hash [digest 1, digest 2], pk_range_proof = \<lparr>rp_nodes = []\<rparr>,
     pk_object_spans = [ex_span 5 0 2, ex_span 6 2 7], pk_physical_object_hashes = [digest 5, digest 6],
     pk_logical_count = 7, pk_physical_byte_count = 7, pk_leaf_descriptors = [ex_descriptor 1 3, ex_descriptor 2 4]\<rparr>"

lemma ex_pack_ok: "pack_ok parse toy_hash ex_pack"
proof -
  have v: "verify_range_proof toy_hash 2 0 2 [digest 1, digest 2] \<lparr>rp_nodes = []\<rparr> = Inr (subtree_hash toy_hash [digest 1, digest 2])"
    by (rule full_range_verifies) simp_all
  have e: "expected_positions 2 0 2 = []"
    by (simp add: expected_positions_def collect_positions.simps)
  have sp: "validate_object_spans [ex_span 5 0 2, ex_span 6 2 7] [ex_descriptor 1 3, ex_descriptor 2 4] 7 7 = Inr ()"
    by (simp add: validate_object_spans_def check_span_def ex_span_def ex_descriptor_def Let_def)
  show ?thesis
    unfolding pack_ok_def
    by (simp add: ex_pack_def validate_pack_def sp, simp add: ex_descriptor_def ex_span_def descriptor_ok_def
        attributes_ok_def span_ok_def validate_range_proof_shape_def e v)
qed

definition ex_manifest :: series_manifest where
  "ex_manifest = (case implied_manifest toy_parse toy_hash File ex_pack of Inr m \<Rightarrow> m)"

lemma ex_manifest:
  "implied_manifest toy_parse toy_hash File ex_pack = Inr ex_manifest" "manifest_ok toy_parse toy_hash ex_manifest"
  "sm_payload_kind ex_manifest = File" "sm_leaf_merkle_root ex_manifest = subtree_hash toy_hash [digest 1, digest 2]"
  "sm_leaf_count ex_manifest = 2"
proof -
  obtain f where f: "from_leaves toy_hash [digest 1, digest 2] = Inr f" "represents toy_hash f [digest 1, digest 2]"
    using extended_represents [OF represents_empty, of "[digest 1, digest 2]" toy_hash] by (auto simp: from_leaves_def)
  have m: "implied_manifest toy_parse toy_hash File ex_pack = Inr \<lparr>sm_payload_kind = File, sm_logical_count = 7,
      sm_leaf_count = 2, sm_min_event_time = Some 3, sm_max_event_time = None, sm_logical_attributes = None,
      sm_leaf_merkle_root = subtree_hash toy_hash [digest 1, digest 2], sm_merkle_frontier = f\<rparr>"
    using represents_frontier_ok [OF f(2)] represents_root [OF f(2)]
    by (simp add: implied_manifest_def ex_pack_def ex_descriptor_def f(1) manifest_new_def validate_manifest_def
        validate_attributes_def min_i64_def)
  then show "implied_manifest toy_parse toy_hash File ex_pack = Inr ex_manifest" "sm_payload_kind ex_manifest = File"
    "sm_leaf_merkle_root ex_manifest = subtree_hash toy_hash [digest 1, digest 2]" "sm_leaf_count ex_manifest = 2"
    by (simp_all add: ex_manifest_def)
  show "manifest_ok toy_parse toy_hash ex_manifest"
    using m represents_frontier_ok [OF f(2)] represents_root [OF f(2)]
    by (simp add: ex_manifest_def manifest_ok_def attributes_ok_def)
qed

section \<open>Properties\<close>


text \<open>C24: in a valid pack every unit of the logical stream lies in exactly one object span and in
  exactly one leaf, every byte of the physical stream in exactly one object span, a span never
  meets leaves of different schemas, spans of a file pack are as long logically as physically, and
  a repeated object always has the same length. No interval endpoint overflows.\<close>

theorem pack_spans_tile:
  assumes "pack_ok parse blake3 p"
  shows "spans_wf (pk_object_spans p) (pk_leaf_descriptors p) (unat (pk_logical_count p)) (unat (pk_physical_byte_count p)) \<and>
    (\<forall>u < unat (pk_logical_count p).
      (\<exists>!i. i < length (pk_object_spans p) \<and> unat (os_logical_start (pk_object_spans p ! i)) \<le> u \<and>
        u < unat (os_logical_end (pk_object_spans p ! i))) \<and>
      (\<exists>!i. i < length (leaf_intervals (pk_leaf_descriptors p)) \<and> fst (leaf_intervals (pk_leaf_descriptors p) ! i) \<le> u \<and>
        u < fst (snd (leaf_intervals (pk_leaf_descriptors p) ! i)))) \<and>
    (\<forall>u < unat (pk_physical_byte_count p).
      \<exists>!i. i < length (pk_object_spans p) \<and> unat (os_physical_start (pk_object_spans p ! i)) \<le> u \<and>
        u < unat (os_physical_end (pk_object_spans p ! i))) \<and>
    (\<forall>sp \<in> set (pk_object_spans p). \<exists>fp. \<forall>(a, b, sch) \<in> set (leaf_intervals (pk_leaf_descriptors p)).
      meets (a, b) (logical_interval sp) \<longrightarrow> sch = fp)"
proof -
  let ?sp = "pk_object_spans p" and ?iv = "leaf_intervals (pk_leaf_descriptors p)"
  note wf = validate_spans_wf [OF pack_ok_valid(6) [OF assms]]
  have t: "tiles 0 (unat (pk_logical_count p)) (map logical_interval ?sp)"
      "tiles 0 (unat (pk_physical_byte_count p)) (map physical_interval ?sp)"
    using wf(1) by (simp_all add: spans_wf_def)
  have cover: "\<exists>!i. i < length xs \<and> fst (f (xs ! i)) \<le> u \<and> u < snd (f (xs ! i))"
    if "tiles 0 n (map f xs)" "u < n" for n u f and xs :: "'x list"
  proof -
    have "(i < length (map f xs) \<and> fst (map f xs ! i) \<le> u \<and> u < snd (map f xs ! i)) =
        (i < length xs \<and> fst (f (xs ! i)) \<le> u \<and> u < snd (f (xs ! i)))" for i
      by auto
    with tiles_cover [OF that(1) _ that(2)] show ?thesis by simp
  qed
  have 1: "\<exists>!i. i < length ?sp \<and> unat (os_logical_start (?sp ! i)) \<le> u \<and> u < unat (os_logical_end (?sp ! i))"
    if "u < unat (pk_logical_count p)" for u
    using cover [OF t(1) that] by simp
  have 2: "\<exists>!i. i < length ?iv \<and> fst (?iv ! i) \<le> u \<and> u < fst (snd (?iv ! i))" if "u < unat (pk_logical_count p)" for u
    using cover [OF pack_leaf_intervals [OF assms] that] by (simp add: case_prod_unfold)
  have 3: "\<exists>!i. i < length ?sp \<and> unat (os_physical_start (?sp ! i)) \<le> u \<and> u < unat (os_physical_end (?sp ! i))"
    if "u < unat (pk_physical_byte_count p)" for u
    using cover [OF t(2) that] by simp
  show ?thesis
    by (intro conjI allI impI wf(1) wf(2) 1 2 3)
qed

theorem pack_spans_tile_witness:
  "\<exists>!i. i < length (pk_object_spans ex_pack) \<and> unat (os_logical_start (pk_object_spans ex_pack ! i)) \<le> 2 \<and>
     2 < unat (os_logical_end (pk_object_spans ex_pack ! i))"
proof -
  have "2 < unat (pk_logical_count ex_pack)" by (simp add: ex_pack_def)
  with pack_spans_tile [OF ex_pack_ok [of toy_parse]] show ?thesis by blast
qed

text \<open>C20: a valid pack that verifies against the manifest of a series holds exactly the leaves of
  the series in its range, in its descriptors and in the recomputed hashes, unless two values
  hashed by the series and by the verifier collide.\<close>

theorem verified_pack_sound:
  assumes "pack_ok parse blake3 p" and "verify_pack_against_manifest blake3 mh m p leaves = Inr ()"
    and "sm_leaf_merkle_root m = subtree_hash blake3 xs" and "unat (sm_leaf_count m) = length xs"
    and "inj_on (\<lambda>(l, r). interior_hash blake3 l r) (set (tree_pairs (subtree_hash blake3) xs) \<union>
      set (fold_pairs blake3 0 (length xs) (unat (pk_leaf_start p)) (unat (pk_leaf_end p)) (unat (pk_leaf_start p)) leaves
        (rp_nodes (pk_range_proof p))))"
    and "inj_on (leaf_node_hash blake3) (set xs \<union> set leaves)"
  shows "leaves = slice xs (unat (pk_leaf_start p)) (unat (pk_leaf_end p)) \<and>
    map pd_logical_leaf_hash (pk_leaf_descriptors p) = leaves \<and> pk_series_hash p = mh"
proof -
  note v = verify_pack_Inr [OF assms(2)]
  have "verify_range_proof blake3 (length xs) (unat (pk_leaf_start p)) (unat (pk_leaf_end p)) leaves (pk_range_proof p) =
      Inr (subtree_hash blake3 xs)"
    using v(2,6) assms(3,4) by simp
  from verify_range_sound [OF this assms(5,6)] verify_pack_leaves [OF assms(1,2)] v(1) show ?thesis
    by simp
qed



lemma ex_pack_verifies:
  "verify_pack_against_manifest toy_hash (digest 9) ex_manifest ex_pack [digest 1, digest 2] = Inr ()"
proof -
  have "verify_complete_pack_against_manifest toy_hash (digest 9) ex_manifest ex_pack = Inr ()"
    unfolding complete_pack_iff [OF ex_pack_ok ex_manifest(2)] ex_manifest(3) ex_manifest(1)
    by (simp add: ex_pack_def ex_descriptor_def)
  then have "verify_pack_against_manifest toy_hash (digest 9) ex_manifest ex_pack
      (map pd_logical_leaf_hash (pk_leaf_descriptors ex_pack)) = Inr ()"
    by (auto simp: verify_complete_pack_against_manifest_def Let_def)
  then show ?thesis
    by (simp add: ex_pack_def ex_descriptor_def)
qed

theorem verified_pack_sound_witness:
  "map pd_logical_leaf_hash (pk_leaf_descriptors ex_pack) = slice [digest 1, digest 2] 0 2"
proof -
  let ?xs = "[digest 1, digest 2]"
  have p: "pow2_below 2 = 1"
    using pow2_below_unique [of 0 2] by simp
  have ends: "unat (pk_leaf_start ex_pack) = 0" "unat (pk_leaf_end ex_pack) = 2" "rp_nodes (pk_range_proof ex_pack) = []"
    by (simp_all add: ex_pack_def)
  have t: "set (tree_pairs (subtree_hash toy_hash) ?xs) = {(leaf_node_hash toy_hash (digest 1), leaf_node_hash toy_hash (digest 2))}"
    by (simp add: tree_pairs.simps p series.mth_single Let_def numeral_2_eq_2 [symmetric])
  have q: "set (fold_pairs toy_hash 0 2 0 2 0 ?xs []) = set (tree_pairs (subtree_hash toy_hash) ?xs)"
    by (simp add: fold_pairs.simps slice_def)
  have i: "inj_on (\<lambda>(l, r). interior_hash toy_hash l r) (set (tree_pairs (subtree_hash toy_hash) ?xs) \<union>
      set (fold_pairs toy_hash 0 (length ?xs) (unat (pk_leaf_start ex_pack)) (unat (pk_leaf_end ex_pack))
        (unat (pk_leaf_start ex_pack)) ?xs (rp_nodes (pk_range_proof ex_pack))))"
    unfolding ends using q t by (simp add: numeral_2_eq_2)
  have j: "inj_on (leaf_node_hash toy_hash) (set ?xs \<union> set ?xs)"
    by (auto simp: inj_on_def leaf_node_hash_def toy_hash_def)
  have "unat (sm_leaf_count ex_manifest) = length ?xs"
    by (simp add: ex_manifest(5))
  from verified_pack_sound [OF ex_pack_ok ex_pack_verifies ex_manifest(4) this i j] show ?thesis
    by (simp add: ends)
qed

end
