(* ===== verification/PackCover.thy ===== *)
theory PackCover
  imports SeriesPackCorrect
begin

text \<open>
  The exact-cover selection of \<open>content/series_pack.rs\<close>: a dynamic program over the end points of
  the candidate packs that returns the hashes of a minimal exact cover of the series. Counts are
  \<open>u32\<close>, as natural numbers with the overflow of \<open>suffix_count + 1\<close> as a panic. The final loop that
  follows the recorded choices is a \<open>partial_function\<close>: not returning would be \<open>None\<close>.
\<close>

section \<open>The selection\<close>

type_synonym candidate = "hash32 \<times> pack_index"
type_synonym interval = "u64 \<times> u64 \<times> hash32"
type_synonym edge = "nat \<times> hash32"
type_synonym tables = "nat option list \<times> edge option list"

definition check_candidate :: "(bytes \<Rightarrow> hash32) \<Rightarrow> hash32 \<Rightarrow> u64 \<Rightarrow> candidate \<Rightarrow> error + interval" where
  "check_candidate blake3 mh tot c =
    (let h = fst c; p = snd c in
     res_bind (pack_hash blake3 p) (\<lambda>ph.
     res_bind (require (h = ph) (Reject ''candidate pack key does not match its encoded content hash'')) (\<lambda>_.
     res_bind (require (pk_series_hash p = mh) (Reject ''candidate pack declares another series_hash'')) (\<lambda>_.
     res_bind (require (pk_total_leaf_count p = tot) (Reject ''candidate pack declares another total_leaf_count'')) (\<lambda>_.
     res_bind (require (\<not> (pk_leaf_end p \<le> pk_leaf_start p \<or> tot < pk_leaf_end p)) (Reject ''candidate pack has an invalid range'')) (\<lambda>_.
       Inr (pk_leaf_start p, pk_leaf_end p, h)))))))"

definition cover_points :: "u64 \<Rightarrow> interval list \<Rightarrow> u64 list" where
  "cover_points tot ivs = remdups_adj (sort (0 # tot # concat (map (\<lambda>(s, e, h). [s, e]) ivs)))"

fun index_of :: "u64 list \<Rightarrow> u64 \<Rightarrow> nat option" where
  "index_of [] p = None"
| "index_of (x # xs) p = (if x = p then Some 0 else map_option Suc (index_of xs p))"

fun add_edges :: "u64 list \<Rightarrow> interval list \<Rightarrow> edge list list \<Rightarrow> error + edge list list" where
  "add_edges pts [] out = Inr out"
| "add_edges pts ((s, e, h) # ivs) out =
    (case (index_of pts s, index_of pts e) of
       (Some from_idx, Some to_idx) \<Rightarrow> add_edges pts ivs (out[from_idx := out ! from_idx @ [(to_idx, h)]])
     | _ \<Rightarrow> Inl (Panic ''no entry found for key''))"

definition better :: "nat option \<Rightarrow> edge option \<Rightarrow> nat \<Rightarrow> hash32 \<Rightarrow> error + bool" where
  "better best choice n h =
    (case best of
       None \<Rightarrow> Inr True
     | Some existing \<Rightarrow>
         if n < existing then Inr True
         else if n = existing then
           (case choice of Some (_, current_hash) \<Rightarrow> Inr (h < current_hash)
            | None \<Rightarrow> Inl (Panic ''count implies a recorded choice''))
         else Inr False)"

definition relax :: "nat \<Rightarrow> tables \<Rightarrow> edge \<Rightarrow> error + tables" where
  "relax i t e =
    (let best = fst t; choice = snd t; to_idx = fst e; h = snd e in
     case best ! to_idx of
       None \<Rightarrow> Inr t
     | Some suffix_count \<Rightarrow>
         res_bind (require (suffix_count + 1 \<le> u32_max) (Panic ''attempt to add with overflow'')) (\<lambda>_.
         res_bind (better (best ! i) (choice ! i) (suffix_count + 1) h) (\<lambda>b.
           Inr (if b then (best[i := Some (suffix_count + 1)], choice[i := Some (to_idx, h)]) else t))))"

definition fill_tables :: "edge list list \<Rightarrow> nat \<Rightarrow> nat \<Rightarrow> tables \<Rightarrow> error + tables" where
  "fill_tables out start_idx end_idx t =
    res_fold (\<lambda>t i. res_fold (relax i) t (out ! i)) t (rev [start_idx..<end_idx])"

partial_function (option) follow :: "edge option list \<Rightarrow> nat \<Rightarrow> nat \<Rightarrow> hash32 list \<Rightarrow> (error + hash32 list) option" where
  "follow choice end_idx current result =
    (if current = end_idx then Some (Inr result)
     else case choice ! current of
       None \<Rightarrow> Some (Inl (Panic ''reachable point has a selected transition''))
     | Some e \<Rightarrow> follow choice end_idx (fst e) (result @ [snd e]))"

definition select_exact_cover ::
    "(bytes \<Rightarrow> hash32) \<Rightarrow> hash32 \<Rightarrow> u64 \<Rightarrow> candidate list \<Rightarrow> (error + hash32 list) option" where
  "select_exact_cover blake3 mh tot candidates =
    (if tot = 0 then Some (Inr []) else
     case res_map (check_candidate blake3 mh tot) candidates of
       Inl e \<Rightarrow> Some (Inl e)
     | Inr ivs \<Rightarrow>
         (let pts = cover_points tot ivs in
          case index_of pts 0 of
            None \<Rightarrow> Some (Inl (Reject ''no candidate pack covers leaf 0''))
          | Some start_idx \<Rightarrow>
         (case index_of pts tot of
            None \<Rightarrow> Some (Inl (Reject ''no candidate pack ends exactly at total_leaf_count''))
          | Some end_idx \<Rightarrow>
         (case add_edges pts ivs (replicate (length pts) []) of
            Inl e \<Rightarrow> Some (Inl e)
          | Inr out \<Rightarrow>
         (case fill_tables (map (sort_key snd) out) start_idx end_idx
             ((replicate (length pts) None)[end_idx := Some 0], replicate (length pts) None) of
            Inl e \<Rightarrow> Some (Inl e)
          | Inr (best, choice) \<Rightarrow>
              if best ! start_idx = None then Some (Inl (Reject ''no exact cover exists''))
              else follow choice end_idx start_idx [])))))"

section \<open>Paths through the points\<close>

text \<open>A path from a point to the end along edges, and the order the selection minimises.\<close>

fun path_to :: "edge list list \<Rightarrow> nat \<Rightarrow> nat \<Rightarrow> edge list \<Rightarrow> bool" where
  "path_to out n i [] \<longleftrightarrow> i = n"
| "path_to out n i (e # es) \<longleftrightarrow> i \<noteq> n \<and> e \<in> set (out ! i) \<and> path_to out n (fst e) es"

definition shortlex_le :: "hash32 list \<Rightarrow> hash32 list \<Rightarrow> bool" where
  "shortlex_le a b \<longleftrightarrow> length a < length b \<or> length a = length b \<and> a \<le> b"

text \<open>What the tables say about one point: the count and the choice are optimal among its edges.\<close>

definition edge_le :: "nat \<times> hash32 \<Rightarrow> nat \<times> hash32 \<Rightarrow> bool" where
  "edge_le x y \<longleftrightarrow> fst x < fst y \<or> fst x = fst y \<and> snd x \<le> snd y"

definition local_opt :: "edge list \<Rightarrow> nat option list \<Rightarrow> nat option \<Rightarrow> edge option \<Rightarrow> bool" where
  "local_opt es best b c \<longleftrightarrow>
    (case b of
       None \<Rightarrow> c = None \<and> (\<forall>e \<in> set es. best ! fst e = None)
     | Some n \<Rightarrow> (\<exists>e m. c = Some e \<and> e \<in> set es \<and> best ! fst e = Some m \<and> n = m + 1 \<and>
         (\<forall>e' \<in> set es. \<forall>m'. best ! fst e' = Some m' \<longrightarrow> edge_le (n, snd e) (m' + 1, snd e'))))"

definition tables_ok :: "edge list list \<Rightarrow> nat \<Rightarrow> nat \<Rightarrow> tables \<Rightarrow> bool" where
  "tables_ok out k n t \<longleftrightarrow> length (fst t) = length out \<and> length (snd t) = length out \<and> fst t ! n = Some 0 \<and>
    (\<forall>i. k \<le> i \<and> i < n \<longrightarrow> local_opt (out ! i) (fst t) (fst t ! i) (snd t ! i)) \<and>
    (\<forall>i < k. fst t ! i = None \<and> snd t ! i = None) \<and>
    (\<forall>i. i \<le> n \<longrightarrow> (\<forall>m. fst t ! i = Some m \<longrightarrow> m \<le> n - i))"

lemma relax_step:
  assumes "local_opt es best (best ! i) (choice ! i)" and "fst e \<noteq> i" and "i < length best" and "i < length choice"
    and "\<forall>e \<in> set es. fst e \<noteq> i"
    and "\<forall>m. best ! fst e = Some m \<longrightarrow> m + 1 \<le> u32_max"
  shows "\<exists>b c. relax i (best, choice) e = Inr (best[i := b], choice[i := c]) \<and>
    local_opt (es @ [e]) (best[i := b]) b c"
proof (cases "best ! fst e")
  case None
  have eq: "best[i := best ! i] = best" "choice[i := choice ! i] = choice" by simp_all
  have "relax i (best, choice) e = Inr (best, choice)"
    using None by (simp add: relax_def)
  moreover have "local_opt (es @ [e]) best (best ! i) (choice ! i)"
    using assms(1) None by (auto simp: local_opt_def split: option.splits)
  ultimately show ?thesis
    by (intro exI [of _ "best ! i"] exI [of _ "choice ! i"]) (simp add: eq)
next
  case (Some m)
  have fits: "m + 1 \<le> u32_max" using assms(6) Some by blast
  have keep: "best[i := b] ! fst e' = best ! fst e'" if "e' \<in> set (es @ [e])" for b e'
    using that assms(2,5) by auto
  have new: ?thesis if win: "better (best ! i) (choice ! i) (m + 1) (snd e) = Inr True"
    and least: "\<forall>e' \<in> set es. \<forall>m'. best ! fst e' = Some m' \<longrightarrow> edge_le (m + 1, snd e) (m' + 1, snd e')"
  proof (intro exI [of _ "Some (m + 1)"] exI [of _ "Some e"] conjI)
    show "relax i (best, choice) e = Inr (best[i := Some (m + 1)], choice[i := Some e])"
      using Some fits win by (simp add: relax_def)
    show "local_opt (es @ [e]) (best[i := Some (m + 1)]) (Some (m + 1)) (Some e)"
      unfolding local_opt_def option.case using Some least keep
      by (intro exI [of _ e] exI [of _ m]) (auto simp: edge_le_def)
  qed
  show ?thesis
  proof (cases "best ! i")
    case None
    then have "\<forall>e' \<in> set es. best ! fst e' = None"
      using assms(1) by (simp add: local_opt_def)
    then show ?thesis
      using new None by (simp add: better_def)
  next
    case (Some n)
    note bi = this
    obtain f k where f: "choice ! i = Some f" "f \<in> set es" "best ! fst f = Some k" "n = k + 1"
        "\<forall>e' \<in> set es. \<forall>m'. best ! fst e' = Some m' \<longrightarrow> edge_le (n, snd f) (m' + 1, snd e')"
      using assms(1) bi by (auto simp: local_opt_def)
    show ?thesis
    proof (cases "m + 1 < n \<or> m + 1 = n \<and> snd e < snd f")
      case True
      then have "better (best ! i) (choice ! i) (m + 1) (snd e) = Inr True"
        by (auto simp: better_def bi f(1) split: prod.splits)
      moreover have "edge_le (m + 1, snd e) y" if "edge_le (n, snd f) y" for y
        using that True by (auto simp: edge_le_def)
      ultimately show ?thesis
        using new f(5) by blast
    next
      case False
      then have "better (best ! i) (choice ! i) (m + 1) (snd e) = Inr False"
        by (auto simp: better_def bi f(1) split: prod.splits)
      then have "relax i (best, choice) e = Inr (best, choice)"
        using \<open>best ! fst e = Some m\<close> fits by (simp add: relax_def)
      moreover have "edge_le (n, snd f) (m + 1, snd e)"
        using False by (auto simp: edge_le_def)
      then have "local_opt (es @ [e]) best (best ! i) (choice ! i)"
        unfolding local_opt_def bi option.case using f \<open>best ! fst e = Some m\<close>
        by (intro exI [of _ f] exI [of _ k]) auto
      ultimately show ?thesis
        by (intro exI [of _ "best ! i"] exI [of _ "choice ! i"]) simp
    qed
  qed
qed

lemma relax_edges:
  assumes "local_opt es best (best ! i) (choice ! i)" and "i < length best" and "i < length choice"
    and "\<forall>e \<in> set (es @ es'). fst e \<noteq> i"
    and "\<forall>e \<in> set es'. \<forall>m. best ! fst e = Some m \<longrightarrow> m + 1 \<le> u32_max"
  shows "\<exists>b c. res_fold (relax i) (best, choice) es' = Inr (best[i := b], choice[i := c]) \<and>
    local_opt (es @ es') (best[i := b]) b c"
  using assms
proof (induction es' arbitrary: es best choice)
  case Nil
  then show ?case
    by (intro exI [of _ "best ! i"] exI [of _ "choice ! i"]) simp
next
  case (Cons e es')
  have ne: "fst e \<noteq> i" "\<forall>e \<in> set es. fst e \<noteq> i" "\<forall>e \<in> set es'. fst e \<noteq> i"
    using Cons.prems(4) by auto
  obtain b c where bc: "relax i (best, choice) e = Inr (best[i := b], choice[i := c])"
      "local_opt (es @ [e]) (best[i := b]) b c"
    using relax_step [OF Cons.prems(1) ne(1) Cons.prems(2,3) ne(2)] Cons.prems(5) by auto
  have "\<exists>b' c'. res_fold (relax i) (best[i := b], choice[i := c]) es' =
      Inr (best[i := b, i := b'], choice[i := c, i := c']) \<and>
    local_opt ((es @ [e]) @ es') (best[i := b, i := b']) b' c'"
  proof (rule Cons.IH)
    show "local_opt (es @ [e]) (best[i := b]) (best[i := b] ! i) (choice[i := c] ! i)"
      using bc(2) Cons.prems(2,3) by simp
    show "\<forall>f \<in> set es'. \<forall>m. best[i := b] ! fst f = Some m \<longrightarrow> m + 1 \<le> u32_max"
    proof
      fix f assume f: "f \<in> set es'"
      then have "best[i := b] ! fst f = best ! fst f" using ne(3) by auto
      then show "\<forall>m. best[i := b] ! fst f = Some m \<longrightarrow> m + 1 \<le> u32_max"
        using Cons.prems(5) f by simp
    qed
  qed (use Cons.prems ne in auto)
  then show ?case
    using bc(1) by simp
qed

lemma local_opt_cong:
  assumes "\<forall>e \<in> set es. best ! fst e = best' ! fst e"
  shows "local_opt es best b c = local_opt es best' b c"
proof (cases b)
  case None
  then show ?thesis using assms by (simp add: local_opt_def)
next
  case (Some n)
  have "(e \<in> set es \<and> best ! fst e = Some m) = (e \<in> set es \<and> best' ! fst e = Some m)" for e m
    using assms by auto
  then show ?thesis
    unfolding local_opt_def Some option.case using assms by (intro ex_cong1) (auto 0 3)
qed

lemma res_fold_append:
  "res_fold f st (xs @ ys) = res_bind (res_fold f st xs) (\<lambda>st. res_fold f st ys)"
proof (induction xs arbitrary: st)
  case (Cons x xs)
  then show ?case by (cases "f st x") simp_all
qed simp

definition edges_forward :: "edge list list \<Rightarrow> nat \<Rightarrow> bool" where
  "edges_forward out n \<longleftrightarrow> n < length out \<and> (\<forall>i < n. \<forall>e \<in> set (out ! i). i < fst e \<and> fst e \<le> n)"

lemma fill_step:
  assumes ok: "tables_ok out (Suc k) n t" and fwd: "edges_forward out n" and "k < n" and "n \<le> u32_max"
  shows "\<exists>t'. res_fold (relax k) t (out ! k) = Inr t' \<and> tables_ok out k n t'"
proof -
  obtain best choice where t: "t = (best, choice)" by (cases t)
  note T = ok [unfolded tables_ok_def t fst_conv snd_conv]
  have e: "k < fst e \<and> fst e \<le> n" if "e \<in> set (out ! k)" for e
    using that fwd \<open>k < n\<close> by (auto simp: edges_forward_def)
  have len: "k < length best" "k < length choice"
    using T fwd \<open>k < n\<close> by (auto simp: edges_forward_def)
  have cnt: "m + 1 \<le> n - k" if "e \<in> set (out ! k)" "best ! fst e = Some m" for e m
  proof -
    have "m \<le> n - fst e" using T e [OF that(1)] that(2) by blast
    then show ?thesis using e [OF that(1)] by linarith
  qed
  have "\<exists>b c. res_fold (relax k) (best, choice) (out ! k) = Inr (best[k := b], choice[k := c]) \<and>
    local_opt ([] @ out ! k) (best[k := b]) b c"
  proof (rule relax_edges)
    show "local_opt [] best (best ! k) (choice ! k)"
      using T by (simp add: local_opt_def)
    show "\<forall>e \<in> set ([] @ out ! k). fst e \<noteq> k"
      using e by fastforce
    show "\<forall>e \<in> set (out ! k). \<forall>m. best ! fst e = Some m \<longrightarrow> m + 1 \<le> u32_max"
    proof (intro ballI allI impI)
      fix e m
      assume "e \<in> set (out ! k)" "best ! fst e = Some m"
      from cnt [OF this] \<open>n \<le> u32_max\<close> show "m + 1 \<le> u32_max" by linarith
    qed
  qed (use len in auto)
  then obtain b c where bc: "res_fold (relax k) (best, choice) (out ! k) = Inr (best[k := b], choice[k := c])"
      "local_opt (out ! k) (best[k := b]) b c"
    by auto
  have keep: "best[k := b] ! fst e = best ! fst e" if "e \<in> set (out ! k)" for e
    using e [OF that] by simp
  have "tables_ok out k n (best[k := b], choice[k := c])"
    unfolding tables_ok_def fst_conv snd_conv
  proof (intro conjI allI impI)
    fix i
    assume i: "k \<le> i \<and> i < n"
    show "local_opt (out ! i) (best[k := b]) (best[k := b] ! i) (choice[k := c] ! i)"
    proof (cases "i = k")
      case True
      then show ?thesis using bc(2) len by simp
    next
      case False
      have "\<forall>e \<in> set (out ! i). best[k := b] ! fst e = best ! fst e"
      proof
        fix e assume "e \<in> set (out ! i)"
        then have "i < fst e" using fwd i by (auto simp: edges_forward_def)
        then show "best[k := b] ! fst e = best ! fst e" using i by simp
      qed
      from local_opt_cong [OF this] have "local_opt (out ! i) (best[k := b]) (best ! i) (choice ! i)"
        using T i False by simp
      then show ?thesis using False by simp
    qed
  next
    fix i m
    assume i: "i \<le> n" and m: "best[k := b] ! i = Some m"
    show "m \<le> n - i"
    proof (cases "i = k")
      case True
      then have "b = Some m" using m len by simp
      then obtain e m' where "e \<in> set (out ! k)" "best[k := b] ! fst e = Some m'" "m = m' + 1"
        using bc(2) by (auto simp: local_opt_def)
      then show ?thesis using cnt keep True by auto
    next
      case False
      then show ?thesis using T i m by simp
    qed
  qed (use T \<open>k < n\<close> in auto)
  then show ?thesis
    using bc(1) t by blast
qed

lemma fill_tables_ok:
  assumes "k \<le> n" and "tables_ok out n n t" and "edges_forward out n" and "n \<le> u32_max"
  shows "\<exists>t'. fill_tables out k n t = Inr t' \<and> tables_ok out k n t'"
  using assms(1)
proof (induction k rule: inc_induct)
  case base
  then show ?case using assms(2) by (simp add: fill_tables_def)
next
  case (step k)
  then obtain t' where t': "fill_tables out (Suc k) n t = Inr t'" "tables_ok out (Suc k) n t'" by blast
  obtain t'' where "res_fold (relax k) t' (out ! k) = Inr t''" "tables_ok out k n t''"
    using fill_step [OF t'(2) assms(3) _ assms(4)] step by blast
  moreover have "rev [k..<n] = rev [Suc k..<n] @ [k]"
    using step by (simp add: upt_conv_Cons)
  ultimately show ?case
    using t'(1) by (simp add: fill_tables_def res_fold_append)
qed

section \<open>The tables are optimal\<close>

definition edges_determined :: "edge list list \<Rightarrow> nat \<Rightarrow> bool" where
  "edges_determined out n \<longleftrightarrow> (\<forall>i < n. \<forall>e \<in> set (out ! i). \<forall>e' \<in> set (out ! i). snd e = snd e' \<longrightarrow> e = e')"

lemma tables_optimal:
  assumes ok: "tables_ok out k n t" and fwd: "edges_forward out n" and det: "edges_determined out n"
    and "k \<le> i" and "i \<le> n"
  shows "case fst t ! i of
      None \<Rightarrow> \<not> (\<exists>es. path_to out n i es)
    | Some m \<Rightarrow> \<exists>es. path_to out n i es \<and> length es = m \<and>
        (\<forall>acc. follow (snd t) n i acc = Some (Inr (acc @ map snd es))) \<and>
        (\<forall>es'. path_to out n i es' \<longrightarrow> shortlex_le (map snd es) (map snd es'))"
  using assms(4,5)
proof (induction "n - i" arbitrary: i rule: less_induct)
  case less
  show ?case
  proof (cases "i = n")
    case True
    have "fst t ! n = Some 0" using ok by (simp add: tables_ok_def)
    moreover have "path_to out n n es \<longleftrightarrow> es = []" for es by (cases es) auto
    ultimately show ?thesis
      using True by (simp add: follow.simps shortlex_le_def)
  next
    case False
    then have "i < n" using less.prems by simp
    have lo: "local_opt (out ! i) (fst t) (fst t ! i) (snd t ! i)"
      using ok less.prems \<open>i < n\<close> by (simp add: tables_ok_def)
    have fw: "i < fst e \<and> fst e \<le> n" if "e \<in> set (out ! i)" for e
      using fwd that \<open>i < n\<close> by (auto simp: edges_forward_def)
    have IH: "case fst t ! fst e of
        None \<Rightarrow> \<not> (\<exists>es. path_to out n (fst e) es)
      | Some m \<Rightarrow> \<exists>es. path_to out n (fst e) es \<and> length es = m \<and>
          (\<forall>acc. follow (snd t) n (fst e) acc = Some (Inr (acc @ map snd es))) \<and>
          (\<forall>es'. path_to out n (fst e) es' \<longrightarrow> shortlex_le (map snd es) (map snd es'))"
      if "e \<in> set (out ! i)" for e
      using less.hyps [of "fst e"] fw [OF that] less.prems by auto
    show ?thesis
    proof (cases "fst t ! i")
      case None
      have "\<not> path_to out n i es" for es
      proof (cases es)
        case (Cons e es')
        show ?thesis
        proof
          assume "path_to out n i es"
          then have e: "e \<in> set (out ! i)" "path_to out n (fst e) es'" using Cons by auto
          then have "fst t ! fst e = None" using lo None by (simp add: local_opt_def)
          then show False using IH [OF e(1)] e(2) by auto
        qed
      qed (use False in simp)
      then show ?thesis using None by simp
    next
      case (Some m)
      obtain e m' where e: "snd t ! i = Some e" "e \<in> set (out ! i)" "fst t ! fst e = Some m'" "m = m' + 1"
          "\<forall>f \<in> set (out ! i). \<forall>q. fst t ! fst f = Some q \<longrightarrow> edge_le (m, snd e) (q + 1, snd f)"
        using lo Some by (auto simp: local_opt_def)
      obtain es where es: "path_to out n (fst e) es" "length es = m'"
          "\<forall>acc. follow (snd t) n (fst e) acc = Some (Inr (acc @ map snd es))"
          "\<forall>es'. path_to out n (fst e) es' \<longrightarrow> shortlex_le (map snd es) (map snd es')"
        using IH [OF e(2)] e(3) by auto
      have "shortlex_le (map snd (e # es)) (map snd fs)" if "path_to out n i fs" for fs
      proof (cases fs)
        case (Cons f fs')
        then have f: "f \<in> set (out ! i)" "path_to out n (fst f) fs'" using that by auto
        obtain q where q: "fst t ! fst f = Some q"
          using IH [OF f(1)] f(2) by (cases "fst t ! fst f") auto
        then have "q \<le> length fs'"
          using IH [OF f(1)] f(2) by (auto simp: shortlex_le_def)
        moreover have "edge_le (m, snd e) (q + 1, snd f)" using e(5) f(1) q by blast
        moreover have "shortlex_le (map snd es) (map snd fs')" if "snd e = snd f"
        proof -
          have "e = f" using det \<open>i < n\<close> e(2) f(1) that by (auto simp: edges_determined_def)
          then show ?thesis using es(4) f(2) by blast
        qed
        ultimately show ?thesis
          using es(2) e(4) Cons by (auto simp: shortlex_le_def edge_le_def less_le)
      qed (use that False in simp)
      moreover have "follow (snd t) n i acc = Some (Inr (acc @ map snd (e # es)))" for acc
        using False e(1) es(3) by (simp add: follow.simps [of _ _ i])
      moreover have "path_to out n i (e # es)" "length (e # es) = m"
        using False e es by simp_all
      ultimately show ?thesis
        unfolding Some option.case by blast
    qed
  qed
qed

section \<open>Points and edges of the candidates\<close>

lemma sorted_dedup: "sorted xs \<Longrightarrow> sorted_wrt (<) (remdups_adj xs)" for xs :: "'a::linorder list"
  by (induction xs rule: remdups_adj.induct) (auto simp: less_le)

lemma cover_points:
  "sorted_wrt (<) (cover_points tot ivs)" "0 \<in> set (cover_points tot ivs)" "tot \<in> set (cover_points tot ivs)"
  "(s, e, h) \<in> set ivs \<Longrightarrow> s \<in> set (cover_points tot ivs) \<and> e \<in> set (cover_points tot ivs)"
  "length (cover_points tot ivs) \<le> 2 * length ivs + 2"
proof -
  have "length (concat (map (\<lambda>(s, e, h). [s, e]) ivs)) = 2 * length ivs"
    by (induction ivs) auto
  then show "length (cover_points tot ivs) \<le> 2 * length ivs + 2"
    unfolding cover_points_def
    using remdups_adj_length [of "sort (0 # tot # concat (map (\<lambda>(s, e, h). [s, e]) ivs))"] by simp
  show "sorted_wrt (<) (cover_points tot ivs)"
    unfolding cover_points_def by (rule sorted_dedup [OF sorted_sort])
qed (auto simp: cover_points_def set_insort_key)

lemma index_of_Some:
  "sorted_wrt (<) pts \<Longrightarrow> index_of pts p = Some i \<longleftrightarrow> i < length pts \<and> pts ! i = p"
proof (induction pts arbitrary: i)
  case (Cons x pts)
  then show ?case
    by (cases i) (auto simp: dest: nth_mem)
qed simp

lemma index_of_None: "index_of pts p = None \<longleftrightarrow> p \<notin> set pts"
  by (induction pts) auto

text \<open>The adjacency lists, with each list sorted by hash.\<close>

lemma add_edges:
  assumes "\<forall>(s, e, h) \<in> set ivs. s \<in> set pts \<and> e \<in> set pts" and "length out = length pts" and "sorted_wrt (<) pts"
  shows "\<exists>out'. add_edges pts ivs out = Inr out' \<and> length out' = length pts \<and>
    (\<forall>i < length pts. \<forall>j h. (j, h) \<in> set (out' ! i) \<longleftrightarrow> (j, h) \<in> set (out ! i) \<or>
      j < length pts \<and> (pts ! i, pts ! j, h) \<in> set ivs)"
  using assms(1,2)
proof (induction ivs arbitrary: out)
  case (Cons iv ivs)
  obtain s e h where iv: "iv = (s, e, h)" by (cases iv)
  obtain f t where ft: "index_of pts s = Some f" "index_of pts e = Some t"
    using Cons.prems(1) iv index_of_None [of pts s] index_of_None [of pts e] by auto
  then have f: "f < length pts" "pts ! f = s" "t < length pts" "pts ! t = e"
    using index_of_Some [OF assms(3)] by auto
  have uniq: "pts ! i = s \<longleftrightarrow> i = f" "pts ! i = e \<longleftrightarrow> i = t" if "i < length pts" for i
    using that f index_of_Some [OF assms(3), of s i] index_of_Some [OF assms(3), of e i] ft by auto
  obtain out' where out': "add_edges pts ivs (out[f := out ! f @ [(t, h)]]) = Inr out'" "length out' = length pts"
      "\<forall>i < length pts. \<forall>j h'. (j, h') \<in> set (out' ! i) \<longleftrightarrow> (j, h') \<in> set (out[f := out ! f @ [(t, h)]] ! i) \<or>
        j < length pts \<and> (pts ! i, pts ! j, h') \<in> set ivs"
    using Cons.IH [of "out[f := out ! f @ [(t, h)]]"] Cons.prems by auto
  have "(j, h') \<in> set (out' ! i) \<longleftrightarrow> (j, h') \<in> set (out ! i) \<or>
      j < length pts \<and> (pts ! i, pts ! j, h') \<in> set (iv # ivs)" if i: "i < length pts" for i j h'
    using out'(3) i f Cons.prems(2) uniq(1) [OF i] uniq(2) [of j] unfolding iv
    by (cases "i = f") auto
  then show ?case
    using out'(1,2) iv ft by auto
qed simp

section \<open>Exact covers\<close>

definition candidate_range :: "candidate \<Rightarrow> nat \<times> nat" where
  "candidate_range c = (unat (pk_leaf_start (snd c)), unat (pk_leaf_end (snd c)))"

definition exact_cover :: "u64 \<Rightarrow> candidate list \<Rightarrow> candidate list \<Rightarrow> bool" where
  "exact_cover tot candidates cs \<longleftrightarrow> set cs \<subseteq> set candidates \<and> tiles 0 (unat tot) (map candidate_range cs)"

definition best_cover :: "u64 \<Rightarrow> candidate list \<Rightarrow> hash32 list \<Rightarrow> bool" where
  "best_cover tot candidates hs \<longleftrightarrow> (\<exists>cs. exact_cover tot candidates cs \<and> hs = map fst cs \<and>
    (\<forall>cs'. exact_cover tot candidates cs' \<longrightarrow> shortlex_le hs (map fst cs')))"

definition candidate_ok :: "(bytes \<Rightarrow> hash32) \<Rightarrow> hash32 \<Rightarrow> u64 \<Rightarrow> candidate \<Rightarrow> bool" where
  "candidate_ok blake3 mh tot c \<longleftrightarrow> pack_hash blake3 (snd c) = Inr (fst c) \<and> pk_series_hash (snd c) = mh \<and>
    pk_total_leaf_count (snd c) = tot \<and> pk_leaf_start (snd c) < pk_leaf_end (snd c) \<and> pk_leaf_end (snd c) \<le> tot"

definition candidate_interval :: "candidate \<Rightarrow> interval" where
  "candidate_interval c = (pk_leaf_start (snd c), pk_leaf_end (snd c), fst c)"

lemma check_candidate_iff:
  "check_candidate blake3 mh tot c = Inr iv \<longleftrightarrow> candidate_ok blake3 mh tot c \<and> iv = candidate_interval c"
  by (cases "pack_hash blake3 (snd c)")
    (auto simp: check_candidate_def candidate_ok_def candidate_interval_def Let_def require_def)

lemma check_candidates:
  "res_map (check_candidate blake3 mh tot) cs = Inr ivs \<longleftrightarrow>
    (\<forall>c \<in> set cs. candidate_ok blake3 mh tot c) \<and> ivs = map candidate_interval cs"
  unfolding res_map_Inr_iff check_candidate_iff
  by (induction cs arbitrary: ivs) (simp_all add: list_all2_Cons1 del: split_paired_Ex split_paired_All, blast)

text \<open>
  The graph built from accepted candidates: paths from a point are the tilings from that point.
\<close>

definition cover_graph :: "u64 \<Rightarrow> candidate list \<Rightarrow> u64 list \<Rightarrow> edge list list \<Rightarrow> nat \<Rightarrow> bool" where
  "cover_graph tot cands pts out n \<longleftrightarrow> sorted_wrt (<) pts \<and> length out = length pts \<and> n < length pts \<and> pts ! n = tot \<and>
    (\<forall>c \<in> set cands. pk_leaf_start (snd c) < pk_leaf_end (snd c) \<and> pk_leaf_end (snd c) \<le> tot \<and>
       pk_leaf_start (snd c) \<in> set pts \<and> pk_leaf_end (snd c) \<in> set pts) \<and>
    (\<forall>i < length pts. \<forall>j h. (j, h) \<in> set (out ! i) \<longleftrightarrow> j < length pts \<and>
      (\<exists>c \<in> set cands. fst c = h \<and> pk_leaf_start (snd c) = pts ! i \<and> pk_leaf_end (snd c) = pts ! j))"

lemma cover_graphD:
  assumes "cover_graph tot cands pts out n"
  shows "sorted_wrt (<) pts" "length out = length pts" "n < length pts" "pts ! n = tot"
    "c \<in> set cands \<Longrightarrow> pk_leaf_start (snd c) < pk_leaf_end (snd c) \<and> pk_leaf_end (snd c) \<le> tot"
    "c \<in> set cands \<Longrightarrow> pk_leaf_start (snd c) \<in> set pts \<and> pk_leaf_end (snd c) \<in> set pts"
    "i < length pts \<Longrightarrow> (j, h) \<in> set (out ! i) \<longleftrightarrow>
      j < length pts \<and> (\<exists>c \<in> set cands. fst c = h \<and> pk_leaf_start (snd c) = pts ! i \<and> pk_leaf_end (snd c) = pts ! j)"
  using assms unfolding cover_graph_def by blast+

lemma points_less:
  "sorted_wrt (<) pts \<Longrightarrow> i < length pts \<Longrightarrow> j < length pts \<Longrightarrow> pts ! i < pts ! j \<longleftrightarrow> i < j" for pts :: "u64 list"
  using sorted_wrt_nth_less [of "(<)" pts] by (metis linorder_neqE_nat order_less_asym)

lemma points_inj:
  "sorted_wrt (<) pts \<Longrightarrow> i < length pts \<Longrightarrow> j < length pts \<Longrightarrow> pts ! i = pts ! j \<longleftrightarrow> i = j" for pts :: "u64 list"
  using points_less by (metis linorder_neqE_nat order_less_irrefl)

lemma cover_graph_forward:
  assumes g: "cover_graph tot cands pts out n"
  shows "edges_forward out n"
  unfolding edges_forward_def
proof (intro conjI allI impI ballI)
  fix i e assume "i < n" "e \<in> set (out ! i)"
  moreover obtain j h where "e = (j, h)" by (cases e)
  ultimately obtain c where c: "c \<in> set cands" "pk_leaf_start (snd c) = pts ! i" "pk_leaf_end (snd c) = pts ! j"
      "j < length pts" "e = (j, h)" "i < length pts"
    using cover_graphD(7) [OF g, of i j h] cover_graphD(3) [OF g] by auto
  show "i < fst e" using cover_graphD(5) [OF g c(1)] c points_less [OF cover_graphD(1) [OF g], of i j] by simp
  show "fst e \<le> n"
    using cover_graphD(5) [OF g c(1)] c points_less [OF cover_graphD(1) [OF g], of n j]
      cover_graphD(3,4) [OF g] by (metis fst_conv leD leI)
qed (use cover_graphD(3,4) [OF g] cover_graphD(2) [OF g] in simp)

lemma cover_graph_determined:
  assumes g: "cover_graph tot cands pts out n"
    and same: "\<And>c c'. c \<in> set cands \<Longrightarrow> c' \<in> set cands \<Longrightarrow> fst c = fst c' \<Longrightarrow> snd c = snd c'"
  shows "edges_determined out n"
  unfolding edges_determined_def
proof (intro allI impI ballI)
  fix i e e' assume i: "i < n" and e: "e \<in> set (out ! i)" "e' \<in> set (out ! i)" and eq: "snd e = snd e'"
  obtain j j' h where jh: "e = (j, h)" "e' = (j', h)" using eq by (cases e, cases e') auto
  have i': "i < length pts" using i cover_graphD(3) [OF g] by simp
  obtain c where c: "c \<in> set cands" "fst c = h" "pk_leaf_end (snd c) = pts ! j" "j < length pts"
    using e(1) cover_graphD(7) [OF g i', of j h] jh by auto
  obtain c' where c': "c' \<in> set cands" "fst c' = h" "pk_leaf_end (snd c') = pts ! j'" "j' < length pts"
    using e(2) cover_graphD(7) [OF g i', of j' h] jh by auto
  have "snd c = snd c'" using same [OF c(1) c'(1)] c(2) c'(2) by simp
  then have "j = j'" using c c' points_inj [OF cover_graphD(1) [OF g]] by metis
  then show "e = e'" using jh by simp
qed

lemma path_tiling:
  "cover_graph tot cands pts out n \<Longrightarrow> i < length pts \<Longrightarrow> path_to out n i es \<Longrightarrow>
    \<exists>cs. set cs \<subseteq> set cands \<and> tiles (unat (pts ! i)) (unat tot) (map candidate_range cs) \<and> map fst cs = map snd es"
proof (induction es arbitrary: i)
  case Nil
  note g = Nil.prems(1)
  show ?case using cover_graphD(4) [OF g] Nil.prems(3) by (intro exI [of _ "[]"]) simp
next
  case (Cons e es)
  note g = Cons.prems(1)
  obtain j h where e: "e = (j, h)" by (cases e)
  obtain c where c: "c \<in> set cands" "fst c = h" "pk_leaf_start (snd c) = pts ! i" "pk_leaf_end (snd c) = pts ! j"
      "j < length pts"
    using Cons.prems cover_graphD(7) [OF g Cons.prems(2), of j h] e by auto
  obtain cs where cs: "set cs \<subseteq> set cands" "tiles (unat (pts ! j)) (unat tot) (map candidate_range cs)"
      "map fst cs = map snd es"
    using Cons.IH [of j] Cons.prems e c(5) by auto
  have "unat (pts ! i) < unat (pts ! j)"
    using cover_graphD(5) [OF g c(1)] c by (simp add: word_less_nat_alt)
  then show ?case
    using c cs e by (intro exI [of _ "c # cs"]) (simp add: candidate_range_def [of c])
qed

lemma tiling_path:
  "cover_graph tot cands pts out n \<Longrightarrow> i < length pts \<Longrightarrow> set cs \<subseteq> set cands \<Longrightarrow> tiles (unat (pts ! i)) (unat tot) (map candidate_range cs) \<Longrightarrow>
    \<exists>es. path_to out n i es \<and> map snd es = map fst cs"
proof (induction cs arbitrary: i)
  case Nil
  note g = Nil.prems(1)
  from Nil.prems have "pts ! i = pts ! n" using cover_graphD(4) [OF g] by (simp add: word_unat_eq_iff)
  then have "i = n" using points_inj [OF cover_graphD(1) [OF g]] Nil.prems(2) cover_graphD(3) [OF g] by blast
  then show ?case by (intro exI [of _ "[]"]) simp
next
  case (Cons c cs)
  note g = Cons.prems(1)
  have c: "c \<in> set cands" "pk_leaf_start (snd c) = pts ! i"
    using Cons.prems by (auto simp: candidate_range_def [of c] word_unat_eq_iff)
  obtain j where j: "j < length pts" "pts ! j = pk_leaf_end (snd c)"
    using cover_graphD(6) [OF g c(1)] by (metis in_set_conv_nth)
  obtain es where es: "path_to out n j es" "map snd es = map fst cs"
    using Cons.IH [of j] Cons.prems j by (auto simp: candidate_range_def [of c])
  have "(j, fst c) \<in> set (out ! i)"
    using cover_graphD(7) [OF g Cons.prems(2)] c j by auto
  moreover have "i \<noteq> n"
    using cover_graphD(5) [OF g c(1)] c(2) cover_graphD(4) [OF g] by auto
  ultimately show ?case
    using es by (intro exI [of _ "(j, fst c) # es"]) simp
qed

text \<open>The graph that the function builds from accepted candidates is such a graph.\<close>

lemma cover_graph_built:
  assumes "\<forall>c \<in> set cands. candidate_ok blake3 mh tot c" and "pts = cover_points tot (map candidate_interval cands)"
    and "index_of pts tot = Some n"
  shows "\<exists>out. add_edges pts (map candidate_interval cands) (replicate (length pts) []) = Inr out \<and>
    cover_graph tot cands pts (map (sort_key snd) out) n"
proof -
  note P = cover_points [where tot = tot and ivs = "map candidate_interval cands", folded assms(2)]
  have inp: "pk_leaf_start (snd c) \<in> set pts \<and> pk_leaf_end (snd c) \<in> set pts" if "c \<in> set cands" for c
    using P(4) [of "pk_leaf_start (snd c)" "pk_leaf_end (snd c)" "fst c"] that
    by (auto simp: candidate_interval_def intro!: rev_image_eqI)
  have "\<forall>(s, e, h) \<in> set (map candidate_interval cands). s \<in> set pts \<and> e \<in> set pts"
    using inp by (auto simp: candidate_interval_def)
  from add_edges [OF this _ P(1), of "replicate (length pts) []"]
  obtain out where out: "add_edges pts (map candidate_interval cands) (replicate (length pts) []) = Inr out"
      "length out = length pts"
      "\<forall>i < length pts. \<forall>j h. (j, h) \<in> set (out ! i) \<longleftrightarrow>
        j < length pts \<and> (pts ! i, pts ! j, h) \<in> set (map candidate_interval cands)"
    by auto
  have "((s, e, h) \<in> set (map candidate_interval cands)) =
      (\<exists>c \<in> set cands. fst c = h \<and> pk_leaf_start (snd c) = s \<and> pk_leaf_end (snd c) = e)" for s e h
    by (auto simp: candidate_interval_def)
  then have "cover_graph tot cands pts (map (sort_key snd) out) n"
    unfolding cover_graph_def using P(1) out(2,3) index_of_Some [OF P(1)] assms(1,3) inp
    by (simp add: candidate_ok_def)
  then show ?thesis using out(1) by blast
qed

lemma select_from_graph:
  assumes ok: "\<forall>c \<in> set cands. candidate_ok blake3 mh tot c" and "tot \<noteq> 0"
    and small: "2 * length cands + 1 \<le> u32_max"
  shows "\<exists>pts out s n t. cover_graph tot cands pts out n \<and> s \<le> n \<and> pts ! s = 0 \<and> tables_ok out s n t \<and>
    select_exact_cover blake3 mh tot cands =
      (if fst t ! s = None then Some (Inl (Reject ''no exact cover exists'')) else follow (snd t) n s [])"
proof -
  define pts where "pts = cover_points tot (map candidate_interval cands)"
  note P = cover_points [where tot = tot and ivs = "map candidate_interval cands", folded pts_def]
  obtain s n where sn: "index_of pts 0 = Some s" "index_of pts tot = Some n"
    using P(2,3) index_of_None [of pts 0] index_of_None [of pts tot] by auto
  then have s: "s < length pts" "pts ! s = 0" "n < length pts" "pts ! n = tot"
    using index_of_Some [OF P(1)] by auto
  have "s \<le> n"
    using points_less [OF P(1) s(3,1)] s by (metis leI word_not_simps(1))
  obtain out where out: "add_edges pts (map candidate_interval cands) (replicate (length pts) []) = Inr out"
      "cover_graph tot cands pts (map (sort_key snd) out) n"
    using cover_graph_built [OF ok pts_def sn(2)] by blast
  let ?out = "map (sort_key snd) out"
  let ?t0 = "((replicate (length pts) None)[n := Some 0], replicate (length pts) None) :: tables"
  have "n \<le> u32_max" using s(3) P(5) small by simp
  moreover have "tables_ok ?out n n ?t0"
    using cover_graphD(2,3) [OF out(2)] by (auto simp: tables_ok_def nth_list_update split: if_splits)
  ultimately obtain t where t: "fill_tables ?out s n ?t0 = Inr t" "tables_ok ?out s n t"
    using fill_tables_ok [OF \<open>s \<le> n\<close> _ cover_graph_forward [OF out(2)]] by blast
  have "res_map (check_candidate blake3 mh tot) cands = Inr (map candidate_interval cands)"
    using ok check_candidates by blast
  then have "select_exact_cover blake3 mh tot cands =
      (if fst t ! s = None then Some (Inl (Reject ''no exact cover exists'')) else follow (snd t) n s [])"
    using \<open>tot \<noteq> 0\<close> t(1) unfolding select_exact_cover_def
    by (simp add: sn out(1) Let_def flip: pts_def) (simp split: prod.splits)
  then show ?thesis using out(2) \<open>s \<le> n\<close> s(2) t(2) by blast
qed

lemma select_optimal:
  assumes ok: "\<forall>c \<in> set cands. candidate_ok blake3 mh tot c" and "tot \<noteq> 0"
    and small: "2 * length cands + 1 \<le> u32_max"
    and same: "\<forall>c \<in> set cands. \<forall>c' \<in> set cands. fst c = fst c' \<longrightarrow> snd c = snd c'"
  shows "if \<exists>cs. exact_cover tot cands cs
    then \<exists>hs. select_exact_cover blake3 mh tot cands = Some (Inr hs) \<and> best_cover tot cands hs
    else select_exact_cover blake3 mh tot cands = Some (Inl (Reject ''no exact cover exists''))"
proof -
  obtain pts out s n t where g: "cover_graph tot cands pts out n" and s: "s \<le> n" "pts ! s = 0" "tables_ok out s n t"
      and sel: "select_exact_cover blake3 mh tot cands =
        (if fst t ! s = None then Some (Inl (Reject ''no exact cover exists'')) else follow (snd t) n s [])"
    using select_from_graph [OF ok assms(2) small] by blast
  have det: "edges_determined out n"
    using cover_graph_determined [OF g] same by blast
  have sl: "s < length pts" using s(1) cover_graphD(3) [OF g] by simp
  have to: "\<exists>cs. exact_cover tot cands cs \<and> map fst cs = map snd es" if "path_to out n s es" for es
    using path_tiling [OF g sl that] s(2) by (auto simp: exact_cover_def)
  have from_cover: "\<exists>es. path_to out n s es \<and> map snd es = map fst cs" if "exact_cover tot cands cs" for cs
    using tiling_path [OF g sl, of cs] that s(2) by (simp add: exact_cover_def)
  note opt = tables_optimal [OF s(3) cover_graph_forward [OF g] det order.refl s(1)]
  show ?thesis
  proof (cases "fst t ! s")
    case None
    then have "\<not> (\<exists>cs. exact_cover tot cands cs)"
      using opt from_cover by auto
    then show ?thesis using sel None by simp
  next
    case (Some m)
    then obtain es where es: "path_to out n s es" "follow (snd t) n s [] = Some (Inr (map snd es))"
        "\<forall>es'. path_to out n s es' \<longrightarrow> shortlex_le (map snd es) (map snd es')"
      using opt by auto
    obtain cs where cs: "exact_cover tot cands cs" "map fst cs = map snd es" using to [OF es(1)] by blast
    have "shortlex_le (map snd es) (map fst cs')" if "exact_cover tot cands cs'" for cs'
      using from_cover [OF that] es(3) by metis
    then have "best_cover tot cands (map snd es)"
      unfolding best_cover_def using cs by metis
    then show ?thesis using cs(1) sel Some es(2) by auto
  qed
qed

section \<open>Properties\<close>

text \<open>C19: \<open>select_exact_cover\<close> always returns. An empty series has the empty cover. A candidate that
  does not belong to the series version is an error. Otherwise it finds a cover whenever some of the candidates tile the series exactly, and
  the one it returns has the fewest packs and, among those, the lexicographically least hashes; it
  reports that none exists in exactly the other cases. Candidates are content addressed and few
  enough for the 32-bit counts.\<close>

theorem select_exact_cover_complete:
  assumes "\<forall>c \<in> set cands. \<forall>c' \<in> set cands. fst c = fst c' \<longrightarrow> snd c = snd c'"
    and "2 * length cands + 1 \<le> u32_max"
  shows "if tot = 0 then select_exact_cover blake3 mh tot cands = Some (Inr [])
    else if \<exists>c \<in> set cands. \<not> candidate_ok blake3 mh tot c then \<exists>e. select_exact_cover blake3 mh tot cands = Some (Inl e)
    else if \<exists>cs. exact_cover tot cands cs
      then \<exists>hs. select_exact_cover blake3 mh tot cands = Some (Inr hs) \<and> best_cover tot cands hs
    else select_exact_cover blake3 mh tot cands = Some (Inl (Reject ''no exact cover exists''))"
proof -
  consider "tot = 0" | "tot \<noteq> 0" "\<exists>c \<in> set cands. \<not> candidate_ok blake3 mh tot c"
    | "tot \<noteq> 0" "\<forall>c \<in> set cands. candidate_ok blake3 mh tot c" by blast
  then show ?thesis
  proof cases
    case 1
    then show ?thesis by (simp add: select_exact_cover_def)
  next
    case 2
    then obtain e where "res_map (check_candidate blake3 mh tot) cands = Inl e"
      using check_candidates [of blake3 mh tot cands] by (cases "res_map (check_candidate blake3 mh tot) cands") auto
    then show ?thesis using 2 by (simp add: select_exact_cover_def)
  next
    case 3
    then show ?thesis using select_optimal [OF 3(2,1) assms(2,1)] by simp
  qed
qed

text \<open>Two halves and a whole: the whole pack is the best cover.\<close>

definition ex_piece :: "u64 \<Rightarrow> u64 \<Rightarrow> pack_index" where
  "ex_piece a b = ex_pack\<lparr>pk_leaf_start := a, pk_leaf_end := b, pk_object_spans := [], pk_leaf_descriptors := []\<rparr>"

definition range_hash :: "bytes \<Rightarrow> hash32" where
  "range_hash bs = digest (16 * bs ! (length PACK_MAGIC + 33) + bs ! (length PACK_MAGIC + 41))"

definition ex_candidates :: "candidate list" where
  "ex_candidates = [(digest 1, ex_piece 0 1), (digest 18, ex_piece 1 2), (digest 2, ex_piece 0 2)]"

lemma ex_piece_hash:
  "pack_hash range_hash (ex_piece a b) = Inr (digest (16 * of_nat (unat a mod 256) + of_nat (unat b mod 256)))"
proof -
  have le: "le64 w = of_nat (unat w mod 256) # le_nat 7 (unat w div 256)" for w
  proof -
    have "(8 :: nat) = Suc 7" by simp
    then show ?thesis unfolding le64_def by (simp only: le_nat.simps)
  qed
  have "\<exists>rest. encode_pack (ex_piece a b) = Inr (PACK_MAGIC @ replicate 32 9 @ [0] @ le64 a @ le64 b @ rest)"
    by (simp add: encode_pack_def ex_piece_def ex_pack_def push_nested_def push_flagged_def push_len_prefixed_def
        encode_range_proof_def PROOF_MAGIC_def)
  then obtain rest where "encode_pack (ex_piece a b) = Inr (PACK_MAGIC @ replicate 32 9 @ [0] @ le64 a @ le64 b @ rest)" ..
  then show ?thesis
    by (simp add: pack_hash_def range_hash_def nth_append le)
qed

lemma ex_candidates_ok: "\<forall>c \<in> set ex_candidates. candidate_ok range_hash (digest 9) 2 c"
  by (simp add: ex_candidates_def candidate_ok_def ex_piece_hash, simp add: ex_piece_def ex_pack_def)

lemma ex_cover: "exact_cover 2 ex_candidates cs \<and> length cs \<le> 1 \<longleftrightarrow> cs = [(digest 2, ex_piece 0 2)]"
proof (cases cs rule: remdups_adj.cases)
  case (2 c)
  have r: "candidate_range (h, ex_piece a b) = (unat a, unat b)" for h a b
    by (simp add: candidate_range_def ex_piece_def)
  show ?thesis unfolding 2 by (auto simp: exact_cover_def ex_candidates_def r)
qed (auto simp: exact_cover_def)

theorem select_exact_cover_complete_witness:
  "select_exact_cover range_hash (digest 9) 2 ex_candidates = Some (Inr [digest 2])"
proof -
  have "if (2 :: u64) = 0 then select_exact_cover range_hash (digest 9) 2 ex_candidates = Some (Inr [])
    else if \<exists>c \<in> set ex_candidates. \<not> candidate_ok range_hash (digest 9) 2 c
      then \<exists>e. select_exact_cover range_hash (digest 9) 2 ex_candidates = Some (Inl e)
    else if \<exists>cs. exact_cover 2 ex_candidates cs
      then \<exists>hs. select_exact_cover range_hash (digest 9) 2 ex_candidates = Some (Inr hs) \<and> best_cover 2 ex_candidates hs
    else select_exact_cover range_hash (digest 9) 2 ex_candidates = Some (Inl (Reject ''no exact cover exists''))"
    by (rule select_exact_cover_complete) (simp_all add: ex_candidates_def)
  moreover have c: "exact_cover 2 ex_candidates [(digest 2, ex_piece 0 2)]" using ex_cover by blast
  ultimately obtain cs where cs: "select_exact_cover range_hash (digest 9) 2 ex_candidates = Some (Inr (map fst cs))"
      "exact_cover 2 ex_candidates cs" "shortlex_le (map fst cs) (map fst [(digest 2, ex_piece 0 2)])"
    using ex_candidates_ok unfolding best_cover_def by (auto split: if_splits)
  then have "length cs \<le> 1" by (auto simp: shortlex_le_def)
  then have "cs = [(digest 2, ex_piece 0 2)]" using cs(2) ex_cover by blast
  then show ?thesis using cs(1) by simp
qed

end
