(* ===== verification/PackBuilder.thy ===== *)
theory PackBuilder
  imports SeriesPackCorrect
begin

text \<open>
  The pack builder of \<open>content/series_pack_builder.rs\<close>: validated leaf inputs, the binding of the
  supplied leaves to a manifest, the split of a stream of leaves into physical objects, and the
  sealed, self-verified pack. The Parquet writer, the slicing of a record batch and the cast of a
  dictionary column are parameters. The loops that split the input are \<open>partial_function\<close>s or run
  them: not returning is \<open>None\<close>. Running offsets are natural numbers with the overflow of a 64-bit
  addition as a panic.
\<close>

section \<open>Leaf inputs\<close>

record file_leaf_input =
  fl_bytes :: bytes
  fl_descriptor :: pack_leaf_descriptor
  fl_leaf_hash :: hash32

definition file_leaf_new ::
    "(rstring \<Rightarrow> error + json) \<Rightarrow> (bytes \<Rightarrow> hash32) \<Rightarrow> bytes \<Rightarrow> i64 option \<Rightarrow> i64 option \<Rightarrow> bytes option \<Rightarrow> error + file_leaf_input" where
  "file_leaf_new parse blake3 bs mn mx attrs =
    res_bind (validate_attributes parse attrs) (\<lambda>_.
    res_bind (file_leaf_hash_canonical blake3 bs mn mx attrs) (\<lambda>h.
    res_bind (new_with_leaf_hash parse h (of_nat (length bs)) mn mx attrs) (\<lambda>d.
      Inr \<lparr>fl_bytes = bs, fl_descriptor = d, fl_leaf_hash = h\<rparr>)))"

record table_leaf_input =
  tl_schema :: schema
  tl_batches :: "record_batch list"
  tl_descriptor :: pack_leaf_descriptor
  tl_leaf_hash :: hash32
  tl_schema_fingerprint :: hash32

definition table_leaf_new ::
    "(rstring \<Rightarrow> error + json) \<Rightarrow> (bytes \<Rightarrow> hash32) \<Rightarrow> cast_fn \<Rightarrow> schema \<Rightarrow> record_batch list \<Rightarrow> i64 option \<Rightarrow> i64 option \<Rightarrow>
     bytes option \<Rightarrow> error + table_leaf_input" where
  "table_leaf_new parse blake3 cast s batches mn mx attrs =
    res_bind (validate_attributes parse attrs) (\<lambda>_.
    res_bind (schema_fingerprint blake3 s) (\<lambda>fingerprint.
    res_bind (table_leaf_hash_canonical blake3 cast s batches mn mx attrs) (\<lambda>h.
    res_bind (row_total ''table leaf input row count exceeds u64::MAX'' 0 batches) (\<lambda>logical_count.
    res_bind (new_with_leaf_hash parse h (of_nat logical_count) mn mx attrs) (\<lambda>d.
      Inr \<lparr>tl_schema = s, tl_batches = batches, tl_descriptor = d, tl_leaf_hash = h,
           tl_schema_fingerprint = fingerprint\<rparr>)))))"

text \<open>The cap of \<open>FilePackLayout\<close> and \<open>TablePackLayout\<close>.\<close>

definition file_layout_new :: "u64 \<Rightarrow> error + u64" where
  "file_layout_new cap = (if cap = 0 then Inl (Reject ''max_bytes_per_object must be positive'') else Inr cap)"

definition table_layout_new :: "u64 \<Rightarrow> error + u64" where
  "table_layout_new cap = (if cap = 0 then Inl (Reject ''max_rows_per_object must be positive'') else Inr cap)"

section \<open>Binding the input to the manifest\<close>

definition verify_manifest_binding ::
    "(bytes \<Rightarrow> hash32) \<Rightarrow> hash32 \<Rightarrow> series_manifest \<Rightarrow> hash32 list \<Rightarrow> payload_kind \<Rightarrow> error + unit" where
  "verify_manifest_binding blake3 mh m whole kind =
    res_bind (manifest_hash blake3 m) (\<lambda>h.
    res_bind (require (h = mh) (Reject ''supplied manifest_hash does not match the manifest'')) (\<lambda>_.
    res_bind (require (sm_payload_kind m = kind) (Reject ''manifest declares another payload kind'')) (\<lambda>_.
    res_bind (require (length whole \<le> u64_max) (Reject ''whole-series leaf hash list length exceeds u64::MAX'')) (\<lambda>_.
    res_bind (require (length whole = unat (sm_leaf_count m)) (Reject ''whole-series leaf hash list has another length'')) (\<lambda>_.
    res_bind (merkle_root blake3 whole) (\<lambda>computed.
      require (computed = sm_leaf_merkle_root m) (Reject ''whole-series Merkle root does not match the manifest'')))))))"

definition verify_full_range_aggregate :: "series_manifest \<Rightarrow> pack_leaf_descriptor list \<Rightarrow> nat \<Rightarrow> error + unit" where
  "verify_full_range_aggregate m ds logical_count =
    res_bind (require (logical_count = unat (sm_logical_count m)) (Reject ''full-range logical_count does not match the manifest'')) (\<lambda>_.
    res_bind (require (fold_bound min_i64 None (map pd_min_event_time ds) = sm_min_event_time m)
      (Reject ''full-range min_event_time does not match the manifest'')) (\<lambda>_.
      require (fold_bound max_i64 None (map pd_max_event_time ds) = sm_max_event_time m)
        (Reject ''full-range max_event_time does not match the manifest'')))"

fun bind_leaves :: "('l \<Rightarrow> hash32) \<Rightarrow> hash32 list \<Rightarrow> 'l list \<Rightarrow> error + hash32 list" where
  "bind_leaves leaf_hash_of expected [] = Inr []"
| "bind_leaves leaf_hash_of [] (leaf # leaves) = Inl (Panic ''index out of bounds'')"
| "bind_leaves leaf_hash_of (e # expected) (leaf # leaves) =
    res_bind (require (leaf_hash_of leaf = e) (Reject ''recomputed leaf hash does not match the whole-series leaf hash'')) (\<lambda>_.
    res_bind (bind_leaves leaf_hash_of expected leaves) (\<lambda>hs. Inr (leaf_hash_of leaf # hs)))"

definition bind_and_recompute_range ::
    "hash32 list \<Rightarrow> u64 \<Rightarrow> u64 \<Rightarrow> 'l list \<Rightarrow> ('l \<Rightarrow> hash32) \<Rightarrow> error + (u64 \<times> hash32 list)" where
  "bind_and_recompute_range whole leaf_start leaf_len leaves leaf_hash_of =
    (let e = unat leaf_start + unat leaf_len in
     res_bind (require (e \<le> u64_max) (Reject ''pack leaf range overflows u64'')) (\<lambda>_.
     res_bind (require (e \<le> length whole) (Reject ''pack range is out of bounds of the whole-series leaf hash list'')) (\<lambda>_.
     res_bind (bind_leaves leaf_hash_of (slice whole (unat leaf_start) e) leaves) (\<lambda>hs.
       Inr (of_nat e, hs)))))"

fun sum_counts :: "nat \<Rightarrow> u64 list \<Rightarrow> error + nat" where
  "sum_counts acc [] = Inr acc"
| "sum_counts acc (n # ns) =
    (if acc + unat n \<le> u64_max then sum_counts (acc + unat n) ns else Inl (Reject ''pack logical_count overflows u64''))"

text \<open>What both builders do before they split the leaves.\<close>

definition prepare_pack ::
    "(bytes \<Rightarrow> hash32) \<Rightarrow> payload_kind \<Rightarrow> ('l \<Rightarrow> hash32) \<Rightarrow> ('l \<Rightarrow> pack_leaf_descriptor) \<Rightarrow> hash32 \<Rightarrow> series_manifest \<Rightarrow> hash32 list \<Rightarrow> u64 \<Rightarrow>
     'l list \<Rightarrow> error + (u64 \<times> hash32 list \<times> nat)" where
  "prepare_pack blake3 kind leaf_hash_of descriptor_of mh m whole leaf_start leaves =
    res_bind (require (leaves \<noteq> []) (Reject ''a pack must cover at least one logical leaf'')) (\<lambda>_.
    res_bind (verify_manifest_binding blake3 mh m whole kind) (\<lambda>_.
    res_bind (bind_and_recompute_range whole leaf_start (of_nat (length leaves)) leaves leaf_hash_of) (\<lambda>(leaf_end, hs).
    res_bind (sum_counts 0 (map (\<lambda>l. pd_logical_count (descriptor_of l)) leaves)) (\<lambda>logical_count.
    res_bind (if leaf_start = 0 \<and> leaf_end = sm_leaf_count m
        then verify_full_range_aggregate m (map descriptor_of leaves) logical_count else Inr ()) (\<lambda>_.
      Inr (leaf_end, hs, logical_count))))))"

section \<open>Sealing a pack\<close>

record built_object =
  bo_hash :: hash32
  bo_bytes :: bytes
  bo_logical_start :: nat
  bo_logical_end :: nat

record built_pack =
  bp_index :: pack_index
  bp_objects :: "(hash32 \<times> bytes) list"

fun checked_physical_byte_count :: "nat \<Rightarrow> built_object list \<Rightarrow> error + nat" where
  "checked_physical_byte_count tot [] = Inr tot"
| "checked_physical_byte_count tot (b # bs) =
    (if tot + length (bo_bytes b) \<le> u64_max then checked_physical_byte_count (tot + length (bo_bytes b)) bs
     else Inl (Reject ''physical_byte_count overflows u64''))"

fun pack_object_spans :: "nat \<Rightarrow> built_object list \<Rightarrow> error + pack_object_span list" where
  "pack_object_spans physical_start [] = Inr []"
| "pack_object_spans physical_start (b # bs) =
    (let physical_end = physical_start + length (bo_bytes b) in
     res_bind (require (physical_end \<le> u64_max) (Reject ''physical object span overflows u64'')) (\<lambda>_.
     res_bind (span_new (bo_hash b) (of_nat (bo_logical_start b)) (of_nat (bo_logical_end b))
       (of_nat physical_start) (of_nat physical_end)) (\<lambda>sp.
     res_bind (pack_object_spans physical_end bs) (\<lambda>sps. Inr (sp # sps)))))"

definition seal_pack ::
    "(bytes \<Rightarrow> hash32) \<Rightarrow> hash32 \<Rightarrow> series_manifest \<Rightarrow> hash32 list \<Rightarrow> u64 \<Rightarrow> pack_leaf_descriptor list \<Rightarrow> u64 \<times> hash32 list \<times> nat \<Rightarrow>
     built_object list \<Rightarrow> error + built_pack" where
  "seal_pack blake3 mh m whole leaf_start ds prepared objs =
    (let leaf_end = fst prepared; hs = fst (snd prepared); logical_count = snd (snd prepared) in
     res_bind (checked_physical_byte_count 0 objs) (\<lambda>physical_byte_count.
     res_bind (pack_object_spans 0 objs) (\<lambda>spans.
     res_bind (generate_range_proof blake3 whole (unat leaf_start) (unat leaf_end)) (\<lambda>pf.
     res_bind (new_with_spans blake3 mh leaf_start leaf_end (sm_leaf_count m) (sm_leaf_merkle_root m) pf spans
       (of_nat logical_count) (of_nat physical_byte_count) ds) (\<lambda>index.
     res_bind (verify_pack_against_manifest blake3 mh m index hs) (\<lambda>_.
       Inr \<lparr>bp_index = index, bp_objects = map (\<lambda>b. (bo_hash b, bo_bytes b)) objs\<rparr>))))))"

section \<open>File packs\<close>

record file_split =
  fs_objects :: "built_object list"
  fs_current :: bytes
  fs_logical_start :: nat
  fs_logical_cursor :: nat

definition flush_file :: "(bytes \<Rightarrow> hash32) \<Rightarrow> file_split \<Rightarrow> file_split" where
  "flush_file blake3 st = st\<lparr>
     fs_objects := fs_objects st @ [\<lparr>bo_hash = blake3 (fs_current st), bo_bytes = fs_current st,
       bo_logical_start = fs_logical_start st, bo_logical_end = fs_logical_cursor st\<rparr>],
     fs_current := [], fs_logical_start := fs_logical_cursor st\<rparr>"

partial_function (option) pack_bytes ::
    "(bytes \<Rightarrow> hash32) \<Rightarrow> nat \<Rightarrow> bytes \<Rightarrow> file_split \<Rightarrow> (error + file_split) option" where
  "pack_bytes blake3 cap todo st =
    (if todo = [] then Some (Inr st)
     else if cap < length (fs_current st) then Some (Inl (Panic ''attempt to subtract with overflow''))
     else let n = min (cap - length (fs_current st)) (length todo);
              st' = st\<lparr>fs_current := fs_current st @ take n todo,
                       fs_logical_cursor := fs_logical_cursor st + n\<rparr> in
       if u64_max < fs_logical_cursor st' then Some (Inl (Panic ''attempt to add with overflow''))
       else pack_bytes blake3 cap (drop n todo)
         (if length (fs_current st') = cap then flush_file blake3 st' else st'))"

fun pack_file_leaves ::
    "(bytes \<Rightarrow> hash32) \<Rightarrow> nat \<Rightarrow> file_leaf_input list \<Rightarrow> file_split \<Rightarrow> (error + file_split) option" where
  "pack_file_leaves blake3 cap [] st = Some (Inr st)"
| "pack_file_leaves blake3 cap (leaf # leaves) st =
    Option.bind (pack_bytes blake3 cap (fl_bytes leaf) st) (\<lambda>res.
      case res of Inl e \<Rightarrow> Some (Inl e) | Inr st \<Rightarrow> pack_file_leaves blake3 cap leaves st)"

definition build_file_physical_objects ::
    "(bytes \<Rightarrow> hash32) \<Rightarrow> file_leaf_input list \<Rightarrow> nat \<Rightarrow> (error + built_object list) option" where
  "build_file_physical_objects blake3 leaves cap =
    map_option (\<lambda>res. res_bind res (\<lambda>st.
        Inr (fs_objects (if fs_current st = [] then st else flush_file blake3 st))))
      (pack_file_leaves blake3 cap leaves
        \<lparr>fs_objects = [], fs_current = [], fs_logical_start = 0, fs_logical_cursor = 0\<rparr>)"

definition build_file_pack ::
    "(bytes \<Rightarrow> hash32) \<Rightarrow> hash32 \<Rightarrow> series_manifest \<Rightarrow> hash32 list \<Rightarrow> u64 \<Rightarrow> file_leaf_input list \<Rightarrow> u64 \<Rightarrow> (error + built_pack) option" where
  "build_file_pack blake3 mh m whole leaf_start leaves cap =
    (case prepare_pack blake3 File fl_leaf_hash fl_descriptor mh m whole leaf_start leaves of
       Inl e \<Rightarrow> Some (Inl e)
     | Inr prepared \<Rightarrow>
         map_option (\<lambda>res. res_bind res (seal_pack blake3 mh m whole leaf_start (map fl_descriptor leaves) prepared))
           (build_file_physical_objects blake3 leaves (unat cap)))"

section \<open>Table packs\<close>

type_synonym slice_fn = "record_batch \<Rightarrow> nat \<Rightarrow> nat \<Rightarrow> record_batch"
type_synonym parquet_fn = "schema \<Rightarrow> record_batch list \<Rightarrow> error + bytes"

record table_split =
  ts_objects :: "built_object list"
  ts_pieces :: "record_batch list"
  ts_rows :: nat
  ts_logical_start :: nat
  ts_logical_cursor :: nat
  ts_fingerprint :: "hash32 option"
  ts_schema :: "schema option"

definition write_table_object ::
    "(bytes \<Rightarrow> hash32) \<Rightarrow> parquet_fn \<Rightarrow> schema \<Rightarrow> record_batch list \<Rightarrow> error + (hash32 \<times> bytes)" where
  "write_table_object blake3 parquet s pieces = res_bind (parquet s pieces) (\<lambda>bs. Inr (blake3 bs, bs))"

definition flush_table :: "(bytes \<Rightarrow> hash32) \<Rightarrow> parquet_fn \<Rightarrow> table_split \<Rightarrow> error + table_split" where
  "flush_table blake3 parquet st =
    (case ts_schema st of
       None \<Rightarrow> Inl (Panic ''pending table rows always have a schema'')
     | Some s \<Rightarrow> res_bind (write_table_object blake3 parquet s (ts_pieces st)) (\<lambda>(h, bs). Inr (st\<lparr>
         ts_objects := ts_objects st @ [\<lparr>bo_hash = h, bo_bytes = bs, bo_logical_start = ts_logical_start st,
           bo_logical_end = ts_logical_cursor st\<rparr>],
         ts_logical_start := ts_logical_cursor st, ts_pieces := [], ts_rows := 0\<rparr>)))"

partial_function (option) pack_rows ::
    "(bytes \<Rightarrow> hash32) \<Rightarrow> parquet_fn \<Rightarrow> slice_fn \<Rightarrow> nat \<Rightarrow> record_batch \<Rightarrow> nat \<Rightarrow> table_split \<Rightarrow> (error + table_split) option" where
  "pack_rows blake3 parquet slc cap batch offset st =
    (if \<not> offset < num_rows batch then Some (Inr st)
     else if cap < ts_rows st then Some (Inl (Panic ''attempt to subtract with overflow''))
     else let n = min (cap - ts_rows st) (num_rows batch - offset);
              st' = (if 0 < n then st\<lparr>ts_pieces := ts_pieces st @ [slc batch offset n], ts_rows := ts_rows st + n,
                       ts_logical_cursor := ts_logical_cursor st + n\<rparr> else st) in
       if u64_max < ts_logical_cursor st' then Some (Inl (Panic ''attempt to add with overflow''))
       else (case (if ts_rows st' = cap then flush_table blake3 parquet st' else Inr st') of
           Inl e \<Rightarrow> Some (Inl e)
         | Inr st'' \<Rightarrow> pack_rows blake3 parquet slc cap batch (offset + n) st''))"

fun pack_batches ::
    "(bytes \<Rightarrow> hash32) \<Rightarrow> parquet_fn \<Rightarrow> slice_fn \<Rightarrow> nat \<Rightarrow> record_batch list \<Rightarrow> table_split \<Rightarrow> (error + table_split) option" where
  "pack_batches blake3 parquet slc cap [] st = Some (Inr st)"
| "pack_batches blake3 parquet slc cap (b # bs) st =
    Option.bind (pack_rows blake3 parquet slc cap b 0 st) (\<lambda>res.
      case res of Inl e \<Rightarrow> Some (Inl e) | Inr st \<Rightarrow> pack_batches blake3 parquet slc cap bs st)"

definition enter_leaf :: "(bytes \<Rightarrow> hash32) \<Rightarrow> parquet_fn \<Rightarrow> table_leaf_input \<Rightarrow> table_split \<Rightarrow> error + table_split" where
  "enter_leaf blake3 parquet leaf st =
    (if ts_fingerprint st \<noteq> Some (tl_schema_fingerprint leaf) then
       res_bind (if ts_pieces st \<noteq> [] then flush_table blake3 parquet st else Inr st) (\<lambda>st.
         Inr (st\<lparr>ts_fingerprint := Some (tl_schema_fingerprint leaf), ts_schema := Some (tl_schema leaf)\<rparr>))
     else Inr st)"

fun pack_table_leaves ::
    "(bytes \<Rightarrow> hash32) \<Rightarrow> parquet_fn \<Rightarrow> slice_fn \<Rightarrow> nat \<Rightarrow> table_leaf_input list \<Rightarrow> table_split \<Rightarrow> (error + table_split) option" where
  "pack_table_leaves blake3 parquet slc cap [] st = Some (Inr st)"
| "pack_table_leaves blake3 parquet slc cap (leaf # leaves) st =
    (case enter_leaf blake3 parquet leaf st of
       Inl e \<Rightarrow> Some (Inl e)
     | Inr st \<Rightarrow> Option.bind (pack_batches blake3 parquet slc cap (tl_batches leaf) st) (\<lambda>res.
         case res of Inl e \<Rightarrow> Some (Inl e) | Inr st \<Rightarrow> pack_table_leaves blake3 parquet slc cap leaves st))"

definition build_table_physical_objects ::
    "(bytes \<Rightarrow> hash32) \<Rightarrow> parquet_fn \<Rightarrow> slice_fn \<Rightarrow> table_leaf_input list \<Rightarrow> nat \<Rightarrow> (error + built_object list) option" where
  "build_table_physical_objects blake3 parquet slc leaves cap =
    map_option (\<lambda>res. res_bind res (\<lambda>st.
        res_bind (if ts_pieces st \<noteq> [] then flush_table blake3 parquet st else Inr st) (\<lambda>st. Inr (ts_objects st))))
      (pack_table_leaves blake3 parquet slc cap leaves
        \<lparr>ts_objects = [], ts_pieces = [], ts_rows = 0, ts_logical_start = 0, ts_logical_cursor = 0,
         ts_fingerprint = None, ts_schema = None\<rparr>)"

definition build_table_pack ::
    "(bytes \<Rightarrow> hash32) \<Rightarrow> parquet_fn \<Rightarrow> slice_fn \<Rightarrow> hash32 \<Rightarrow> series_manifest \<Rightarrow> hash32 list \<Rightarrow> u64 \<Rightarrow> table_leaf_input list \<Rightarrow> u64 \<Rightarrow>
     (error + built_pack) option" where
  "build_table_pack blake3 parquet slc mh m whole leaf_start leaves cap =
    (let ds = map (\<lambda>l. with_schema_fingerprint (tl_descriptor l) (tl_schema_fingerprint l)) leaves in
     case prepare_pack blake3 Table tl_leaf_hash (\<lambda>l. with_schema_fingerprint (tl_descriptor l) (tl_schema_fingerprint l))
         mh m whole leaf_start leaves of
       Inl e \<Rightarrow> Some (Inl e)
     | Inr prepared \<Rightarrow>
         map_option (\<lambda>res. res_bind res (seal_pack blake3 mh m whole leaf_start ds prepared))
           (build_table_physical_objects blake3 parquet slc leaves (unat cap)))"

end
