(* ===== verification/PackBuilderCorrect.thy ===== *)
theory PackBuilderCorrect
  imports PackBuilder
begin

text \<open>
  Correctness of the pack builder: the objects of a file pack are the byte stream cut at the cap,
  the objects of a table pack hold the rows of the leaves in order and never mix schemas, and a
  built pack is valid and verifies against its manifest.
\<close>

section \<open>Cutting a stream at a cap\<close>

function chunks :: "nat \<Rightarrow> 'a list \<Rightarrow> 'a list list" where
  "chunks cap xs = (if cap = 0 \<or> xs = [] then [] else take cap xs # chunks cap (drop cap xs))"
  by auto
termination
  by (relation "measure (\<lambda>(cap, xs). length xs)") auto

declare chunks.simps [simp del]

lemma chunks_Nil [simp]: "chunks cap [] = []"
  by (simp add: chunks.simps)

lemma chunks_append:
  assumes "0 < cap" and "cap dvd length xs"
  shows "chunks cap (xs @ ys) = chunks cap xs @ chunks cap ys"
  using assms
proof (induction cap xs rule: chunks.induct)
  case (1 cap xs)
  show ?case
  proof (cases "xs = []")
    case False
    then have le: "cap \<le> length xs" using 1(2,3) by (auto dest: dvd_imp_le)
    then have "cap dvd length (drop cap xs)" using 1(3) by simp
    with 1 False have "chunks cap (drop cap xs @ ys) = chunks cap (drop cap xs) @ chunks cap ys" by simp
    then show ?thesis
      using False 1(2) le by (subst (1 2) chunks.simps) simp
  qed simp
qed

lemma chunks_short: "xs \<noteq> [] \<Longrightarrow> length xs \<le> cap \<Longrightarrow> chunks cap xs = [xs]"
  by (subst chunks.simps) (cases cap; auto)

lemma concat_chunks: "0 < cap \<Longrightarrow> concat (chunks cap xs) = xs"
  by (induction cap xs rule: chunks.induct) (subst chunks.simps, simp)

lemma chunks_sizes: "c \<in> set (chunks cap xs) \<Longrightarrow> c \<noteq> [] \<and> length c \<le> cap"
proof (induction cap xs rule: chunks.induct)
  case (1 cap xs)
  from 1(2) [unfolded chunks.simps [of cap xs]] show ?case
    using 1(1) by (auto split: if_splits)
qed

fun objects_from :: "(bytes \<Rightarrow> hash32) \<Rightarrow> nat \<Rightarrow> bytes list \<Rightarrow> built_object list" where
  "objects_from blake3 a [] = []"
| "objects_from blake3 a (c # cs) =
    \<lparr>bo_hash = blake3 c, bo_bytes = c, bo_logical_start = a, bo_logical_end = a + length c\<rparr>
    # objects_from blake3 (a + length c) cs"

lemma objects_from_append:
  "objects_from blake3 a (cs @ ds) = objects_from blake3 a cs @ objects_from blake3 (a + length (concat cs)) ds"
  by (induction cs arbitrary: a) (simp_all add: add.assoc)

section \<open>The file splitter\<close>

text \<open>The state after a number of bytes depends only on these bytes, not on the leaves they came in.\<close>

definition split_state :: "(bytes \<Rightarrow> hash32) \<Rightarrow> nat \<Rightarrow> bytes \<Rightarrow> file_split" where
  "split_state blake3 cap d =
    (let k = length d div cap * cap in
     \<lparr>fs_objects = objects_from blake3 0 (chunks cap (take k d)), fs_current = drop k d,
      fs_logical_start = k, fs_logical_cursor = length d\<rparr>)"

lemma split_state_step:
  assumes "0 < cap" and "length c \<le> cap - length d mod cap"
    and "st = (split_state blake3 cap d)\<lparr>fs_current := fs_current (split_state blake3 cap d) @ c,
      fs_logical_cursor := length d + length c\<rparr>"
  shows "(if length (fs_current st) = cap then flush_file blake3 st else st) = split_state blake3 cap (d @ c)"
proof -
  define k where "k = length d div cap * cap"
  have len: "length (drop k d) = length d mod cap" and kd: "k + length d mod cap = length d"
    by (simp_all add: k_def minus_div_mult_eq_mod)
  have m: "length d mod cap < cap" using assms(1) by simp
  have st: "st = \<lparr>fs_objects = objects_from blake3 0 (chunks cap (take k d)), fs_current = drop k d @ c,
      fs_logical_start = k, fs_logical_cursor = length d + length c\<rparr>"
    by (simp add: assms(3) split_state_def Let_def k_def)
  have cur: "length (fs_current st) = length d mod cap + length c" using len by (simp add: st)
  have tk: "cap dvd length (take k d)" "length (take k d) = k" using kd by (simp_all add: k_def min_absorb2)
  have dc: "take k d @ (drop k d @ c) = d @ c" by (metis append.assoc append_take_drop_id)
  show ?thesis
  proof (cases "length d mod cap + length c = cap")
    case True
    have sum: "length d + length c = k + cap" using True kd by linarith
    have k': "(length d + length c) div cap * cap = length d + length c"
      unfolding sum k_def using assms(1) by simp
    have ne: "drop k d @ c \<noteq> []" "length (drop k d @ c) = cap"
      using True len assms(1) by auto
    have "chunks cap (d @ c) = chunks cap (take k d) @ [drop k d @ c]"
      using chunks_append [OF assms(1) tk(1), of "drop k d @ c"] chunks_short [OF ne(1)] ne(2) unfolding dc by simp
    then have "objects_from blake3 0 (chunks cap (d @ c)) = objects_from blake3 0 (chunks cap (take k d)) @
        [\<lparr>bo_hash = blake3 (drop k d @ c), bo_bytes = drop k d @ c, bo_logical_start = k,
          bo_logical_end = length d + length c\<rparr>]"
      using tk(2) ne(2) unfolding sum by (simp only: objects_from_append concat_chunks [OF assms(1)] objects_from.simps add_0)
    moreover have "split_state blake3 cap (d @ c) = \<lparr>fs_objects = objects_from blake3 0 (chunks cap (d @ c)),
        fs_current = [], fs_logical_start = length d + length c, fs_logical_cursor = length d + length c\<rparr>"
      using k' by (simp add: split_state_def Let_def)
    ultimately show ?thesis
      using True cur by (simp add: st flush_file_def)
  next
    case False
    then have lt: "length d mod cap + length c < cap" using assms(2) m by linarith
    have "(length d + length c) div cap = length d div cap"
    proof (rule div_nat_eqI)
      note mult_div_mod_eq [of cap "length d"]
      then show "cap * (length d div cap) \<le> length d + length c" "length d + length c < cap * Suc (length d div cap)"
        using lt by (simp_all only: mult_Suc_right)
    qed
    then have "split_state blake3 cap (d @ c) = st"
      using kd by (simp add: split_state_def Let_def st k_def)
    then show ?thesis using False cur by simp
  qed
qed

lemma pack_bytes_split:
  assumes "0 < cap" and "length d + length todo \<le> u64_max"
  shows "pack_bytes blake3 cap todo (split_state blake3 cap d) = Some (Inr (split_state blake3 cap (d @ todo)))"
  using assms(2)
proof (induction "length todo" arbitrary: d todo rule: less_induct)
  case less
  show ?case
  proof (cases "todo = []")
    case True
    then show ?thesis by (simp add: pack_bytes.simps)
  next
    case False
    let ?st = "split_state blake3 cap d"
    have cur: "length (fs_current ?st) = length d mod cap" "fs_logical_cursor ?st = length d"
      by (simp_all add: split_state_def Let_def minus_div_mult_eq_mod)
    let ?n = "min (cap - length (fs_current ?st)) (length todo)"
    let ?st' = "?st\<lparr>fs_current := fs_current ?st @ take ?n todo, fs_logical_cursor := fs_logical_cursor ?st + ?n\<rparr>"
    have m: "length d mod cap < cap" using assms(1) by simp
    have n: "0 < ?n" "?n \<le> length todo" using False m cur by simp_all
    have st': "(if length (fs_current ?st') = cap then flush_file blake3 ?st' else ?st') = split_state blake3 cap (d @ take ?n todo)"
      by (rule split_state_step [OF assms(1)]) (use cur n in simp_all)
    have "pack_bytes blake3 cap (drop ?n todo) (split_state blake3 cap (d @ take ?n todo)) =
        Some (Inr (split_state blake3 cap ((d @ take ?n todo) @ drop ?n todo)))"
      by (rule less.hyps) (use n less.prems in simp_all)
    moreover have "pack_bytes blake3 cap todo ?st = pack_bytes blake3 cap (drop ?n todo)
        (if length (fs_current ?st') = cap then flush_file blake3 ?st' else ?st')"
    proof -
      have "(todo = []) = False" "(cap < length (fs_current ?st)) = False" "(u64_max < fs_logical_cursor ?st') = False"
        using False m cur n(2) less.prems by simp_all
      then show ?thesis
        unfolding pack_bytes.simps [of blake3 cap todo] Let_def by (simp only: if_False)
    qed
    ultimately show ?thesis
      unfolding st' by simp
  qed
qed

lemma pack_file_leaves_split:
  assumes "0 < cap" and "length d + length (concat (map fl_bytes leaves)) \<le> u64_max"
  shows "pack_file_leaves blake3 cap leaves (split_state blake3 cap d) =
    Some (Inr (split_state blake3 cap (d @ concat (map fl_bytes leaves))))"
  using assms(2)
proof (induction leaves arbitrary: d)
  case (Cons leaf leaves)
  then show ?case
    using pack_bytes_split [OF assms(1), of d "fl_bytes leaf" blake3] by simp
qed simp

lemma build_file_physical_objects_eq:
  assumes "0 < cap" and "length (concat (map fl_bytes leaves)) \<le> u64_max"
  shows "build_file_physical_objects blake3 leaves cap =
    Some (Inr (objects_from blake3 0 (chunks cap (concat (map fl_bytes leaves)))))"
proof -
  let ?d = "concat (map fl_bytes leaves)"
  define k where "k = length ?d div cap * cap"
  have init: "\<lparr>fs_objects = [], fs_current = [], fs_logical_start = 0, fs_logical_cursor = 0\<rparr> = split_state blake3 cap []"
    by (simp add: split_state_def)
  have st: "split_state blake3 cap ?d = \<lparr>fs_objects = objects_from blake3 0 (chunks cap (take k ?d)), fs_current = drop k ?d,
      fs_logical_start = k, fs_logical_cursor = length ?d\<rparr>"
    by (simp add: split_state_def Let_def k_def)
  have len: "length (drop k ?d) = length ?d mod cap" and kd: "k + length ?d mod cap = length ?d"
    by (simp_all add: k_def minus_div_mult_eq_mod)
  have tk: "cap dvd length (take k ?d)" "length (take k ?d) = k" using kd by (simp_all add: k_def min_absorb2)
  have "chunks cap ?d = chunks cap (take k ?d) @ chunks cap (drop k ?d)"
    using chunks_append [OF assms(1) tk(1), of "drop k ?d"] by simp
  moreover have "objects_from blake3 k (chunks cap (drop k ?d)) = (if drop k ?d = [] then [] else
      [\<lparr>bo_hash = blake3 (drop k ?d), bo_bytes = drop k ?d, bo_logical_start = k, bo_logical_end = length ?d\<rparr>])"
  proof (cases "drop k ?d = []")
    case False
    have "length (drop k ?d) \<le> cap" unfolding len using assms(1) by (simp add: less_imp_le)
    moreover have "k + length (drop k ?d) = length ?d" unfolding len by (rule kd)
    ultimately show ?thesis
      using False by (simp only: chunks_short [OF False] objects_from.simps if_False)
  qed (simp only: chunks_Nil objects_from.simps if_True simp_thms)
  ultimately have "fs_objects (if fs_current (split_state blake3 cap ?d) = [] then split_state blake3 cap ?d
      else flush_file blake3 (split_state blake3 cap ?d)) = objects_from blake3 0 (chunks cap ?d)"
    by (cases "drop k ?d = []")
      (simp_all add: st flush_file_def objects_from_append concat_chunks [OF assms(1)] tk(2) del: length_take drop_eq_Nil)
  moreover have "pack_file_leaves blake3 cap leaves (split_state blake3 cap []) = Some (Inr (split_state blake3 cap ?d))"
    using pack_file_leaves_split [OF assms(1), of "[]" leaves blake3] assms(2) by simp
  ultimately show ?thesis
    by (simp only: build_file_physical_objects_def init option.map res_bind_simps)
qed

section \<open>Sealing\<close>

lemma sum_counts_iff:
  "a \<le> u64_max \<Longrightarrow> sum_counts a ns = Inr n \<longleftrightarrow> n = a + sum_list (map unat ns) \<and> n \<le> u64_max"
  by (induction ns arbitrary: a) (auto simp: add.assoc)

lemma checked_physical_byte_count_iff:
  "a \<le> u64_max \<Longrightarrow> checked_physical_byte_count a os = Inr n \<longleftrightarrow> n = a + length (concat (map bo_bytes os)) \<and> n \<le> u64_max"
  by (induction os arbitrary: a) (auto simp: add.assoc)

lemma bind_leaves_iff:
  "length leaves \<le> length expected \<Longrightarrow>
    bind_leaves f expected leaves = Inr hs \<longleftrightarrow> hs = map f leaves \<and> hs = take (length leaves) expected"
  by (induction f expected leaves arbitrary: hs rule: bind_leaves.induct) auto

lemma bind_leaves_too_many:
  "length expected < length leaves \<Longrightarrow> bind_leaves f expected leaves \<noteq> Inr hs"
  by (induction f expected leaves arbitrary: hs rule: bind_leaves.induct) auto

text \<open>What the input of a builder must satisfy, whatever the payload kind.\<close>

definition pack_input_ok ::
    "(bytes \<Rightarrow> hash32) \<Rightarrow> payload_kind \<Rightarrow> hash32 \<Rightarrow> series_manifest \<Rightarrow> hash32 list \<Rightarrow> u64 \<Rightarrow> hash32 list \<Rightarrow> pack_leaf_descriptor list \<Rightarrow> bool" where
  "pack_input_ok blake3 kind mh m whole leaf_start hs ds \<longleftrightarrow>
    hs \<noteq> [] \<and> manifest_hash blake3 m = Inr mh \<and> sm_payload_kind m = kind \<and> length whole = unat (sm_leaf_count m) \<and>
    sm_leaf_merkle_root m = subtree_hash blake3 whole \<and>
    unat leaf_start + length hs \<le> length whole \<and> hs = slice whole (unat leaf_start) (unat leaf_start + length hs) \<and>
    sum_list (map (\<lambda>d. unat (pd_logical_count d)) ds) \<le> u64_max \<and>
    (length hs = length whole \<longrightarrow>
       sum_list (map (\<lambda>d. unat (pd_logical_count d)) ds) = unat (sm_logical_count m) \<and>
       fold_bound min_i64 None (map pd_min_event_time ds) = sm_min_event_time m \<and>
       fold_bound max_i64 None (map pd_max_event_time ds) = sm_max_event_time m)"

lemma merkle_root_iff: "merkle_root H xs = Inr r \<longleftrightarrow> length xs \<le> u64_max \<and> r = subtree_hash H xs"
  by (auto simp: merkle_root_reference split: if_splits)

lemma verify_manifest_binding_iff:
  "verify_manifest_binding blake3 mh m whole kind = Inr u \<longleftrightarrow>
    manifest_hash blake3 m = Inr mh \<and> sm_payload_kind m = kind \<and> length whole = unat (sm_leaf_count m) \<and>
    sm_leaf_merkle_root m = subtree_hash blake3 whole"
proof -
  have "unat (sm_leaf_count m) \<le> u64_max" by (rule unat_u64_le)
  then show ?thesis
    by (auto simp: verify_manifest_binding_def merkle_root_iff)
qed

lemma bind_and_recompute_range_iff:
  "bind_and_recompute_range whole ls (of_nat (length leaves)) leaves f = Inr r \<longleftrightarrow>
    length leaves \<le> u64_max \<and> unat ls + length leaves \<le> u64_max \<and> unat ls + length leaves \<le> length whole \<and>
    map f leaves = slice whole (unat ls) (unat ls + length leaves) \<and>
    r = (of_nat (unat ls + length leaves), map f leaves)"
proof -
  let ?n = "unat (of_nat (length leaves) :: u64)"
  let ?e = "unat ls + ?n"
  show ?thesis
  proof (cases "?e \<le> length whole")
    case False
    then have "\<not> (length leaves \<le> u64_max \<and> unat ls + length leaves \<le> length whole)"
      by (auto simp: unat_of_nat)
    then show ?thesis using False by (auto simp: bind_and_recompute_range_def Let_def)
  next
    case True
    have len: "length (slice whole (unat ls) ?e) = ?n" using True by (simp add: length_slice)
    show ?thesis
    proof (cases "length leaves \<le> u64_max")
      case small: True
      then have n: "?n = length leaves" by (simp add: unat_of_nat)
      then show ?thesis
        using True small bind_leaves_iff [of leaves "slice whole (unat ls) ?e" f] len
        by (auto simp: bind_and_recompute_range_def Let_def)
    next
      case False
      then have "?n < length leaves" using unat_u64_le [of "of_nat (length leaves)"] by linarith
      then have "bind_leaves f (slice whole (unat ls) ?e) leaves \<noteq> Inr hs" for hs
        using len bind_leaves_too_many by metis
      then show ?thesis using False by (auto simp: bind_and_recompute_range_def Let_def)
    qed
  qed
qed

lemma prepare_pack_iff:
  "prepare_pack blake3 kind f g mh m whole ls leaves = Inr r \<longleftrightarrow>
    pack_input_ok blake3 kind mh m whole ls (map f leaves) (map g leaves) \<and>
    r = (of_nat (unat ls + length leaves), map f leaves, sum_list (map (\<lambda>l. unat (pd_logical_count (g l))) leaves))"
proof -
  let ?ok = "manifest_hash blake3 m = Inr mh \<and> sm_payload_kind m = kind \<and> length whole = unat (sm_leaf_count m) \<and>
    sm_leaf_merkle_root m = subtree_hash blake3 whole"
  let ?n = "length leaves" and ?s = "sum_list (map (\<lambda>l. unat (pd_logical_count (g l))) leaves)"
  have s: "sum_counts 0 (map (\<lambda>l. pd_logical_count (g l)) leaves) = Inr lc \<longleftrightarrow> lc = ?s \<and> ?s \<le> u64_max" for lc
    by (auto simp: sum_counts_iff comp_def)
  have agg: "verify_full_range_aggregate m ds lc = Inr u \<longleftrightarrow> lc = unat (sm_logical_count m) \<and>
      fold_bound min_i64 None (map pd_min_event_time ds) = sm_min_event_time m \<and>
      fold_bound max_i64 None (map pd_max_event_time ds) = sm_max_event_time m" for ds lc u
    by (auto simp: verify_full_range_aggregate_def)
  have range: "(unat ls + ?n \<le> u64_max \<and> ?n \<le> u64_max) \<and> (ls = 0 \<and> of_nat (unat ls + ?n) = sm_leaf_count m \<longleftrightarrow> ?n = length whole)"
    if "?ok" "unat ls + ?n \<le> length whole"
  proof -
    have "unat ls + ?n \<le> u64_max" using that unat_u64_le [of "sm_leaf_count m"] by linarith
    moreover have "of_nat (unat ls + ?n) = sm_leaf_count m \<longleftrightarrow> unat ls + ?n = length whole"
      using that unat_of_nat_le(2) [OF \<open>unat ls + ?n \<le> u64_max\<close>] by (auto simp: word_unat_eq_iff)
    moreover have "ls = 0 \<longleftrightarrow> unat ls = 0" by (simp add: unat_eq_zero)
    ultimately show ?thesis using that by auto
  qed
  show ?thesis
  proof (cases "?ok \<and> unat ls + ?n \<le> length whole")
    case True
    note R = range [OF conjunct1 [OF True] conjunct2 [OF True]]
    have pick: "(if ls = 0 \<and> of_nat (unat ls + ?n) = sm_leaf_count m then A else B) = (if ?n = length whole then A else B)" for A B :: "error + unit"
      using R by (intro if_cong) auto
    show ?thesis
      unfolding prepare_pack_def pack_input_ok_def
      using True R by (auto simp: verify_manifest_binding_iff bind_and_recompute_range_iff s agg pick comp_def split: if_splits)
  next
    case False
    then show ?thesis
      unfolding prepare_pack_def pack_input_ok_def
      by (auto simp: verify_manifest_binding_iff bind_and_recompute_range_iff)
  qed
qed

lemma pack_object_spans_hashes:
  "pack_object_spans a os = Inr sps \<Longrightarrow> list_all span_ok sps \<and> map os_object_hash sps = map bo_hash os"
proof (induction os arbitrary: a sps)
  case (Cons b os)
  then obtain sp r where "span_new (bo_hash b) (of_nat (bo_logical_start b)) (of_nat (bo_logical_end b)) (of_nat a)
      (of_nat (a + length (bo_bytes b))) = Inr sp" "pack_object_spans (a + length (bo_bytes b)) os = Inr r" "sps = sp # r"
    by (auto simp: Let_def)
  then show ?case using Cons.IH by (auto simp: span_new_iff)
qed simp

lemma seal_pack_sound:
  assumes "seal_pack blake3 mh m whole ls ds (le, hs, lc) os = Inr b" and "list_all (descriptor_ok parse) ds"
  shows "pack_ok parse blake3 (bp_index b)" "verify_pack_against_manifest blake3 mh m (bp_index b) hs = Inr ()"
    "bp_objects b = map (\<lambda>b. (bo_hash b, bo_bytes b)) os" "pk_physical_object_hashes (bp_index b) = map bo_hash os"
    "pk_leaf_descriptors (bp_index b) = ds" "pk_leaf_start (bp_index b) = ls" "pk_leaf_end (bp_index b) = le"
    "pk_series_hash (bp_index b) = mh" "pack_object_spans 0 os = Inr (pk_object_spans (bp_index b))"
proof -
  obtain pbc spans pf where s: "pack_object_spans 0 os = Inr spans"
      "new_with_spans blake3 mh ls le (sm_leaf_count m) (sm_leaf_merkle_root m) pf spans (of_nat lc) (of_nat pbc) ds = Inr (bp_index b)"
      "verify_pack_against_manifest blake3 mh m (bp_index b) hs = Inr ()" "bp_objects b = map (\<lambda>b. (bo_hash b, bo_bytes b)) os"
    using assms(1) by (auto simp: seal_pack_def)
  note h = pack_object_spans_hashes [OF s(1)]
  obtain v: "validate_pack blake3 ls le (sm_leaf_count m) (sm_leaf_merkle_root m) pf spans ds (of_nat lc) (of_nat pbc) = Inr ()"
    and ix: "\<lparr>pk_series_hash = mh, pk_parent_series_hash = None, pk_leaf_start = ls, pk_leaf_end = le,
           pk_total_leaf_count = sm_leaf_count m, pk_range_root = sm_leaf_merkle_root m, pk_range_proof = pf, pk_object_spans = spans,
           pk_physical_object_hashes = map os_object_hash spans, pk_logical_count = of_nat lc,
           pk_physical_byte_count = of_nat pbc, pk_leaf_descriptors = ds\<rparr> = bp_index b"
    using s(2) by (auto simp: new_with_spans_def new_segment_with_spans_def)
  show "verify_pack_against_manifest blake3 mh m (bp_index b) hs = Inr ()" by (rule s(3))
  show "bp_objects b = map (\<lambda>b. (bo_hash b, bo_bytes b)) os" by (rule s(4))
  show "pack_ok parse blake3 (bp_index b)" "pk_physical_object_hashes (bp_index b) = map bo_hash os"
    "pk_leaf_descriptors (bp_index b) = ds" "pk_leaf_start (bp_index b) = ls" "pk_leaf_end (bp_index b) = le"
    "pk_series_hash (bp_index b) = mh" "pack_object_spans 0 os = Inr (pk_object_spans (bp_index b))"
    unfolding ix [symmetric] using v h assms(2) s(1) by (simp_all add: pack_ok_def)
qed

lemma leaf_ranges_ok:
  "a + sum_list (map (\<lambda>d. unat (pd_logical_count d)) ds) \<le> u64_max \<Longrightarrow> \<exists>rs. leaf_ranges a ds = Inr rs"
proof (induction ds arbitrary: a)
  case (Cons d ds)
  have "(a + unat (pd_logical_count d)) + sum_list (map (\<lambda>d. unat (pd_logical_count d)) ds) \<le> u64_max"
    using Cons.prems by simp
  from Cons.IH [OF this] obtain rs where "leaf_ranges (a + unat (pd_logical_count d)) ds = Inr rs" ..
  then show ?case using Cons.prems by (simp add: Let_def)
qed simp

lemma descriptor_sum_ok:
  "a + sum_list (map (\<lambda>d. unat (pd_logical_count d)) ds) \<le> u64_max \<Longrightarrow>
    descriptor_sum a ds = Inr (a + sum_list (map (\<lambda>d. unat (pd_logical_count d)) ds))"
  by (induction ds arbitrary: a) (auto simp: add.assoc)

lemma seal_pack_complete:
  assumes inp: "pack_input_ok blake3 kind mh m whole ls (map pd_logical_leaf_hash ds) ds"
    and kind: "list_all (\<lambda>d. (pd_schema_fingerprint d \<noteq> None) = (kind = Table)) ds"
    and sp: "pack_object_spans 0 os = Inr spans" "spans \<noteq> []"
    and pbc: "checked_physical_byte_count 0 os = Inr pbc"
    and val: "validate_object_spans spans ds (of_nat (sum_list (map (\<lambda>d. unat (pd_logical_count d)) ds))) (of_nat pbc) = Inr ()"
  shows "\<exists>b. seal_pack blake3 mh m whole ls ds (of_nat (unat ls + length ds), map pd_logical_leaf_hash ds,
    sum_list (map (\<lambda>d. unat (pd_logical_count d)) ds)) os = Inr b"
proof -
  let ?hs = "map pd_logical_leaf_hash ds" and ?lc = "sum_list (map (\<lambda>d. unat (pd_logical_count d)) ds)"
  let ?e = "unat ls + length ds"
  have I: "ds \<noteq> []" "sm_payload_kind m = kind" "length whole = unat (sm_leaf_count m)"
      "sm_leaf_merkle_root m = subtree_hash blake3 whole" "?e \<le> length whole" "?hs = slice whole (unat ls) ?e" "?lc \<le> u64_max"
    using inp by (auto simp: pack_input_ok_def)
  have whole: "length whole \<le> u64_max" using I(3) unat_u64_le [of "sm_leaf_count m"] by simp
  define le :: u64 where "le = of_nat ?e"
  have e: "unat le = ?e" unfolding le_def using I(5) whole by (intro unat_of_nat_le(2)) linarith
  have lt: "unat ls < ?e" using I(1) by simp
  have lc: "unat (of_nat ?lc :: u64) = ?lc" using I(7) by (rule unat_of_nat_le(2))
  obtain pf where pf: "generate_range_proof blake3 whole (unat ls) ?e = Inr pf"
      "validate_range_proof_shape pf (length whole) (unat ls) ?e = Inr ()"
      "verify_range_proof blake3 (length whole) (unat ls) ?e ?hs pf = Inr (subtree_hash blake3 whole)"
    using range_proof_verifies [OF lt I(5) whole, of blake3] I(6) by auto
  have wlt: "ls < le" "le \<le> sm_leaf_count m" "unat (le - ls) = length ds"
    using lt e I(3,5) by (simp_all add: word_less_nat_alt word_le_nat_alt unat_sub)
  have n: "length ds \<le> u64_max" using I(5) whole by linarith
  let ?ix = "\<lparr>pk_series_hash = mh, pk_parent_series_hash = None, pk_leaf_start = ls, pk_leaf_end = le,
           pk_total_leaf_count = sm_leaf_count m, pk_range_root = sm_leaf_merkle_root m, pk_range_proof = pf, pk_object_spans = spans,
           pk_physical_object_hashes = map os_object_hash spans, pk_logical_count = of_nat ?lc,
           pk_physical_byte_count = of_nat pbc, pk_leaf_descriptors = ds\<rparr>"
  have "validate_pack blake3 ls le (sm_leaf_count m) (sm_leaf_merkle_root m) pf spans ds (of_nat ?lc) (of_nat pbc) = Inr ()"
    using wlt sp(2) n descriptor_sum_ok [of 0 ds] I lc pf val unfolding validate_pack_def e by simp
  then have "new_with_spans blake3 mh ls le (sm_leaf_count m) (sm_leaf_merkle_root m) pf spans (of_nat ?lc) (of_nat pbc) ds = Inr ?ix"
    by (simp add: new_with_spans_def new_segment_with_spans_def)
  moreover have "verify_pack_against_manifest blake3 mh m ?ix ?hs = Inr ()"
  proof -
    obtain fps where "res_map (effective_leaf_schema_fingerprint m ?ix) ds = Inr fps"
      using res_map_fingerprints [of m ds ?ix] kind I(2) by auto
    moreover have "list_all (\<lambda>(d, h). pd_logical_leaf_hash d = h) (zip ds ?hs)"
      by (simp add: list_all_length)
    ultimately show ?thesis
      using wlt(3) pf(3) I(3,4) e by (simp add: verify_pack_against_manifest_def)
  qed
  ultimately show ?thesis
    unfolding le_def [symmetric] using sp(1) pbc pf(1) e by (simp add: seal_pack_def)
qed

section \<open>File packs\<close>

fun spans_from :: "(bytes \<Rightarrow> hash32) \<Rightarrow> nat \<Rightarrow> bytes list \<Rightarrow> pack_object_span list" where
  "spans_from blake3 a [] = []"
| "spans_from blake3 a (c # cs) =
    \<lparr>os_object_hash = blake3 c, os_logical_start = of_nat a, os_logical_end = of_nat (a + length c),
     os_physical_start = of_nat a, os_physical_end = of_nat (a + length c)\<rparr> # spans_from blake3 (a + length c) cs"

lemma pack_object_spans_from:
  assumes "\<forall>c \<in> set cs. c \<noteq> []" and "a + length (concat cs) \<le> u64_max"
  shows "pack_object_spans a (objects_from blake3 a cs) = Inr (spans_from blake3 a cs)"
  using assms
proof (induction cs arbitrary: a)
  case (Cons c cs)
  have "a + length c \<le> u64_max" using Cons.prems(2) by simp
  then have u: "unat (of_nat a :: u64) = a" "unat (of_nat (a + length c) :: u64) = a + length c"
    by (simp_all only: unat_of_nat_le)
  have "a < a + length c" using Cons.prems(1) by simp
  then have "(of_nat a :: u64) < of_nat (a + length c)"
    unfolding word_less_nat_alt u .
  then show ?case
    using Cons.IH [of "a + length c"] Cons.prems \<open>a + length c \<le> u64_max\<close>
    by (simp add: Let_def span_new_def)
qed simp

lemma spans_from_member:
  assumes "c \<in> set cs" and "a + length (concat cs) \<le> u64_max"
  shows "\<exists>sp \<in> set (spans_from blake3 a cs). os_object_hash sp = blake3 c \<and> interval_len (physical_interval sp) = length c"
  using assms
proof (induction cs arbitrary: a)
  case (Cons c' cs)
  have "a + length c' \<le> u64_max" using Cons.prems(2) by simp
  then have u: "unat (of_nat a :: u64) = a" "unat (of_nat (a + length c') :: u64) = a + length c'"
    by (simp_all only: unat_of_nat_le)
  show ?case
  proof (cases "c = c'")
    case True
    then show ?thesis using u by (simp del: of_nat_add)
  next
    case False
    then have "\<exists>sp \<in> set (spans_from blake3 (a + length c') cs). os_object_hash sp = blake3 c \<and> interval_len (physical_interval sp) = length c"
      using Cons.prems by (intro Cons.IH) simp_all
    then show ?thesis unfolding spans_from.simps list.set by blast
  qed
qed simp

lemma check_file_span:
  assumes u: "unat (of_nat a :: u64) = a" "unat (of_nat (a + n) :: u64) = a + n" and n: "n \<noteq> 0"
    and L: "L h = None \<or> L h = Some n"
  shows "check_span True False ranges \<lparr>logical_cursor = a, physical_cursor = a, lengths_by_hash = L\<rparr>
      \<lparr>os_object_hash = h, os_logical_start = of_nat a, os_logical_end = of_nat (a + n),
       os_physical_start = of_nat a, os_physical_end = of_nat (a + n)\<rparr> =
      Inr \<lparr>logical_cursor = a + n, physical_cursor = a + n, lengths_by_hash = L(h \<mapsto> n)\<rparr>"
  using n L unfolding check_span_def Let_def pack_object_span.select_convs span_state.select_convs u
  by (simp only: require_def add_diff_cancel_left' if_False if_True res_bind_simps simp_thms order_refl le_add1,
      elim disjE, simp_all)

lemma check_spans_from:
  assumes "\<forall>c \<in> set cs. c \<noteq> []" and "a + length (concat cs) \<le> u64_max"
    and "\<forall>c \<in> set cs. \<forall>c' \<in> set cs. blake3 c = blake3 c' \<longrightarrow> length c = length c'"
    and "\<forall>c \<in> set cs. L (blake3 c) \<in> {None, Some (length c)}"
  shows "\<exists>L'. res_fold (check_span True False ranges) \<lparr>logical_cursor = a, physical_cursor = a, lengths_by_hash = L\<rparr>
    (spans_from blake3 a cs) = Inr \<lparr>logical_cursor = a + length (concat cs), physical_cursor = a + length (concat cs), lengths_by_hash = L'\<rparr>"
  using assms
proof (induction cs arbitrary: a L)
  case (Cons c cs)
  have "a + length c \<le> u64_max" using Cons.prems(2) by simp
  then have u: "unat (of_nat a :: u64) = a" "unat (of_nat (a + length c) :: u64) = a + length c"
    by (simp_all only: unat_of_nat_le)
  let ?L = "L(blake3 c \<mapsto> length c)"
  have c: "length c \<noteq> 0" "L (blake3 c) = None \<or> L (blake3 c) = Some (length c)"
    using Cons.prems(1,4) by auto
  have step: "check_span True False ranges \<lparr>logical_cursor = a, physical_cursor = a, lengths_by_hash = L\<rparr>
      \<lparr>os_object_hash = blake3 c, os_logical_start = of_nat a, os_logical_end = of_nat (a + length c),
       os_physical_start = of_nat a, os_physical_end = of_nat (a + length c)\<rparr> =
      Inr \<lparr>logical_cursor = a + length c, physical_cursor = a + length c, lengths_by_hash = ?L\<rparr>"
    using u c by (rule check_file_span)
  have "\<exists>L'. res_fold (check_span True False ranges) \<lparr>logical_cursor = a + length c, physical_cursor = a + length c, lengths_by_hash = ?L\<rparr>
    (spans_from blake3 (a + length c) cs) =
      Inr \<lparr>logical_cursor = (a + length c) + length (concat cs), physical_cursor = (a + length c) + length (concat cs), lengths_by_hash = L'\<rparr>"
  proof (rule Cons.IH)
    show "\<forall>d \<in> set cs. d \<noteq> []" using Cons.prems(1) by simp
    show "(a + length c) + length (concat cs) \<le> u64_max" using Cons.prems(2) by simp
    show "\<forall>d \<in> set cs. \<forall>d' \<in> set cs. blake3 d = blake3 d' \<longrightarrow> length d = length d'"
      by (meson Cons.prems(3) list.set_intros(2))
    show "\<forall>d \<in> set cs. ?L (blake3 d) \<in> {None, Some (length d)}"
    proof
      fix d assume d: "d \<in> set cs"
      show "?L (blake3 d) \<in> {None, Some (length d)}"
      proof (cases "blake3 d = blake3 c")
        case True
        then have "length d = length c" by (meson Cons.prems(3) d list.set_intros)
        then show ?thesis by (simp only: True fun_upd_same insert_iff simp_thms)
      next
        case False
        then have "?L (blake3 d) = L (blake3 d)" by (simp only: fun_upd_other not_False_eq_True)
        then show ?thesis using bspec [OF Cons.prems(4), of d] d by (simp only: list.set_intros)
      qed
    qed
  qed
  then show ?case
    using step by (simp add: add.assoc del: of_nat_add)
qed simp

text \<open>A leaf input that \<open>FileLeafInput::new\<close> returned.\<close>

definition file_leaf_ok :: "(rstring \<Rightarrow> error + json) \<Rightarrow> (bytes \<Rightarrow> hash32) \<Rightarrow> file_leaf_input \<Rightarrow> bool" where
  "file_leaf_ok parse blake3 l \<longleftrightarrow> (\<exists>bs mn mx attrs. file_leaf_new parse blake3 bs mn mx attrs = Inr l)"

lemma file_leaf_okD:
  assumes "file_leaf_ok parse blake3 l"
  shows "descriptor_ok parse (fl_descriptor l)" "pd_logical_leaf_hash (fl_descriptor l) = fl_leaf_hash l"
    "unat (pd_logical_count (fl_descriptor l)) = length (fl_bytes l)" "pd_schema_fingerprint (fl_descriptor l) = None"
    "fl_bytes l \<noteq> []"
proof -
  obtain bs mn mx attrs where l: "file_leaf_new parse blake3 bs mn mx attrs = Inr l"
    using assms by (auto simp: file_leaf_ok_def)
  then obtain h where h: "file_leaf_hash_canonical blake3 bs mn mx attrs = Inr h"
    and n: "of_nat (length bs) \<noteq> (0 :: u64)" "attributes_ok parse attrs"
    and eq: "l = \<lparr>fl_bytes = bs, fl_descriptor = \<lparr>pd_logical_leaf_hash = h, pd_logical_count = of_nat (length bs),
      pd_schema_fingerprint = None, pd_min_event_time = mn, pd_max_event_time = mx, pd_logical_attributes = attrs\<rparr>,
      fl_leaf_hash = h\<rparr>"
    by (auto simp: file_leaf_new_def new_with_leaf_hash_def validate_descriptor_iff)
  have "length bs \<le> u64_max" "bs \<noteq> []"
    using h by (auto simp: file_leaf_hash_canonical_def file_leaf_hash_canonical_with_magic_def leaf_hash_with_magic_def
        leaf_preimage_def push_len_prefixed_u64_def split: if_splits)
  then show "unat (pd_logical_count (fl_descriptor l)) = length (fl_bytes l)" "fl_bytes l \<noteq> []"
    by (simp_all add: eq unat_of_nat_le)
  show "descriptor_ok parse (fl_descriptor l)" "pd_logical_leaf_hash (fl_descriptor l) = fl_leaf_hash l"
    "pd_schema_fingerprint (fl_descriptor l) = None"
    using n by (simp_all add: eq descriptor_ok_def)
qed

lemma file_leaves_sum:
  "\<forall>l \<in> set leaves. file_leaf_ok parse blake3 l \<Longrightarrow>
    sum_list (map (\<lambda>l. unat (pd_logical_count (fl_descriptor l))) leaves) = length (concat (map fl_bytes leaves))"
  by (induction leaves) (auto dest: file_leaf_okD(3))

lemma objects_from_simps [simp]:
  "map bo_hash (objects_from blake3 a cs) = map blake3 cs" "map bo_bytes (objects_from blake3 a cs) = cs"
  "map (\<lambda>b. (bo_hash b, bo_bytes b)) (objects_from blake3 a cs) = map (\<lambda>c. (blake3 c, c)) cs"
  by (induction cs arbitrary: a) simp_all

lemma validate_spans_from:
  assumes "0 < cap" and "length d \<le> u64_max" and "ds \<noteq> []"
    and "list_all (\<lambda>d. pd_schema_fingerprint d = None) ds"
    and "sum_list (map (\<lambda>d. unat (pd_logical_count d)) ds) = length d"
    and "\<forall>c \<in> set (chunks cap d). \<forall>c' \<in> set (chunks cap d). blake3 c = blake3 c' \<longrightarrow> length c = length c'"
  shows "validate_object_spans (spans_from blake3 0 (chunks cap d)) ds (of_nat (length d)) (of_nat (length d)) = Inr ()"
proof -
  obtain rs where rs: "leaf_ranges 0 ds = Inr rs" using leaf_ranges_ok [of 0 ds] assms(2,5) by auto
  have "\<not> list_all (\<lambda>d. pd_schema_fingerprint d \<noteq> None) ds"
    using assms(3,4) by (cases ds) auto
  moreover have "\<exists>L'. res_fold (check_span True False rs) \<lparr>logical_cursor = 0, physical_cursor = 0, lengths_by_hash = Map.empty\<rparr>
      (spans_from blake3 0 (chunks cap d)) =
      Inr \<lparr>logical_cursor = 0 + length (concat (chunks cap d)), physical_cursor = 0 + length (concat (chunks cap d)), lengths_by_hash = L'\<rparr>"
  proof (rule check_spans_from [OF _ _ assms(6)])
    show "\<forall>c \<in> set (chunks cap d). c \<noteq> []" using chunks_sizes by blast
    show "0 + length (concat (chunks cap d)) \<le> u64_max" using assms(2) by (simp add: concat_chunks [OF assms(1)])
  qed simp
  ultimately show ?thesis
    using assms(2,4) rs by (auto simp: validate_object_spans_def concat_chunks [OF assms(1)] unat_of_nat_le)
qed

text \<open>The byte stream of a list of leaves, and the condition that no two of its objects collide in a
  way that the index cannot record.\<close>

definition file_stream :: "file_leaf_input list \<Rightarrow> bytes" where
  "file_stream leaves = concat (map fl_bytes leaves)"

definition sizes_agree :: "(bytes \<Rightarrow> hash32) \<Rightarrow> bytes list \<Rightarrow> bool" where
  "sizes_agree blake3 cs \<longleftrightarrow> (\<forall>c \<in> set cs. \<forall>c' \<in> set cs. blake3 c = blake3 c' \<longrightarrow> length c = length c')"

lemma file_descriptors:
  assumes "\<forall>l \<in> set leaves. file_leaf_ok parse blake3 l"
  shows "map pd_logical_leaf_hash (map fl_descriptor leaves) = map fl_leaf_hash leaves"
    "sum_list (map (\<lambda>d. unat (pd_logical_count d)) (map fl_descriptor leaves)) = length (file_stream leaves)"
    "list_all (\<lambda>d. pd_schema_fingerprint d = None) (map fl_descriptor leaves)"
    "list_all (descriptor_ok parse) (map fl_descriptor leaves)"
    "leaves \<noteq> [] \<Longrightarrow> file_stream leaves \<noteq> []"
proof -
  show "map pd_logical_leaf_hash (map fl_descriptor leaves) = map fl_leaf_hash leaves"
    using assms by (auto dest: file_leaf_okD(2))
  show "sum_list (map (\<lambda>d. unat (pd_logical_count d)) (map fl_descriptor leaves)) = length (file_stream leaves)"
    using file_leaves_sum [OF assms] by (simp add: file_stream_def comp_def)
  show "list_all (\<lambda>d. pd_schema_fingerprint d = None) (map fl_descriptor leaves)"
    "list_all (descriptor_ok parse) (map fl_descriptor leaves)"
    using assms by (auto simp: list_all_iff dest: file_leaf_okD)
  show "file_stream leaves \<noteq> []" if "leaves \<noteq> []"
    using that assms file_leaf_okD(5) by (cases leaves) (auto simp: file_stream_def)
qed

abbreviation file_prepared :: "u64 \<Rightarrow> file_leaf_input list \<Rightarrow> u64 \<times> hash32 list \<times> nat" where
  "file_prepared leaf_start leaves \<equiv>
    (of_nat (unat leaf_start + length leaves), map fl_leaf_hash leaves, length (file_stream leaves))"

lemma seal_file_complete:
  assumes leaves: "\<forall>l \<in> set leaves. file_leaf_ok parse blake3 l" and cap: "0 < cap"
    and inp: "pack_input_ok blake3 File mh m whole ls (map fl_leaf_hash leaves) (map fl_descriptor leaves)"
    and free: "sizes_agree blake3 (chunks cap (file_stream leaves))"
  shows "\<exists>b. seal_pack blake3 mh m whole ls (map fl_descriptor leaves) (file_prepared ls leaves)
    (objects_from blake3 0 (chunks cap (file_stream leaves))) = Inr b"
proof -
  let ?ds = "map fl_descriptor leaves" and ?d = "file_stream leaves"
  let ?cs = "chunks cap ?d"
  note D = file_descriptors [OF leaves]
  have dmax: "length ?d \<le> u64_max" and ne: "leaves \<noteq> []" using inp D(2) by (auto simp: pack_input_ok_def)
  have "?cs \<noteq> []" using concat_chunks [OF cap, of ?d] D(5) [OF ne] by auto
  then have sne: "spans_from blake3 0 ?cs \<noteq> []" by (cases ?cs) auto
  have sp: "pack_object_spans 0 (objects_from blake3 0 ?cs) = Inr (spans_from blake3 0 ?cs)"
    by (rule pack_object_spans_from) (use chunks_sizes dmax in \<open>auto simp: concat_chunks [OF cap]\<close>)
  have pb: "checked_physical_byte_count 0 (objects_from blake3 0 ?cs) = Inr (length ?d)"
    using dmax by (simp add: checked_physical_byte_count_iff concat_chunks [OF cap])
  have v: "validate_object_spans (spans_from blake3 0 ?cs) ?ds (of_nat (length ?d)) (of_nat (length ?d)) = Inr ()"
    by (rule validate_spans_from [OF cap dmax _ D(3,2) free [unfolded sizes_agree_def]]) (use ne in simp)
  have "\<exists>b. seal_pack blake3 mh m whole ls ?ds (of_nat (unat ls + length ?ds), map pd_logical_leaf_hash ?ds,
      sum_list (map (\<lambda>d. unat (pd_logical_count d)) ?ds)) (objects_from blake3 0 ?cs) = Inr b"
    by (rule seal_pack_complete [where kind = File, OF _ _ sp sne pb])
      (use inp D(3) v in \<open>simp_all only: D(1,2), auto simp: list_all_iff\<close>)
  then show ?thesis unfolding D(1,2) by simp
qed

lemma seal_file_sizes:
  assumes leaves: "\<forall>l \<in> set leaves. file_leaf_ok parse blake3 l" and cap: "0 < cap" and dmax: "length (file_stream leaves) \<le> u64_max"
    and b: "seal_pack blake3 mh m whole ls (map fl_descriptor leaves) (file_prepared ls leaves)
      (objects_from blake3 0 (chunks cap (file_stream leaves))) = Inr b"
  shows "sizes_agree blake3 (chunks cap (file_stream leaves))"
  unfolding sizes_agree_def
proof (intro ballI impI)
  let ?cs = "chunks cap (file_stream leaves)"
  fix c c' assume c: "c \<in> set ?cs" "c' \<in> set ?cs" and eq: "blake3 c = blake3 c'"
  note S = seal_pack_sound [OF b file_descriptors(4) [OF leaves]]
  have le: "0 + length (concat ?cs) \<le> u64_max" using dmax by (simp add: concat_chunks [OF cap])
  have "pack_object_spans 0 (objects_from blake3 0 ?cs) = Inr (spans_from blake3 0 ?cs)"
    using chunks_sizes le by (intro pack_object_spans_from) blast+
  then have "pk_object_spans (bp_index b) = spans_from blake3 0 ?cs" using S(9) by simp
  then have wf: "spans_wf (spans_from blake3 0 ?cs) (pk_leaf_descriptors (bp_index b)) (unat (pk_logical_count (bp_index b)))
      (unat (pk_physical_byte_count (bp_index b)))"
    using validate_spans_wf(1) [OF pack_ok_valid(6) [OF S(1)]] by (simp only:)
  obtain sp where sp: "sp \<in> set (spans_from blake3 0 ?cs)" "os_object_hash sp = blake3 c" "interval_len (physical_interval sp) = length c"
    using spans_from_member [OF c(1) le, of blake3] by (elim bexE conjE)
  obtain sp' where sp': "sp' \<in> set (spans_from blake3 0 ?cs)" "os_object_hash sp' = blake3 c'" "interval_len (physical_interval sp') = length c'"
    using spans_from_member [OF c(2) le, of blake3] by (elim bexE conjE)
  have "interval_len (physical_interval sp) = interval_len (physical_interval sp')"
    using bspec [OF bspec [OF conjunct1 [OF conjunct2 [OF conjunct2 [OF wf [unfolded spans_wf_def]]]] sp(1)] sp'(1)]
      sp(2) sp'(2) eq by (simp only: simp_thms)
  then show "length c = length c'" by (simp only: sp(3) sp'(3))
qed

lemma build_file_pack_run:
  assumes leaves: "\<forall>l \<in> set leaves. file_leaf_ok parse blake3 l" and cap: "0 < unat cap"
  shows "\<exists>r. build_file_pack blake3 mh m whole ls leaves cap = Some r \<and>
    (if pack_input_ok blake3 File mh m whole ls (map fl_leaf_hash leaves) (map fl_descriptor leaves)
     then r = seal_pack blake3 mh m whole ls (map fl_descriptor leaves) (file_prepared ls leaves)
       (objects_from blake3 0 (chunks (unat cap) (file_stream leaves)))
     else \<exists>e. r = Inl e)"
proof (cases "pack_input_ok blake3 File mh m whole ls (map fl_leaf_hash leaves) (map fl_descriptor leaves)")
  case True
  note D = file_descriptors [OF leaves]
  have prep: "prepare_pack blake3 File fl_leaf_hash fl_descriptor mh m whole ls leaves = Inr (file_prepared ls leaves)"
    unfolding prepare_pack_iff using True D(2) by (simp add: comp_def)
  have "length (file_stream leaves) \<le> u64_max" using True D(2) by (auto simp: pack_input_ok_def)
  then have "build_file_physical_objects blake3 leaves (unat cap) =
      Some (Inr (objects_from blake3 0 (chunks (unat cap) (file_stream leaves))))"
    unfolding file_stream_def by (rule build_file_physical_objects_eq [OF cap])
  then show ?thesis
    using True prep by (simp add: build_file_pack_def del: of_nat_add)
next
  case False
  then have "prepare_pack blake3 File fl_leaf_hash fl_descriptor mh m whole ls leaves \<noteq> Inr r" for r
    unfolding prepare_pack_iff by blast
  then obtain e where "prepare_pack blake3 File fl_leaf_hash fl_descriptor mh m whole ls leaves = Inl e"
    by (cases "prepare_pack blake3 File fl_leaf_hash fl_descriptor mh m whole ls leaves") auto
  then show ?thesis using False by (simp add: build_file_pack_def)
qed

section \<open>Properties\<close>

text \<open>C21: \<open>build_file_pack\<close> always returns. It succeeds exactly when the supplied leaves are the leaves
  of the named manifest at the requested range, their total size is a 64-bit count, the aggregates agree
  when the range is the whole series, and no two objects of different sizes have the same hash. The
  objects it returns are the bytes of the leaves, in order, cut at the cap and named by their hashes,
  and the index is a valid pack that verifies against the manifest.\<close>

theorem build_file_pack_correct:
  assumes "cap \<noteq> 0" and "\<forall>l \<in> set leaves. file_leaf_ok parse blake3 l"
  shows "\<exists>r. build_file_pack blake3 mh m whole leaf_start leaves cap = Some r \<and>
    ((\<exists>b. r = Inr b) \<longleftrightarrow>
      pack_input_ok blake3 File mh m whole leaf_start (map fl_leaf_hash leaves) (map fl_descriptor leaves) \<and>
      sizes_agree blake3 (chunks (unat cap) (file_stream leaves))) \<and>
    (\<forall>b. r = Inr b \<longrightarrow>
      bp_objects b = map (\<lambda>c. (blake3 c, c)) (chunks (unat cap) (file_stream leaves)) \<and>
      concat (map snd (bp_objects b)) = file_stream leaves \<and>
      pk_physical_object_hashes (bp_index b) = map fst (bp_objects b) \<and> pack_ok parse blake3 (bp_index b) \<and>
      verify_pack_against_manifest blake3 mh m (bp_index b) (map fl_leaf_hash leaves) = Inr ())"
proof -
  let ?inp = "pack_input_ok blake3 File mh m whole leaf_start (map fl_leaf_hash leaves) (map fl_descriptor leaves)"
  have cap: "0 < unat cap" using assms(1) by (simp add: unat_gt_0)
  obtain r where run: "build_file_pack blake3 mh m whole leaf_start leaves cap = Some r"
      and r: "?inp \<Longrightarrow> r = seal_pack blake3 mh m whole leaf_start (map fl_descriptor leaves) (file_prepared leaf_start leaves)
       (objects_from blake3 0 (chunks (unat cap) (file_stream leaves)))" "\<not> ?inp \<Longrightarrow> \<exists>e. r = Inl e"
    using build_file_pack_run [OF assms(2) cap, of mh m whole leaf_start] by metis
  note D = file_descriptors [OF assms(2)]
  show ?thesis
  proof (cases ?inp)
    case True
    then have "length (file_stream leaves) \<le> u64_max" using D(2) by (auto simp: pack_input_ok_def)
    then have "(\<exists>b. r = Inr b) \<longleftrightarrow> sizes_agree blake3 (chunks (unat cap) (file_stream leaves))"
      using seal_file_complete [OF assms(2) cap True] seal_file_sizes [OF assms(2) cap] unfolding r(1) [OF True] by blast
    moreover have "bp_objects b = map (\<lambda>c. (blake3 c, c)) (chunks (unat cap) (file_stream leaves)) \<and>
        concat (map snd (bp_objects b)) = file_stream leaves \<and>
        pk_physical_object_hashes (bp_index b) = map fst (bp_objects b) \<and> pack_ok parse blake3 (bp_index b) \<and>
        verify_pack_against_manifest blake3 mh m (bp_index b) (map fl_leaf_hash leaves) = Inr ()" if "r = Inr b" for b
      using seal_pack_sound [OF that [unfolded r(1) [OF True]] D(4)] by (simp add: comp_def concat_chunks [OF cap])
    ultimately show ?thesis using run True by blast
  next
    case False
    then show ?thesis using run r(2) by auto
  qed
qed

definition ex_file_leaf :: "bytes \<Rightarrow> file_leaf_input" where
  "ex_file_leaf bs = (case file_leaf_new toy_parse toy_hash bs None None None of Inr l \<Rightarrow> l)"

lemma ex_file_leaf:
  assumes "bs \<noteq> []" and "length bs \<le> 9"
  shows "file_leaf_ok toy_parse toy_hash (ex_file_leaf bs)" "fl_bytes (ex_file_leaf bs) = bs"
    "pd_min_event_time (fl_descriptor (ex_file_leaf bs)) = None" "pd_max_event_time (fl_descriptor (ex_file_leaf bs)) = None"
proof -
  have "length bs \<le> u64_max" using assms(2) by simp
  then have "unat (of_nat (length bs) :: u64) \<noteq> 0" using assms(1) by (simp only: unat_of_nat_le(2)) simp
  then have "of_nat (length bs) \<noteq> (0 :: u64)" by auto
  moreover obtain h where "file_leaf_hash_canonical toy_hash bs None None None = Inr h"
    using assms \<open>length bs \<le> u64_max\<close> by (auto simp: file_leaf_hash_canonical_def file_leaf_hash_canonical_with_magic_def
        leaf_hash_with_magic_def leaf_preimage_def push_len_prefixed_def push_len_prefixed_u64_def push_bounds_def
        push_opt_i64_def or_empty_def)
  ultimately have "file_leaf_new toy_parse toy_hash bs None None None = Inr \<lparr>fl_bytes = bs, fl_descriptor =
      \<lparr>pd_logical_leaf_hash = h, pd_logical_count = of_nat (length bs), pd_schema_fingerprint = None,
       pd_min_event_time = None, pd_max_event_time = None, pd_logical_attributes = None\<rparr>, fl_leaf_hash = h\<rparr>"
    by (simp add: file_leaf_new_def validate_attributes_def new_with_leaf_hash_def validate_descriptor_def)
  then show "file_leaf_ok toy_parse toy_hash (ex_file_leaf bs)" "fl_bytes (ex_file_leaf bs) = bs"
    "pd_min_event_time (fl_descriptor (ex_file_leaf bs)) = None" "pd_max_event_time (fl_descriptor (ex_file_leaf bs)) = None"
    by (auto simp: ex_file_leaf_def file_leaf_ok_def)
qed

text \<open>Two leaves of five bytes in all, packed at two bytes per object.\<close>

definition ex_file_leaves :: "file_leaf_input list" where
  "ex_file_leaves = [ex_file_leaf [1, 2, 3], ex_file_leaf [4, 5]]"

definition ex_file_manifest :: series_manifest where
  "ex_file_manifest = \<lparr>sm_payload_kind = File, sm_logical_count = 5, sm_leaf_count = 2, sm_min_event_time = None,
     sm_max_event_time = None, sm_logical_attributes = None,
     sm_leaf_merkle_root = subtree_hash toy_hash (map fl_leaf_hash ex_file_leaves),
     sm_merkle_frontier = (case from_leaves toy_hash (map fl_leaf_hash ex_file_leaves) of Inr f \<Rightarrow> f)\<rparr>"

lemma ex_file_manifest_hash: "\<exists>mh. manifest_hash toy_hash ex_file_manifest = Inr mh"
proof -
  obtain f where f: "from_leaves toy_hash (map fl_leaf_hash ex_file_leaves) = Inr f"
      "represents toy_hash f (map fl_leaf_hash ex_file_leaves)"
    using extended_represents [OF represents_empty, of "map fl_leaf_hash ex_file_leaves" toy_hash]
    by (auto simp: from_leaves_def ex_file_leaves_def)
  have "length (peak_hashes (sm_merkle_frontier ex_file_manifest)) \<le> 64"
    using represents_frontier_ok [OF f(2)] by (auto simp: ex_file_manifest_def f(1) intro: frontier_peaks_bound)
  then show ?thesis
    using encode_manifest_total [of ex_file_manifest] by (auto simp: manifest_hash_def ex_file_manifest_def or_empty_def)
qed

theorem build_file_pack_correct_witness:
  "\<exists>mh b. build_file_pack toy_hash mh ex_file_manifest (map fl_leaf_hash ex_file_leaves) 0 ex_file_leaves 2 = Some (Inr b) \<and>
    map snd (bp_objects b) = [[1, 2], [3, 4], [5]]"
proof -
  let ?hs = "map fl_leaf_hash ex_file_leaves"
  obtain mh where mh: "manifest_hash toy_hash ex_file_manifest = Inr mh" using ex_file_manifest_hash ..
  have ok: "\<forall>l \<in> set ex_file_leaves. file_leaf_ok toy_parse toy_hash l"
    by (auto simp: ex_file_leaves_def intro!: ex_file_leaf(1))
  have stream: "file_stream ex_file_leaves = [1, 2, 3, 4, 5]"
    by (simp add: file_stream_def ex_file_leaves_def ex_file_leaf(2))
  have cs: "chunks 2 [1, 2, 3, 4, 5] = [[1, 2], [3, 4], [5 :: byte]]"
    by (simp add: chunks.simps)
  have "pack_input_ok toy_hash File mh ex_file_manifest ?hs 0 ?hs (map fl_descriptor ex_file_leaves)"
    using mh file_descriptors(2) [OF ok]
    by (simp add: pack_input_ok_def stream) (simp add: ex_file_manifest_def ex_file_leaves_def ex_file_leaf(3,4) slice_def)
  moreover have "sizes_agree toy_hash [[1, 2], [3, 4], [5]]"
    by (simp add: sizes_agree_def toy_hash_def)
  ultimately show ?thesis
    using build_file_pack_correct [of 2 ex_file_leaves toy_parse toy_hash mh ex_file_manifest ?hs 0] ok
    by (intro exI [of _ mh]) (auto simp: stream cs)
qed

end
