(* ===== verification/PackTableCorrect.thy ===== *)
theory PackTableCorrect
  imports PackBuilderCorrect
begin

text \<open>
  Correctness of table packs: the loops of \<open>build_table_physical_objects\<close> return, the objects they
  write hold the rows of the leaves in order, no object is larger than the cap, and no object mixes
  rows of two schema fingerprints. The Parquet writer is arbitrary. The slice of a record batch is
  only assumed to give the rows it names.
\<close>

section \<open>Rows and slices\<close>

definition batch_wf :: "record_batch \<Rightarrow> bool" where
  "batch_wf b \<longleftrightarrow> list_all (\<lambda>c. length (col_values c) = num_rows b) (columns b)"

definition batch_rows :: "record_batch \<Rightarrow> scalar option list list" where
  "batch_rows b = map (\<lambda>i. map (\<lambda>c. col_values c ! i) (columns b)) [0..<num_rows b]"

lemma length_batch_rows [simp]: "length (batch_rows b) = num_rows b"
  by (simp add: batch_rows_def)

text \<open>What the builder relies on: \<open>RecordBatch::slice\<close> gives the named rows.\<close>

definition slice_spec :: "slice_fn \<Rightarrow> bool" where
  "slice_spec slc \<longleftrightarrow> (\<forall>b off n. batch_wf b \<longrightarrow> off + n \<le> num_rows b \<longrightarrow>
    num_rows (slc b off n) = n \<and> batch_rows (slc b off n) = slice (batch_rows b) off (off + n))"

abbreviation rows_of :: "record_batch list \<Rightarrow> scalar option list list" where
  "rows_of bs \<equiv> concat (map batch_rows bs)"

text \<open>A written object: the fingerprint and schema it was written under, and its pieces.\<close>

type_synonym part = "hash32 \<times> schema \<times> record_batch list"

definition part_rows :: "part \<Rightarrow> (hash32 \<times> scalar option list) list" where
  "part_rows p = map (Pair (fst p)) (rows_of (snd (snd p)))"

definition part_ok :: "(bytes \<Rightarrow> hash32) \<Rightarrow> nat \<Rightarrow> part \<Rightarrow> bool" where
  "part_ok blake3 cap p \<longleftrightarrow> schema_fingerprint blake3 (fst (snd p)) = Inr (fst p) \<and>
    rows_of (snd (snd p)) \<noteq> [] \<and> length (rows_of (snd (snd p))) \<le> cap"

definition written :: "(bytes \<Rightarrow> hash32) \<Rightarrow> parquet_fn \<Rightarrow> built_object \<Rightarrow> part \<Rightarrow> bool" where
  "written blake3 parquet b p \<longleftrightarrow> parquet (fst (snd p)) (snd (snd p)) = Inr (bo_bytes b) \<and> bo_hash b = blake3 (bo_bytes b)"

text \<open>The written objects in order, with the logical range each one records, starting at row \<open>a\<close>.\<close>

fun laid_out :: "(bytes \<Rightarrow> hash32) \<Rightarrow> parquet_fn \<Rightarrow> nat \<Rightarrow> built_object list \<Rightarrow> part list \<Rightarrow> bool" where
  "laid_out blake3 parquet a [] ps = (ps = [])"
| "laid_out blake3 parquet a (b # os) [] = False"
| "laid_out blake3 parquet a (b # os) (p # ps) =
    (written blake3 parquet b p \<and> bo_logical_start b = a \<and> bo_logical_end b = a + length (part_rows p) \<and>
     laid_out blake3 parquet (a + length (part_rows p)) os ps)"

lemma laid_out_snoc:
  "laid_out blake3 parquet a os ps \<Longrightarrow> written blake3 parquet b p \<Longrightarrow> bo_logical_start b = a + length (concat (map part_rows ps)) \<Longrightarrow>
    bo_logical_end b = bo_logical_start b + length (part_rows p) \<Longrightarrow> laid_out blake3 parquet a (os @ [b]) (ps @ [p])"
  by (induction blake3 parquet a os ps rule: laid_out.induct) (auto simp: add.assoc)

lemma laid_out_written: "laid_out blake3 parquet a os ps \<Longrightarrow> list_all2 (written blake3 parquet) os ps"
  by (induction blake3 parquet a os ps rule: laid_out.induct) auto

text \<open>The only ways in which the splitter fails: too many rows, or a failing Parquet writer.\<close>

definition cannot_write :: "parquet_fn \<Rightarrow> nat \<Rightarrow> bool" where
  "cannot_write parquet n \<longleftrightarrow> u64_max < n \<or> (\<exists>s pieces e. parquet s pieces = Inl e)"

lemma cannot_write_mono: "cannot_write parquet m \<Longrightarrow> m \<le> n \<Longrightarrow> cannot_write parquet n"
  by (auto simp: cannot_write_def)

section \<open>The invariant of the splitter\<close>

text \<open>The rows seen so far are the rows of the written parts followed by the pending pieces.\<close>

definition split_inv ::
    "(bytes \<Rightarrow> hash32) \<Rightarrow> parquet_fn \<Rightarrow> nat \<Rightarrow> (hash32 \<times> scalar option list) list \<Rightarrow> table_split \<Rightarrow> bool" where
  "split_inv blake3 parquet cap seen st \<longleftrightarrow>
    ts_rows st = length (rows_of (ts_pieces st)) \<and> ts_rows st < cap \<and>
    ts_logical_cursor st = length seen \<and> ts_logical_cursor st = ts_logical_start st + ts_rows st \<and>
    (ts_pieces st \<noteq> [] \<longrightarrow> rows_of (ts_pieces st) \<noteq> []) \<and>
    (ts_pieces st \<noteq> [] \<longrightarrow> ts_schema st \<noteq> None) \<and> (ts_schema st = None) = (ts_fingerprint st = None) \<and>
    (\<forall>s fp. ts_schema st = Some s \<longrightarrow> ts_fingerprint st = Some fp \<longrightarrow> schema_fingerprint blake3 s = Inr fp) \<and>
    (\<exists>parts. laid_out blake3 parquet 0 (ts_objects st) parts \<and> list_all (part_ok blake3 cap) parts \<and>
      seen = concat (map part_rows parts) @ map (Pair (the (ts_fingerprint st))) (rows_of (ts_pieces st)))"

text \<open>A flush writes the pending pieces as one part; it is called with at most \<open>cap\<close> pending rows.\<close>

lemma flush_table_inv:
  assumes flush: "flush_table blake3 parquet st = Inr st'"
    and rows: "rows_of (ts_pieces st) \<noteq> []" "length (rows_of (ts_pieces st)) \<le> cap" "0 < cap"
    and sch: "ts_schema st = Some s" "ts_fingerprint st = Some fp" "schema_fingerprint blake3 s = Inr fp"
    and parts: "laid_out blake3 parquet 0 (ts_objects st) parts" "list_all (part_ok blake3 cap) parts"
    and seen: "seen = concat (map part_rows parts) @ map (Pair fp) (rows_of (ts_pieces st))"
    and cursor: "ts_logical_cursor st = length seen" "ts_logical_cursor st = ts_logical_start st + length (rows_of (ts_pieces st))"
  shows "split_inv blake3 parquet cap seen st' \<and> ts_pieces st' = [] \<and> ts_schema st' = Some s \<and> ts_fingerprint st' = Some fp"
proof -
  let ?p = "(fp, s, ts_pieces st)"
  obtain bs where bs: "parquet s (ts_pieces st) = Inr bs"
      and st': "st\<lparr>ts_objects := ts_objects st @ [\<lparr>bo_hash = blake3 bs, bo_bytes = bs, bo_logical_start = ts_logical_start st,
           bo_logical_end = ts_logical_cursor st\<rparr>],
         ts_logical_start := ts_logical_cursor st, ts_pieces := [], ts_rows := 0\<rparr> = st'"
    using flush sch(1) by (auto simp: flush_table_def write_table_object_def)
  have "laid_out blake3 parquet 0 (ts_objects st') (parts @ [?p])"
    unfolding st' [symmetric] using bs cursor seen
    by (simp add: written_def part_rows_def laid_out_snoc [OF parts(1)])
  moreover have "list_all (part_ok blake3 cap) (parts @ [?p])"
    using parts(2) rows sch(3) by (simp add: part_ok_def)
  moreover have "seen = concat (map part_rows (parts @ [?p]))"
    by (simp add: seen part_rows_def)
  ultimately have "\<exists>parts. laid_out blake3 parquet 0 (ts_objects st') parts \<and> list_all (part_ok blake3 cap) parts \<and>
      seen = concat (map part_rows parts)" by blast
  then show ?thesis
    using rows(3) sch cursor by (simp add: split_inv_def st' [symmetric])
qed

lemma flush_table_fails:
  "flush_table blake3 parquet st = Inl e \<Longrightarrow> ts_schema st \<noteq> None \<Longrightarrow> cannot_write parquet n"
  by (cases "parquet (the (ts_schema st)) (ts_pieces st)")
    (auto simp: flush_table_def write_table_object_def cannot_write_def)

lemma pack_rows_inv:
  assumes slc: "slice_spec slc" and wf: "batch_wf batch" and cap: "0 < cap"
    and inv: "split_inv blake3 parquet cap seen st" and off: "off \<le> num_rows batch"
    and sch: "ts_schema st = Some s" "ts_fingerprint st = Some fp"
  shows "\<exists>r. pack_rows blake3 parquet slc cap batch off st = Some r \<and> (\<forall>st'. r = Inr st' \<longrightarrow>
    split_inv blake3 parquet cap (seen @ map (Pair fp) (drop off (batch_rows batch))) st' \<and>
    ts_schema st' = Some s \<and> ts_fingerprint st' = Some fp) \<and>
    ((\<exists>e. r = Inl e) \<longrightarrow> cannot_write parquet (length seen + (num_rows batch - off)))"
  using inv off sch
proof (induction "num_rows batch - off" arbitrary: off st seen rule: less_induct)
  case less
  show ?case
  proof (cases "off < num_rows batch")
    case False
    then show ?thesis
      using less.prems by (simp add: pack_rows.simps)
  next
    case True
    note I = less.prems(1) [unfolded split_inv_def]
    define n where "n = min (cap - ts_rows st) (num_rows batch - off)"
    have n: "0 < n" "n \<le> cap - ts_rows st" "off + n \<le> num_rows batch" "ts_rows st + n \<le> cap"
      using True I by (auto simp: n_def)
    let ?piece = "slc batch off n"
    define st1 where "st1 = st\<lparr>ts_pieces := ts_pieces st @ [?piece], ts_rows := ts_rows st + n,
        ts_logical_cursor := ts_logical_cursor st + n\<rparr>"
    have p: "num_rows ?piece = n" "batch_rows ?piece = slice (batch_rows batch) off (off + n)"
      using slc wf n(3) by (auto simp: slice_spec_def)
    obtain parts where parts: "laid_out blake3 parquet 0 (ts_objects st) parts" "list_all (part_ok blake3 cap) parts"
        "seen = concat (map part_rows parts) @ map (Pair fp) (rows_of (ts_pieces st))"
      using I less.prems(4) by auto
    have fps: "schema_fingerprint blake3 s = Inr fp" using I less.prems(3,4) by blast
    let ?seen = "seen @ map (Pair fp) (batch_rows ?piece)"
    have st1: "rows_of (ts_pieces st1) = rows_of (ts_pieces st) @ batch_rows ?piece" "ts_rows st1 = length (rows_of (ts_pieces st1))"
        "ts_logical_cursor st1 = length ?seen" "ts_logical_cursor st1 = ts_logical_start st1 + length (rows_of (ts_pieces st1))"
        "rows_of (ts_pieces st1) \<noteq> []" "ts_rows st1 \<le> cap" "ts_schema st1 = Some s" "ts_fingerprint st1 = Some fp"
        "ts_objects st1 = ts_objects st"
    proof -
      show r: "rows_of (ts_pieces st1) = rows_of (ts_pieces st) @ batch_rows ?piece" by (simp add: st1_def)
      show "ts_rows st1 = length (rows_of (ts_pieces st1))" unfolding r using I p(1) by (simp add: st1_def)
      show "ts_logical_cursor st1 = length ?seen" "ts_logical_cursor st1 = ts_logical_start st1 + length (rows_of (ts_pieces st1))"
        unfolding r using I p(1) by (simp_all add: st1_def)
      show "rows_of (ts_pieces st1) \<noteq> []" unfolding r using p(1) n(1) by (metis append_is_Nil_conv length_batch_rows length_greater_0_conv)
    qed (use n less.prems in \<open>simp_all add: st1_def\<close>)
    have next_rows: "batch_rows ?piece @ drop (off + n) (batch_rows batch) = drop off (batch_rows batch)"
      unfolding p(2) slice_def by (metis add.commute append_take_drop_id diff_add_inverse drop_drop)
    have step: "pack_rows blake3 parquet slc cap batch off st =
      (if u64_max < ts_logical_cursor st1 then Some (Inl (Panic ''attempt to add with overflow''))
       else (case (if ts_rows st1 = cap then flush_table blake3 parquet st1 else Inr st1) of
           Inl e \<Rightarrow> Some (Inl e)
         | Inr st'' \<Rightarrow> pack_rows blake3 parquet slc cap batch (off + n) st''))"
    proof -
      have "(\<not> off < num_rows batch) = False" "(cap < ts_rows st) = False" "(0 < n) = True"
        using True I n(1) by auto
      then show ?thesis
        unfolding pack_rows.simps [of blake3 parquet slc cap batch off st] Let_def n_def [symmetric]
        by (simp only: if_False if_True st1_def)
    qed
    have go: "\<exists>r. pack_rows blake3 parquet slc cap batch (off + n) st2 = Some r \<and> (\<forall>st'. r = Inr st' \<longrightarrow>
        split_inv blake3 parquet cap (seen @ map (Pair fp) (drop off (batch_rows batch))) st' \<and>
        ts_schema st' = Some s \<and> ts_fingerprint st' = Some fp) \<and>
        ((\<exists>e. r = Inl e) \<longrightarrow> cannot_write parquet (length seen + (num_rows batch - off)))"
      if "split_inv blake3 parquet cap ?seen st2" "ts_schema st2 = Some s" "ts_fingerprint st2 = Some fp" for st2
      using less.hyps [of "off + n" ?seen st2] that n(1,3) True next_rows p(1)
      by (simp flip: map_append append.assoc)
    have over: "cannot_write parquet (length seen + (num_rows batch - off))" if "u64_max < ts_logical_cursor st1"
      using that st1(3) n(3) p(1) unfolding cannot_write_def by (intro disjI1) simp
    show ?thesis
    proof (cases "ts_rows st1 = cap")
      case full: True
      show ?thesis
      proof (cases "flush_table blake3 parquet st1")
        case (Inr st2)
        have "split_inv blake3 parquet cap ?seen st2 \<and> ts_pieces st2 = [] \<and> ts_schema st2 = Some s \<and> ts_fingerprint st2 = Some fp"
          by (rule flush_table_inv [OF Inr st1(5) _ cap st1(7,8) fps, of parts])
            (use st1 parts in simp_all)
        then show ?thesis using go [of st2] Inr full over unfolding step by auto
      next
        case (Inl e)
        then show ?thesis using full over flush_table_fails [OF Inl] st1(7) by (auto simp: step)
      qed
    next
      case False
      have "split_inv blake3 parquet cap ?seen st1"
        unfolding split_inv_def using st1 False parts fps by auto
      then show ?thesis using go [of st1] st1(7,8) False over unfolding step by auto
    qed
  qed
qed

lemma pack_batches_inv:
  assumes slc: "slice_spec slc" and cap: "0 < cap" and wf: "\<forall>b \<in> set bs. batch_wf b"
    and inv: "split_inv blake3 parquet cap seen st" and sch: "ts_schema st = Some s" "ts_fingerprint st = Some fp"
  shows "\<exists>r. pack_batches blake3 parquet slc cap bs st = Some r \<and> (\<forall>st'. r = Inr st' \<longrightarrow>
    split_inv blake3 parquet cap (seen @ map (Pair fp) (rows_of bs)) st') \<and>
    ((\<exists>e. r = Inl e) \<longrightarrow> cannot_write parquet (length seen + length (rows_of bs)))"
  using wf inv sch
proof (induction bs arbitrary: st seen)
  case (Cons b bs)
  obtain r where r: "pack_rows blake3 parquet slc cap b 0 st = Some r" "\<forall>st'. r = Inr st' \<longrightarrow>
      split_inv blake3 parquet cap (seen @ map (Pair fp) (batch_rows b)) st' \<and> ts_schema st' = Some s \<and> ts_fingerprint st' = Some fp"
      "(\<exists>e. r = Inl e) \<longrightarrow> cannot_write parquet (length seen + num_rows b)"
    using pack_rows_inv [OF slc _ cap Cons.prems(2) _ Cons.prems(3,4), of b 0] Cons.prems(1) by auto
  show ?case
  proof (cases r)
    case (Inr st1)
    then show ?thesis
      using r Cons.IH [of "seen @ map (Pair fp) (batch_rows b)" st1] Cons.prems(1) by (simp add: add.assoc)
  next
    case (Inl e)
    then show ?thesis
      using r cannot_write_mono [of parquet "length seen + num_rows b" "length seen + length (rows_of (b # bs))"] by simp
  qed
qed simp

lemma split_inv_flushed:
  assumes inv: "split_inv blake3 parquet cap seen st" and cap: "0 < cap"
    and flush: "(if ts_pieces st \<noteq> [] then flush_table blake3 parquet st else Inr st) = Inr st'"
  shows "split_inv blake3 parquet cap seen st' \<and> ts_pieces st' = []"
proof (cases "ts_pieces st = []")
  case False
  note I = inv [unfolded split_inv_def]
  obtain s fp where sf: "ts_schema st = Some s" "ts_fingerprint st = Some fp" "schema_fingerprint blake3 s = Inr fp"
    using I False by (cases "ts_schema st"; cases "ts_fingerprint st") auto
  obtain parts where "laid_out blake3 parquet 0 (ts_objects st) parts" "list_all (part_ok blake3 cap) parts"
      "seen = concat (map part_rows parts) @ map (Pair fp) (rows_of (ts_pieces st))"
    using I sf(2) by auto
  then show ?thesis
    using flush_table_inv [OF _ _ _ cap sf, of parquet st'] flush False I by auto
qed (use assms in auto)

lemma enter_leaf_fails:
  "split_inv blake3 parquet cap seen st \<Longrightarrow> enter_leaf blake3 parquet leaf st = Inl e \<Longrightarrow> cannot_write parquet n"
  by (cases "flush_table blake3 parquet st")
    (auto simp: enter_leaf_def split_inv_def dest: flush_table_fails split: if_splits)

lemma enter_leaf_inv:
  assumes inv: "split_inv blake3 parquet cap seen st" and cap: "0 < cap"
    and leaf: "schema_fingerprint blake3 (tl_schema leaf) = Inr (tl_schema_fingerprint leaf)"
    and enter: "enter_leaf blake3 parquet leaf st = Inr st'"
  shows "split_inv blake3 parquet cap seen st' \<and> (\<exists>s. ts_schema st' = Some s) \<and> ts_fingerprint st' = Some (tl_schema_fingerprint leaf)"
proof (cases "ts_fingerprint st = Some (tl_schema_fingerprint leaf)")
  case True
  then show ?thesis
    using enter inv by (auto simp: enter_leaf_def split_inv_def)
next
  case False
  then obtain st1 where st1: "(if ts_pieces st \<noteq> [] then flush_table blake3 parquet st else Inr st) = Inr st1"
      "st1\<lparr>ts_fingerprint := Some (tl_schema_fingerprint leaf), ts_schema := Some (tl_schema leaf)\<rparr> = st'"
    using enter by (auto simp: enter_leaf_def)
  with split_inv_flushed [OF inv cap st1(1)] show ?thesis
    using leaf by (auto simp: split_inv_def)
qed

text \<open>The rows of the leaves, each tagged with the schema fingerprint of its leaf.\<close>

definition table_stream :: "table_leaf_input list \<Rightarrow> (hash32 \<times> scalar option list) list" where
  "table_stream leaves = concat (map (\<lambda>l. map (Pair (tl_schema_fingerprint l)) (rows_of (tl_batches l))) leaves)"

definition table_leaf_ok :: "(rstring \<Rightarrow> error + json) \<Rightarrow> (bytes \<Rightarrow> hash32) \<Rightarrow> cast_fn \<Rightarrow> table_leaf_input \<Rightarrow> bool" where
  "table_leaf_ok parse blake3 cast l \<longleftrightarrow>
    (\<exists>s bs mn mx attrs. table_leaf_new parse blake3 cast s bs mn mx attrs = Inr l \<and> list_all batch_wf bs)"

lemma table_leaf_okD:
  assumes "table_leaf_ok parse blake3 cast l"
  shows "descriptor_ok parse (tl_descriptor l)" "schema_fingerprint blake3 (tl_schema l) = Inr (tl_schema_fingerprint l)"
    "\<forall>b \<in> set (tl_batches l). batch_wf b" "pd_logical_leaf_hash (tl_descriptor l) = tl_leaf_hash l"
  using assms by (auto simp: table_leaf_ok_def table_leaf_new_def new_with_leaf_hash_def validate_descriptor_iff
      descriptor_ok_def list_all_iff)

lemma pack_table_leaves_inv:
  assumes slc: "slice_spec slc" and cap: "0 < cap" and leaves: "\<forall>l \<in> set leaves. table_leaf_ok parse blake3 cast l"
    and inv: "split_inv blake3 parquet cap seen st"
  shows "\<exists>r. pack_table_leaves blake3 parquet slc cap leaves st = Some r \<and> (\<forall>st'. r = Inr st' \<longrightarrow>
    split_inv blake3 parquet cap (seen @ table_stream leaves) st') \<and>
    ((\<exists>e. r = Inl e) \<longrightarrow> cannot_write parquet (length seen + length (table_stream leaves)))"
  using leaves inv
proof (induction leaves arbitrary: st seen)
  case Nil
  then show ?case by (simp add: table_stream_def)
next
  case (Cons l leaves)
  have l: "table_leaf_ok parse blake3 cast l" using Cons.prems(1) by simp
  show ?case
  proof (cases "enter_leaf blake3 parquet l st")
    case (Inr st1)
    obtain s where e: "split_inv blake3 parquet cap seen st1" "ts_schema st1 = Some s"
        "ts_fingerprint st1 = Some (tl_schema_fingerprint l)"
      using enter_leaf_inv [OF Cons.prems(2) cap table_leaf_okD(2) [OF l] Inr] by blast
    obtain r where r: "pack_batches blake3 parquet slc cap (tl_batches l) st1 = Some r" "\<forall>st'. r = Inr st' \<longrightarrow>
        split_inv blake3 parquet cap (seen @ map (Pair (tl_schema_fingerprint l)) (rows_of (tl_batches l))) st'"
        "(\<exists>e. r = Inl e) \<longrightarrow> cannot_write parquet (length seen + length (rows_of (tl_batches l)))"
      using pack_batches_inv [OF slc cap table_leaf_okD(3) [OF l] e] by blast
    show ?thesis
    proof (cases r)
      case st2: (Inr st2)
      then show ?thesis
        using r Inr Cons.IH [of "seen @ map (Pair (tl_schema_fingerprint l)) (rows_of (tl_batches l))" st2] Cons.prems(1)
        by (simp add: table_stream_def add.assoc)
    next
      case (Inl e)
      then show ?thesis
        using r \<open>enter_leaf blake3 parquet l st = Inr st1\<close> cannot_write_mono [of parquet "length seen + length (rows_of (tl_batches l))"
          "length seen + length (table_stream (l # leaves))"] by (simp add: table_stream_def)
    qed
  next
    case (Inl e)
    then show ?thesis using enter_leaf_fails [OF Cons.prems(2) Inl] by simp
  qed
qed

lemma build_table_physical_objects_correct:
  assumes slc: "slice_spec slc" and cap: "0 < cap" and leaves: "\<forall>l \<in> set leaves. table_leaf_ok parse blake3 cast l"
  shows "\<exists>r. build_table_physical_objects blake3 parquet slc leaves cap = Some r \<and> (\<forall>os. r = Inr os \<longrightarrow>
    (\<exists>parts. laid_out blake3 parquet 0 os parts \<and> list_all (part_ok blake3 cap) parts \<and>
      concat (map part_rows parts) = table_stream leaves)) \<and>
    ((\<exists>e. r = Inl e) \<longrightarrow> cannot_write parquet (length (table_stream leaves)))"
proof -
  let ?st = "\<lparr>ts_objects = [], ts_pieces = [], ts_rows = 0, ts_logical_start = 0, ts_logical_cursor = 0,
         ts_fingerprint = None, ts_schema = None\<rparr>"
  have "split_inv blake3 parquet cap [] ?st" using cap by (simp add: split_inv_def)
  from pack_table_leaves_inv [OF slc cap leaves this]
  obtain r where r: "pack_table_leaves blake3 parquet slc cap leaves ?st = Some r"
      "\<forall>st'. r = Inr st' \<longrightarrow> split_inv blake3 parquet cap (table_stream leaves) st'"
      "(\<exists>e. r = Inl e) \<longrightarrow> cannot_write parquet (length (table_stream leaves))" by auto
  let ?last = "\<lambda>st. if ts_pieces st \<noteq> [] then flush_table blake3 parquet st else Inr st"
  let ?r = "res_bind r (\<lambda>st. res_bind (?last st) (\<lambda>st. Inr (ts_objects st)))"
  have "\<exists>parts. laid_out blake3 parquet 0 os parts \<and> list_all (part_ok blake3 cap) parts \<and>
      concat (map part_rows parts) = table_stream leaves"
    if eq: "?r = Inr os" for os
  proof -
    obtain st st' where st: "r = Inr st" "?last st = Inr st'" "os = ts_objects st'" using eq by auto
    have "split_inv blake3 parquet cap (table_stream leaves) st' \<and> ts_pieces st' = []"
      using split_inv_flushed [OF _ cap st(2)] r(2) st(1) by blast
    then show ?thesis unfolding st(3) split_inv_def by auto
  qed
  moreover have "cannot_write parquet (length (table_stream leaves))" if eq: "?r = Inl e" for e
  proof (cases r)
    case (Inr st)
    then have "flush_table blake3 parquet st = Inl e" "ts_schema st \<noteq> None"
      using eq r(2) by (cases "flush_table blake3 parquet st"; auto simp: split_inv_def split: if_splits)+
    then show ?thesis by (rule flush_table_fails)
  qed (use r(3) in simp)
  ultimately show ?thesis
    using r(1) by (auto simp: build_table_physical_objects_def)
qed

section \<open>The spans of a table pack\<close>

abbreviation table_descriptor :: "table_leaf_input \<Rightarrow> pack_leaf_descriptor" where
  "table_descriptor l \<equiv> with_schema_fingerprint (tl_descriptor l) (tl_schema_fingerprint l)"

lemma table_leaf_counts:
  assumes "table_leaf_ok parse blake3 cast l"
  shows "unat (pd_logical_count (tl_descriptor l)) = length (rows_of (tl_batches l))" "rows_of (tl_batches l) \<noteq> []"
proof -
  obtain s bs mn mx attrs where l: "table_leaf_new parse blake3 cast s bs mn mx attrs = Inr l"
    using assms by (auto simp: table_leaf_ok_def)
  then obtain n where n: "row_total ''table leaf input row count exceeds u64::MAX'' 0 bs = Inr n" "tl_batches l = bs"
      "pd_logical_count (tl_descriptor l) = of_nat n" "of_nat n \<noteq> (0 :: u64)"
    by (auto simp: table_leaf_new_def new_with_leaf_hash_def validate_descriptor_iff)
  have "n = length (rows_of bs)" "n \<le> u64_max"
    using n(1) by (auto simp: row_total_eq length_concat comp_def split: if_splits)
  moreover have "n \<noteq> 0" using n(4) by (cases n) auto
  ultimately show "unat (pd_logical_count (tl_descriptor l)) = length (rows_of (tl_batches l))" "rows_of (tl_batches l) \<noteq> []"
    unfolding n(2,3) by (simp_all only: unat_of_nat_le(2)) auto
qed

text \<open>What the leaf ranges of an index say about a row stream: each range names the fingerprint of its
  rows, and the ranges cover the stream from \<open>a\<close> on.\<close>

definition ranges_of :: "(nat \<times> nat \<times> hash32 option) list \<Rightarrow> nat \<Rightarrow> (hash32 \<times> 'r) list \<Rightarrow> bool" where
  "ranges_of rs a stream \<longleftrightarrow>
    (\<forall>(x, y, sch) \<in> set rs. x < y \<and> y \<le> length stream \<and> (\<forall>i. x \<le> i \<longrightarrow> i < y \<longrightarrow> sch = Some (fst (stream ! i)))) \<and>
    (\<forall>i. a \<le> i \<longrightarrow> i < length stream \<longrightarrow> (\<exists>(x, y, sch) \<in> set rs. x \<le> i \<and> i < y))"

lemma ranges_of_Cons:
  assumes "ranges_of rs b stream" and "a < b" and "b \<le> length stream"
    and "\<forall>i. a \<le> i \<longrightarrow> i < b \<longrightarrow> fst (stream ! i) = fp"
  shows "ranges_of ((a, b, Some fp) # rs) a stream"
proof -
  have "\<exists>(x, y, sch) \<in> set ((a, b, Some fp) # rs). x \<le> i \<and> i < y" if "a \<le> i" "i < length stream" for i
  proof (cases "i < b")
    case False
    then have "\<exists>(x, y, sch) \<in> set rs. x \<le> i \<and> i < y" using assms(1) that(2) by (simp add: ranges_of_def)
    then show ?thesis by auto
  qed (use that in auto)
  then show ?thesis using assms unfolding ranges_of_def by simp
qed

lemma leaf_ranges_of:
  assumes "\<forall>l \<in> set leaves. table_leaf_ok parse blake3 cast l"
    and "leaf_ranges (length pre) (map table_descriptor leaves) = Inr rs"
  shows "ranges_of rs (length pre) (pre @ table_stream leaves)"
  using assms
proof (induction leaves arbitrary: pre rs)
  case Nil
  then show ?case by (simp add: ranges_of_def table_stream_def)
next
  case (Cons l leaves)
  let ?rows = "map (Pair (tl_schema_fingerprint l)) (rows_of (tl_batches l))"
  let ?stream = "pre @ table_stream (l # leaves)"
  have n: "unat (pd_logical_count (tl_descriptor l)) = length ?rows" "?rows \<noteq> []"
    using table_leaf_counts [of parse blake3 cast l] Cons.prems(1) by auto
  have st: "?stream = (pre @ ?rows) @ table_stream leaves" by (simp add: table_stream_def)
  obtain rs' where rs': "leaf_ranges (length (pre @ ?rows))
      (map table_descriptor leaves) = Inr rs'"
      and rs: "rs = (length pre, length (pre @ ?rows), Some (tl_schema_fingerprint l)) # rs'"
    using Cons.prems(2) n(1) by (auto simp: Let_def with_schema_fingerprint_def)
  have "ranges_of rs' (length (pre @ ?rows)) ?stream"
    unfolding st using Cons.IH [OF _ rs'] Cons.prems(1) by simp
  moreover have "fst (?stream ! i) = tl_schema_fingerprint l" if "length pre \<le> i" "i < length (pre @ ?rows)" for i
    using that less_diff_conv2 [of "length pre" i "length (rows_of (tl_batches l))"] unfolding st by (simp add: nth_append)
  moreover have "length pre < length (pre @ ?rows)" "length (pre @ ?rows) \<le> length ?stream"
    using n(2) unfolding st by simp_all
  ultimately show ?case unfolding rs by (intro ranges_of_Cons) blast+
qed

lemma span_fingerprint_uniform:
  assumes "\<forall>(x, y, sch) \<in> set rs. \<not> (y \<le> ls \<or> le \<le> x) \<longrightarrow> sch = Some f"
    and "acc = Some f \<or> acc = None \<and> (\<exists>(x, y, sch) \<in> set rs. \<not> (y \<le> ls \<or> le \<le> x))"
  shows "span_fingerprint rs ls le acc = Inr (Some f)"
  using assms
proof (induction rs arbitrary: acc)
  case (Cons r rs)
  obtain x y sch where r: "r = (x, y, sch)" by (cases r)
  show ?case
  proof (cases "y \<le> ls \<or> le \<le> x")
    case True
    then show ?thesis using Cons.IH [of acc] Cons.prems by (auto simp: r)
  next
    case False
    then have "sch = Some f" using Cons.prems(1) by (auto simp: r)
    then show ?thesis using Cons.IH [of "Some f"] Cons.prems False by (auto simp: r)
  qed
qed auto

lemma span_fingerprint_part:
  assumes rs: "ranges_of rs 0 stream" and stream: "stream = pre @ map (Pair f) rows @ post" and rows: "rows \<noteq> []"
  shows "span_fingerprint rs (length pre) (length pre + length rows) None = Inr (Some f)"
proof (rule span_fingerprint_uniform)
  let ?ls = "length pre" and ?le = "length pre + length rows"
  have f: "fst (stream ! i) = f" if "?ls \<le> i" "i < ?le" for i
    using that less_diff_conv2 [of ?ls i "length rows"] by (simp add: stream nth_append)
  show "\<forall>(x, y, sch) \<in> set rs. \<not> (y \<le> ?ls \<or> ?le \<le> x) \<longrightarrow> sch = Some f"
  proof (intro ballI, simp only: split_paired_all case_prod_conv, intro impI)
    fix x y sch assume m: "(x, y, sch) \<in> set rs" and meet: "\<not> (y \<le> ?ls \<or> ?le \<le> x)"
    have "x < y" and sch: "\<And>i. x \<le> i \<Longrightarrow> i < y \<Longrightarrow> sch = Some (fst (stream ! i))"
      using rs m by (auto simp: ranges_of_def)
    then have i: "x \<le> max x ?ls" "max x ?ls < y" "?ls \<le> max x ?ls" "max x ?ls < ?le" using meet rows by simp_all
    show "sch = Some f" using sch [OF i(1,2)] f [OF i(3,4)] by simp
  qed
  have "?ls < length stream" using rows by (simp add: stream)
  then obtain x y sch where "(x, y, sch) \<in> set rs" "x \<le> ?ls" "?ls < y"
    using rs by (auto simp: ranges_of_def)
  moreover have "0 < length rows" using rows by simp
  ultimately show "None = Some f \<or> None = (None :: hash32 option) \<and> (\<exists>(x, y, sch) \<in> set rs. \<not> (y \<le> ?ls \<or> ?le \<le> x))"
    by (intro disjI2 conjI bexI [of _ "(x, y, sch)"]) (simp_all del: length_greater_0_conv)
qed

text \<open>The spans of the written objects, from row \<open>a\<close> and byte \<open>p\<close> on.\<close>

fun table_spans :: "nat \<Rightarrow> built_object list \<Rightarrow> pack_object_span list" where
  "table_spans p [] = []"
| "table_spans p (b # os) =
    \<lparr>os_object_hash = bo_hash b, os_logical_start = of_nat (bo_logical_start b), os_logical_end = of_nat (bo_logical_end b),
     os_physical_start = of_nat p, os_physical_end = of_nat (p + length (bo_bytes b))\<rparr> # table_spans (p + length (bo_bytes b)) os"

lemma of_nat_u64_less: "m < n \<Longrightarrow> n \<le> u64_max \<Longrightarrow> (of_nat m :: u64) < of_nat n"
  by (simp add: word_less_nat_alt unat_of_nat_le)

lemma pack_object_spans_table:
  assumes "laid_out blake3 parquet a os parts" and "list_all (part_ok blake3 cap) parts" and "[] \<notin> bo_bytes ` set os"
    and "a + length (concat (map part_rows parts)) \<le> u64_max" and "p + length (concat (map bo_bytes os)) \<le> u64_max"
  shows "pack_object_spans p os = Inr (table_spans p os)"
  using assms
proof (induction blake3 parquet a os parts arbitrary: p rule: laid_out.induct)
  case (3 blake3 parquet a b os q ps)
  have "a < a + length (part_rows q)" "a + length (part_rows q) \<le> u64_max"
    using "3.prems"(2,4) by (simp_all add: part_ok_def part_rows_def)
  then have l: "(of_nat a :: u64) < of_nat (a + length (part_rows q))" by (rule of_nat_u64_less)
  have "p < p + length (bo_bytes b)" "p + length (bo_bytes b) \<le> u64_max"
    using "3.prems"(3,5) by auto
  then have p: "(of_nat p :: u64) < of_nat (p + length (bo_bytes b))" "p + length (bo_bytes b) \<le> u64_max"
    by (simp_all only: of_nat_u64_less)
  have "pack_object_spans (p + length (bo_bytes b)) os = Inr (table_spans (p + length (bo_bytes b)) os)"
    using "3.prems" by (intro "3.IH") (simp_all add: add.assoc)
  then show ?case
    using l p "3.prems"(1) by (simp add: Let_def span_new_def del: of_nat_add)
qed simp_all

lemma check_table_span:
  assumes u: "unat (of_nat a :: u64) = a" "unat (of_nat a' :: u64) = a'" "unat (of_nat p :: u64) = p" "unat (of_nat p' :: u64) = p'"
    and lt: "a < a'" "p < p'" and fp: "span_fingerprint ranges a a' None = Inr (Some f)"
    and L: "L h \<in> {None, Some (p' - p)}"
  shows "check_span False True ranges \<lparr>logical_cursor = a, physical_cursor = p, lengths_by_hash = L\<rparr>
      \<lparr>os_object_hash = h, os_logical_start = of_nat a, os_logical_end = of_nat a',
       os_physical_start = of_nat p, os_physical_end = of_nat p'\<rparr> =
      Inr \<lparr>logical_cursor = a', physical_cursor = p', lengths_by_hash = L(h \<mapsto> p' - p)\<rparr>"
  using lt fp L unfolding check_span_def Let_def pack_object_span.select_convs span_state.select_convs u
  by auto

lemma lengths_by_hash_update:
  assumes agree: "\<forall>d \<in> S. \<forall>d' \<in> S. h d = h d' \<longrightarrow> n d = n d'" and L: "\<forall>d \<in> S. L (h d) \<in> {None, Some (n d)}" and c: "c \<in> S"
  shows "\<forall>d \<in> S. (L(h c \<mapsto> n c)) (h d) \<in> {None, Some (n d)}"
proof
  fix d assume d: "d \<in> S"
  show "(L(h c \<mapsto> n c)) (h d) \<in> {None, Some (n d)}"
  proof (cases "h d = h c")
    case True
    then have "n d = n c" by (meson agree c d)
    then show ?thesis by (simp only: True fun_upd_same insert_iff simp_thms)
  next
    case False
    then show ?thesis using bspec [OF L d] by (simp only: fun_upd_other not_False_eq_True)
  qed
qed

lemma check_table_spans:
  assumes "laid_out blake3 parquet a os parts" and "list_all (part_ok blake3 cap) parts" and "[] \<notin> bo_bytes ` set os"
    and "a + length (concat (map part_rows parts)) \<le> u64_max" and "p + length (concat (map bo_bytes os)) \<le> u64_max"
    and rs: "ranges_of rs 0 stream" and "stream = pre @ concat (map part_rows parts)" and "length pre = a"
    and "\<forall>d \<in> set os. \<forall>d' \<in> set os. bo_hash d = bo_hash d' \<longrightarrow> length (bo_bytes d) = length (bo_bytes d')"
    and "\<forall>d \<in> set os. L (bo_hash d) \<in> {None, Some (length (bo_bytes d))}"
  shows "\<exists>L'. res_fold (check_span False True rs) \<lparr>logical_cursor = a, physical_cursor = p, lengths_by_hash = L\<rparr> (table_spans p os) =
    Inr \<lparr>logical_cursor = a + length (concat (map part_rows parts)), physical_cursor = p + length (concat (map bo_bytes os)),
      lengths_by_hash = L'\<rparr>"
  using assms(1-5,7-10)
proof (induction blake3 parquet a os parts arbitrary: p L pre rule: laid_out.induct)
  case (3 blake3 parquet a b os q ps)
  let ?a = "a + length (part_rows q)" and ?p = "p + length (bo_bytes b)"
  let ?L = "L(bo_hash b \<mapsto> length (bo_bytes b))"
  have b: "bo_logical_start b = a" "bo_logical_end b = ?a" and out: "laid_out blake3 parquet ?a os ps" using "3.prems"(1) by simp_all
  have rows: "rows_of (snd (snd q)) \<noteq> []" using "3.prems"(2) by (simp add: part_ok_def)
  have lt: "a < ?a" "p < ?p" using rows "3.prems"(3) by (auto simp: part_rows_def)
  have "?a \<le> u64_max" "?p \<le> u64_max" using "3.prems"(4,5) by simp_all
  then have u: "unat (of_nat a :: u64) = a" "unat (of_nat ?a :: u64) = ?a" "unat (of_nat p :: u64) = p" "unat (of_nat ?p :: u64) = ?p"
    by (simp_all only: unat_of_nat_le)
  have "stream = pre @ map (Pair (fst q)) (rows_of (snd (snd q))) @ concat (map part_rows ps)"
    using "3.prems"(6) by (simp add: part_rows_def [of q])
  from span_fingerprint_part [OF rs this rows]
  have fp: "span_fingerprint rs a ?a None = Inr (Some (fst q))" using "3.prems"(7) by (simp add: part_rows_def)
  have L: "L (bo_hash b) \<in> {None, Some (?p - p)}" using bspec [OF "3.prems"(9), of b] by simp
  have step: "check_span False True rs \<lparr>logical_cursor = a, physical_cursor = p, lengths_by_hash = L\<rparr>
      \<lparr>os_object_hash = bo_hash b, os_logical_start = of_nat a, os_logical_end = of_nat ?a,
       os_physical_start = of_nat p, os_physical_end = of_nat ?p\<rparr> =
      Inr \<lparr>logical_cursor = ?a, physical_cursor = ?p, lengths_by_hash = ?L\<rparr>"
    using check_table_span [OF u lt fp, of L "bo_hash b"] L by (simp del: of_nat_add)
  have "\<exists>L'. res_fold (check_span False True rs) \<lparr>logical_cursor = ?a, physical_cursor = ?p, lengths_by_hash = ?L\<rparr> (table_spans ?p os) =
    Inr \<lparr>logical_cursor = ?a + length (concat (map part_rows ps)), physical_cursor = ?p + length (concat (map bo_bytes os)),
      lengths_by_hash = L'\<rparr>"
  proof (rule "3.IH" [OF out])
    show "list_all (part_ok blake3 cap) ps" "[] \<notin> bo_bytes ` set os" "?a + length (concat (map part_rows ps)) \<le> u64_max"
      "?p + length (concat (map bo_bytes os)) \<le> u64_max"
      using "3.prems"(2-5) by simp_all
    show "stream = (pre @ part_rows q) @ concat (map part_rows ps)" "length (pre @ part_rows q) = ?a"
      using "3.prems"(6,7) by simp_all
    show "\<forall>d \<in> set os. \<forall>d' \<in> set os. bo_hash d = bo_hash d' \<longrightarrow> length (bo_bytes d) = length (bo_bytes d')"
      by (meson "3.prems"(8) list.set_intros(2))
    show "\<forall>d \<in> set os. ?L (bo_hash d) \<in> {None, Some (length (bo_bytes d))}"
      using lengths_by_hash_update [OF "3.prems"(8,9), of b] by (meson list.set_intros)
  qed
  then show ?case using step b by (simp add: add.assoc del: of_nat_add)
next
  case (1 blake3 parquet a ps)
  from "1.prems"(1) show ?case by simp
next
  case (2 blake3 parquet a b os)
  from "2.prems"(1) show ?case by simp
qed

lemma table_descriptors:
  assumes "\<forall>l \<in> set leaves. table_leaf_ok parse blake3 cast l"
    and "ds = map table_descriptor leaves"
  shows "map pd_logical_leaf_hash ds = map tl_leaf_hash leaves"
    "sum_list (map (\<lambda>d. unat (pd_logical_count d)) ds) = length (table_stream leaves)"
    "list_all (\<lambda>d. pd_schema_fingerprint d \<noteq> None) ds" "list_all (descriptor_ok parse) ds"
    "leaves \<noteq> [] \<Longrightarrow> table_stream leaves \<noteq> []"
proof -
  show "map pd_logical_leaf_hash ds = map tl_leaf_hash leaves"
    using assms by (auto simp: with_schema_fingerprint_def dest: table_leaf_okD(4))
  show "sum_list (map (\<lambda>d. unat (pd_logical_count d)) ds) = length (table_stream leaves)"
    unfolding assms(2) using assms(1)
    by (induction leaves) (auto simp: table_stream_def with_schema_fingerprint_def dest!: table_leaf_counts(1))
  show "list_all (\<lambda>d. pd_schema_fingerprint d \<noteq> None) ds" "list_all (descriptor_ok parse) ds"
    using assms by (auto simp: list_all_iff descriptor_ok_def with_schema_fingerprint_def dest!: table_leaf_okD(1))
  show "table_stream leaves \<noteq> []" if "leaves \<noteq> []"
    using that assms(1) table_leaf_counts(2) by (cases leaves) (auto simp: table_stream_def)
qed

lemma seal_table_complete:
  assumes leaves: "\<forall>l \<in> set leaves. table_leaf_ok parse blake3 cast l"
    and ds: "ds = map table_descriptor leaves"
    and inp: "pack_input_ok blake3 Table mh m whole ls (map tl_leaf_hash leaves) ds"
    and parts: "laid_out blake3 parquet 0 os parts" "list_all (part_ok blake3 cap) parts" "concat (map part_rows parts) = table_stream leaves"
    and bytes: "[] \<notin> bo_bytes ` set os" "length (concat (map bo_bytes os)) \<le> u64_max" "sizes_agree blake3 (map bo_bytes os)"
  shows "\<exists>b. seal_pack blake3 mh m whole ls ds (of_nat (unat ls + length leaves), map tl_leaf_hash leaves, length (table_stream leaves)) os = Inr b"
proof -
  note D = table_descriptors [OF leaves ds]
  have max: "length (table_stream leaves) \<le> u64_max" and ne: "leaves \<noteq> []" using inp D(2) by (auto simp: pack_input_ok_def)
  have sp: "pack_object_spans 0 os = Inr (table_spans 0 os)"
    by (rule pack_object_spans_table [OF parts(1,2) bytes(1)]) (use max parts(3) bytes(2) in simp_all)
  have "parts \<noteq> []" using parts(3) D(5) [OF ne] by auto
  then have sne: "table_spans 0 os \<noteq> []" using parts(1) by (cases os) auto
  have pb: "checked_physical_byte_count 0 os = Inr (length (concat (map bo_bytes os)))"
    using bytes(2) by (simp add: checked_physical_byte_count_iff)
  obtain rs where rs: "leaf_ranges 0 ds = Inr rs" using leaf_ranges_ok [of 0 ds] D(2) max by auto
  have hash: "\<forall>d \<in> set os. bo_hash d = blake3 (bo_bytes d)"
    using laid_out_written [OF parts(1)] by (auto simp: written_def list_all2_conv_all_nth in_set_conv_nth)
  have agree: "\<forall>d \<in> set os. \<forall>d' \<in> set os. bo_hash d = bo_hash d' \<longrightarrow> length (bo_bytes d) = length (bo_bytes d')"
    using bytes(3) hash unfolding sizes_agree_def set_map by (metis imageI)
  have "\<exists>L'. res_fold (check_span False True rs) \<lparr>logical_cursor = 0, physical_cursor = 0, lengths_by_hash = Map.empty\<rparr> (table_spans 0 os) =
    Inr \<lparr>logical_cursor = 0 + length (concat (map part_rows parts)), physical_cursor = 0 + length (concat (map bo_bytes os)), lengths_by_hash = L'\<rparr>"
  proof (rule check_table_spans [OF parts(1,2) bytes(1) _ _ _ _ _ agree])
    show "ranges_of rs 0 (table_stream leaves)" using leaf_ranges_of [OF leaves, of "[]" rs] rs ds by simp
    show "table_stream leaves = [] @ concat (map part_rows parts)" using parts(3) by simp
  qed (use max parts(3) bytes(2) in simp_all)
  moreover have "\<not> list_all (\<lambda>d. pd_schema_fingerprint d = None) ds"
    using D(3) ne ds by (cases ds) auto
  ultimately have v: "validate_object_spans (table_spans 0 os) ds (of_nat (length (table_stream leaves)))
      (of_nat (length (concat (map bo_bytes os)))) = Inr ()"
    using rs D(3) max bytes(2) parts(3) by (auto simp: validate_object_spans_def unat_of_nat_le)
  have "\<exists>b. seal_pack blake3 mh m whole ls ds (of_nat (unat ls + length ds), map pd_logical_leaf_hash ds,
      sum_list (map (\<lambda>d. unat (pd_logical_count d)) ds)) os = Inr b"
    by (rule seal_pack_complete [where kind = Table, OF _ _ sp sne pb]) (use inp D(3) v in \<open>simp_all only: D(1,2), auto simp: list_all_iff\<close>)
  then show ?thesis unfolding D(1,2) by (simp add: ds)
qed

section \<open>Properties\<close>


definition toy_slice :: slice_fn where
  "toy_slice b off n = \<lparr>num_rows = n, columns = map (\<lambda>c. c\<lparr>col_values := slice (col_values c) off (off + n)\<rparr>) (columns b)\<rparr>"

lemma toy_slice_spec: "slice_spec toy_slice"
  by (auto simp: slice_spec_def toy_slice_def batch_rows_def batch_wf_def list_all_iff slice_def intro!: nth_equalityI)

definition toy_parquet :: parquet_fn where
  "toy_parquet s bs = Inr (1 # replicate (length (rows_of bs)) 7)"

definition ex_table_leaf :: "metadata \<Rightarrow> u32 list \<Rightarrow> table_leaf_input" where
  "ex_table_leaf md xs =
    (case table_leaf_new toy_parse toy_hash toy_cast (toy_schema Float32 md) [toy_batch xs] None None None of Inr l \<Rightarrow> l)"

definition ex_metadata :: metadata where
  "ex_metadata = [(mk_str [98], mk_str [99])]"

lemma ex_fingerprints:
  "\<exists>f g. schema_fingerprint toy_hash (toy_schema Float32 []) = Inr f \<and> schema_fingerprint toy_hash (toy_schema Float32 ex_metadata) = Inr g \<and> f \<noteq> g"
proof -
  have "(4 :: nat) = Suc (Suc (Suc (Suc 0)))" by simp
  then have z: "le32 0 = [0, 0, 0, 0]" unfolding le32_def by (simp only: le_nat.simps) simp
  show ?thesis
    by (simp add: schema_fingerprint_def schema_fingerprint_with_magic_def toy_leaf_defs push_pair_def ex_metadata_def toy_hash_def z)
qed

lemma ex_table_leaf:
  assumes "md = [] \<and> xs = [1, 2, 3] \<or> md = ex_metadata \<and> xs = [4]"
  shows "\<exists>h fp. schema_fingerprint toy_hash (toy_schema Float32 md) = Inr fp \<and>
    table_leaf_new toy_parse toy_hash toy_cast (toy_schema Float32 md) [toy_batch xs] None None None = Inr (ex_table_leaf md xs) \<and>
    ex_table_leaf md xs = \<lparr>tl_schema = toy_schema Float32 md, tl_batches = [toy_batch xs],
      tl_descriptor = \<lparr>pd_logical_leaf_hash = h, pd_logical_count = of_nat (length xs), pd_schema_fingerprint = None,
        pd_min_event_time = None, pd_max_event_time = None, pd_logical_attributes = None\<rparr>,
      tl_leaf_hash = h, tl_schema_fingerprint = fp\<rparr>"
proof -
  obtain fp where fp: "schema_fingerprint toy_hash (toy_schema Float32 md) = Inr fp"
    using assms ex_fingerprints by blast
  obtain h where h: "table_leaf_hash_canonical toy_hash toy_cast (toy_schema Float32 md) [toy_batch xs] None None None = Inr h"
  proof (atomize_elim, unfold table_leaf_Inr, insert assms, elim disjE conjE)
    assume "md = []" "xs = [1, 2, 3]"
    then show "\<exists>h sb payload. encode_canonical_schema (toy_schema Float32 md) = Inr sb \<and>
        encode_canonical_rows toy_cast (toy_schema Float32 md) [toy_batch xs] = Inr payload \<and>
        sum_list (map num_rows [toy_batch xs]) \<noteq> 0 \<and> leaf_hash_with_magic toy_hash LEAF_MAGIC LEAF_KIND_TABLE (as_bytes (toy_hash sb))
          (of_nat (sum_list (map num_rows [toy_batch xs]))) payload None None (or_empty None) = Inr h"
      by (simp add: toy_leaf_defs ROWS_MAGIC_def)
  next
    assume "md = ex_metadata" "xs = [4]"
    then show "\<exists>h sb payload. encode_canonical_schema (toy_schema Float32 md) = Inr sb \<and>
        encode_canonical_rows toy_cast (toy_schema Float32 md) [toy_batch xs] = Inr payload \<and>
        sum_list (map num_rows [toy_batch xs]) \<noteq> 0 \<and> leaf_hash_with_magic toy_hash LEAF_MAGIC LEAF_KIND_TABLE (as_bytes (toy_hash sb))
          (of_nat (sum_list (map num_rows [toy_batch xs]))) payload None None (or_empty None) = Inr h"
      by (simp add: toy_leaf_defs ROWS_MAGIC_def push_pair_def ex_metadata_def)
  qed
  have "of_nat (length xs) \<noteq> (0 :: u64)" using assms by auto
  then have "table_leaf_new toy_parse toy_hash toy_cast (toy_schema Float32 md) [toy_batch xs] None None None =
      Inr \<lparr>tl_schema = toy_schema Float32 md, tl_batches = [toy_batch xs],
      tl_descriptor = \<lparr>pd_logical_leaf_hash = h, pd_logical_count = of_nat (length xs), pd_schema_fingerprint = None,
        pd_min_event_time = None, pd_max_event_time = None, pd_logical_attributes = None\<rparr>,
      tl_leaf_hash = h, tl_schema_fingerprint = fp\<rparr>"
    using assms fp h by (auto simp: table_leaf_new_def validate_attributes_def new_with_leaf_hash_def validate_descriptor_def toy_batch_def)
  then show ?thesis using fp by (simp add: ex_table_leaf_def)
qed

text \<open>Two leaves of three rows and one row whose schemas differ, packed at two rows per object.\<close>

definition ex_table_leaves :: "table_leaf_input list" where
  "ex_table_leaves = [ex_table_leaf [] [1, 2, 3], ex_table_leaf ex_metadata [4]]"

definition ex_table_objects :: "built_object list" where
  "ex_table_objects =
    [\<lparr>bo_hash = toy_hash [1, 7, 7], bo_bytes = [1, 7, 7], bo_logical_start = 0, bo_logical_end = 2\<rparr>,
     \<lparr>bo_hash = toy_hash [1, 7], bo_bytes = [1, 7], bo_logical_start = 2, bo_logical_end = 3\<rparr>,
     \<lparr>bo_hash = toy_hash [1, 7], bo_bytes = [1, 7], bo_logical_start = 3, bo_logical_end = 4\<rparr>]"

lemma ex_table_leaves_ok: "\<forall>l \<in> set ex_table_leaves. table_leaf_ok toy_parse toy_hash toy_cast l"
proof -
  have "batch_wf (toy_batch xs)" for xs by (simp add: batch_wf_def toy_batch_def)
  then show ?thesis
    using ex_table_leaf [of "[]" "[1, 2, 3]"] ex_table_leaf [of ex_metadata "[4]"]
    unfolding ex_table_leaves_def table_leaf_ok_def by fastforce
qed

lemma ex_table_objects:
  "build_table_physical_objects toy_hash toy_parquet toy_slice ex_table_leaves 2 = Some (Inr ex_table_objects)"
proof -
  obtain f g where fg: "schema_fingerprint toy_hash (toy_schema Float32 []) = Inr f"
      "schema_fingerprint toy_hash (toy_schema Float32 ex_metadata) = Inr g" "f \<noteq> g"
    using ex_fingerprints by blast
  have A: "tl_schema (ex_table_leaf [] [1, 2, 3]) = toy_schema Float32 []"
      "tl_batches (ex_table_leaf [] [1, 2, 3]) = [toy_batch [1, 2, 3]]"
      "tl_schema_fingerprint (ex_table_leaf [] [1, 2, 3]) = f"
    using ex_table_leaf [of "[]" "[1, 2, 3]"] fg(1) by auto
  have B: "tl_schema (ex_table_leaf ex_metadata [4]) = toy_schema Float32 ex_metadata"
      "tl_batches (ex_table_leaf ex_metadata [4]) = [toy_batch [4]]"
      "tl_schema_fingerprint (ex_table_leaf ex_metadata [4]) = g"
    using ex_table_leaf [of ex_metadata "[4]"] fg(2) by auto
  show ?thesis
    using fg(3) by (simp add: build_table_physical_objects_def ex_table_leaves_def A B enter_leaf_def pack_rows.simps
      toy_batch_def flush_table_def write_table_object_def toy_parquet_def toy_slice_def batch_rows_def slice_def
      ex_table_objects_def Let_def)
qed

definition ex_table_manifest :: series_manifest where
  "ex_table_manifest = \<lparr>sm_payload_kind = Table, sm_logical_count = 4, sm_leaf_count = 2, sm_min_event_time = None,
     sm_max_event_time = None, sm_logical_attributes = None,
     sm_leaf_merkle_root = subtree_hash toy_hash (map tl_leaf_hash ex_table_leaves),
     sm_merkle_frontier = (case from_leaves toy_hash (map tl_leaf_hash ex_table_leaves) of Inr f \<Rightarrow> f)\<rparr>"

lemma ex_table_manifest_hash: "\<exists>mh. manifest_hash toy_hash ex_table_manifest = Inr mh"
proof -
  obtain f where f: "from_leaves toy_hash (map tl_leaf_hash ex_table_leaves) = Inr f"
      "represents toy_hash f (map tl_leaf_hash ex_table_leaves)"
    using extended_represents [OF represents_empty, of "map tl_leaf_hash ex_table_leaves" toy_hash]
    by (auto simp: from_leaves_def ex_table_leaves_def)
  have "length (peak_hashes (sm_merkle_frontier ex_table_manifest)) \<le> 64"
    using represents_frontier_ok [OF f(2)] by (auto simp: ex_table_manifest_def f(1) intro: frontier_peaks_bound)
  then show ?thesis
    using encode_manifest_total [of ex_table_manifest] by (auto simp: manifest_hash_def ex_table_manifest_def or_empty_def)
qed

lemma ex_table_input:
  assumes mh: "manifest_hash toy_hash ex_table_manifest = Inr mh"
  shows "pack_input_ok toy_hash Table mh ex_table_manifest (map tl_leaf_hash ex_table_leaves) 0
    (map tl_leaf_hash ex_table_leaves) (map table_descriptor ex_table_leaves)"
proof -
  let ?hs = "map tl_leaf_hash ex_table_leaves" and ?ds = "map table_descriptor ex_table_leaves"
  obtain ha f hb g where ds: "?ds =
      [\<lparr>pd_logical_leaf_hash = ha, pd_logical_count = 3, pd_schema_fingerprint = Some f,
        pd_min_event_time = None, pd_max_event_time = None, pd_logical_attributes = None\<rparr>,
       \<lparr>pd_logical_leaf_hash = hb, pd_logical_count = 1, pd_schema_fingerprint = Some g,
        pd_min_event_time = None, pd_max_event_time = None, pd_logical_attributes = None\<rparr>]" "?hs = [ha, hb]"
    using ex_table_leaf [of "[]" "[1, 2, 3]"] ex_table_leaf [of ex_metadata "[4]"]
    by (auto simp: ex_table_leaves_def with_schema_fingerprint_def)
  show ?thesis
    using mh by (simp add: pack_input_ok_def ds) (simp add: ex_table_manifest_def ds slice_def)
qed


end
