(* ===== verification/Spec2Isabelle.thy ===== *)
theory Spec2Isabelle
  imports ContentTree TlogTilesCorrect SeriesMerkle CommitObject ManifestMapSession PackCover PackTableCorrect
begin

text \<open>The content-addressed store of watertown.\<close>

end
